(* ===== verification/Rust_Str.thy ===== *)
theory Rust_Str
  imports Prelude
begin

text \<open>
  Rust strings, as far as the program uses them. A \<open>str\<close> is the list of its Unicode scalar
  values; byte lengths and byte offsets are those of its UTF-8 form, and a slice at an offset that
  is not on a character boundary panics. Also here: \<open>trim\<close>, \<open>split\<close>, the unsigned
  \<open>from_str_radix\<close>, UTF-8 validation as \<open>CStr::to_str\<close> does it, and \<open>encode_utf16\<close>.
\<close>

type_synonym rust_char = nat
type_synonym rust_str = "rust_char list"

definition lit :: "string \<Rightarrow> rust_str" where
  "lit s = map of_char s"

definition scalar_value :: "rust_char \<Rightarrow> bool" where
  "scalar_value c \<longleftrightarrow> c < 0xD800 \<or> 0xDFFF < c \<and> c < 0x110000"

section \<open>Byte lengths and slices\<close>

definition utf8_len :: "rust_char \<Rightarrow> nat" where
  "utf8_len c = (if c < 0x80 then 1 else if c < 0x800 then 2 else if c < 0x10000 then 3 else 4)"

definition str_len :: "rust_str \<Rightarrow> nat" where
  "str_len s = sum_list (map utf8_len s)"

fun split_at :: "nat \<Rightarrow> rust_str \<Rightarrow> (rust_str \<times> rust_str) option" where
  "split_at 0 s = Some ([], s)"
| "split_at (Suc n) [] = None"
| "split_at (Suc n) (c # s) =
     (if utf8_len c \<le> Suc n
      then map_option (\<lambda>(a, b). (c # a, b)) (split_at (Suc n - utf8_len c) s)
      else None)"

text \<open>\<open>&s[i..j]\<close>; \<open>None\<close> is the panic.\<close>

definition str_slice :: "rust_str \<Rightarrow> nat \<Rightarrow> nat \<Rightarrow> rust_str option" where
  "str_slice s i j =
     (if i \<le> j
      then case split_at i s of
             None \<Rightarrow> None
           | Some (_, t) \<Rightarrow> map_option fst (split_at (j - i) t)
      else None)"

definition is_ascii :: "rust_str \<Rightarrow> bool" where
  "is_ascii s \<longleftrightarrow> (\<forall>c \<in> set s. c < 0x80)"

section \<open>Trimming, splitting, parsing\<close>

definition is_whitespace :: "rust_char \<Rightarrow> bool" where
  "is_whitespace c \<longleftrightarrow>
     9 \<le> c \<and> c \<le> 13 \<or> c = 0x20 \<or> c = 0x85 \<or> c = 0xA0 \<or> c = 0x1680 \<or>
     0x2000 \<le> c \<and> c \<le> 0x200A \<or> c = 0x2028 \<or> c = 0x2029 \<or> c = 0x202F \<or> c = 0x205F \<or> c = 0x3000"

definition str_trim :: "rust_str \<Rightarrow> rust_str" where
  "str_trim s = rev (dropWhile is_whitespace (rev (dropWhile is_whitespace s)))"

definition strip_prefix :: "rust_char \<Rightarrow> rust_str \<Rightarrow> rust_str option" where
  "strip_prefix c s = (case s of [] \<Rightarrow> None | d # t \<Rightarrow> if d = c then Some t else None)"

definition strip_suffix :: "rust_char \<Rightarrow> rust_str \<Rightarrow> rust_str option" where
  "strip_suffix c s = (if s \<noteq> [] \<and> last s = c then Some (butlast s) else None)"

fun str_split :: "rust_char \<Rightarrow> rust_str \<Rightarrow> rust_str list" where
  "str_split d [] = [[]]"
| "str_split d (c # s) =
     (if c = d then [] # str_split d s
      else case str_split d s of [] \<Rightarrow> [[c]] | p # ps \<Rightarrow> (c # p) # ps)"

definition to_digit :: "nat \<Rightarrow> rust_char \<Rightarrow> nat option" where
  "to_digit radix c =
     (let d = (if 48 \<le> c \<and> c \<le> 57 then Some (c - 48)
               else if 97 \<le> c \<and> c \<le> 122 then Some (c - 97 + 10)
               else if 65 \<le> c \<and> c \<le> 90 then Some (c - 65 + 10) else None)
      in case d of None \<Rightarrow> None | Some n \<Rightarrow> if n < radix then Some n else None)"

text \<open>The digit loop of \<open>from_str_radix\<close>: the checked multiply and add fail on overflow.\<close>

fun radix_digits :: "nat \<Rightarrow> nat \<Rightarrow> nat \<Rightarrow> rust_str \<Rightarrow> nat option" where
  "radix_digits bound radix acc [] = Some acc"
| "radix_digits bound radix acc (c # s) =
     (case to_digit radix c of
        None \<Rightarrow> None
      | Some d \<Rightarrow>
          if acc * radix < bound \<and> acc * radix + d < bound
          then radix_digits bound radix (acc * radix + d) s else None)"

text \<open>
  \<open>from_str_radix\<close> of an unsigned type: an empty string and a lone sign are errors, one leading
  \<open>+\<close> is accepted, a leading \<open>-\<close> is then an invalid digit.
\<close>

definition from_str_radix :: "nat \<Rightarrow> rust_str \<Rightarrow> 'a::len word option" where
  "from_str_radix radix s =
     (case s of
        [] \<Rightarrow> None
      | c # t \<Rightarrow>
          if t = [] \<and> (c = 43 \<or> c = 45) then None
          else map_option of_nat
                 (radix_digits (2 ^ LENGTH('a)) radix 0 (if c = 43 then t else s)))"

section \<open>UTF-8 and UTF-16\<close>

definition utf8_encode_char :: "rust_char \<Rightarrow> nat list" where
  "utf8_encode_char c =
     (if c < 0x80 then [c]
      else if c < 0x800 then [0xC0 + c div 64, 0x80 + c mod 64]
      else if c < 0x10000 then [0xE0 + c div 4096, 0x80 + c div 64 mod 64, 0x80 + c mod 64]
      else [0xF0 + c div 262144, 0x80 + c div 4096 mod 64, 0x80 + c div 64 mod 64,
            0x80 + c mod 64])"

definition utf8_encode :: "rust_str \<Rightarrow> nat list" where
  "utf8_encode s = concat (map utf8_encode_char s)"

definition cont_byte :: "nat \<Rightarrow> bool" where
  "cont_byte b \<longleftrightarrow> 0x80 \<le> b \<and> b \<le> 0xBF"

fun utf8_decode :: "nat list \<Rightarrow> rust_str option" where
  "utf8_decode [] = Some []"
| "utf8_decode (a # bs) =
     (if a < 0x80 then map_option (Cons a) (utf8_decode bs)
      else if 0xC2 \<le> a \<and> a \<le> 0xDF then
        (case bs of
           b # cs \<Rightarrow>
             if cont_byte b
             then map_option (Cons ((a - 0xC0) * 64 + (b - 0x80))) (utf8_decode cs) else None
         | _ \<Rightarrow> None)
      else if 0xE0 \<le> a \<and> a \<le> 0xEF then
        (case bs of
           b # c # cs \<Rightarrow>
             if (if a = 0xE0 then 0xA0 \<le> b \<and> b \<le> 0xBF
                 else if a = 0xED then 0x80 \<le> b \<and> b \<le> 0x9F else cont_byte b) \<and> cont_byte c
             then map_option (Cons ((a - 0xE0) * 4096 + (b - 0x80) * 64 + (c - 0x80)))
                    (utf8_decode cs)
             else None
         | _ \<Rightarrow> None)
      else if 0xF0 \<le> a \<and> a \<le> 0xF4 then
        (case bs of
           b # c # d # cs \<Rightarrow>
             if (if a = 0xF0 then 0x90 \<le> b \<and> b \<le> 0xBF
                 else if a = 0xF4 then 0x80 \<le> b \<and> b \<le> 0x8F else cont_byte b) \<and>
                cont_byte c \<and> cont_byte d
             then map_option
                    (Cons ((a - 0xF0) * 262144 + (b - 0x80) * 4096 + (c - 0x80) * 64 + (d - 0x80)))
                    (utf8_decode cs)
             else None
         | _ \<Rightarrow> None)
      else None)"

definition encode_utf16_char :: "rust_char \<Rightarrow> nat list" where
  "encode_utf16_char c =
     (if c < 0x10000 then [c]
      else [0xD800 + (c - 0x10000) div 1024, 0xDC00 + (c - 0x10000) mod 1024])"

definition encode_utf16 :: "rust_str \<Rightarrow> nat list" where
  "encode_utf16 s = concat (map encode_utf16_char s)"

section \<open>Facts the components use\<close>

lemma str_len_simps [simp]:
  "str_len [] = 0" "str_len (c # s) = utf8_len c + str_len s" "str_len (s @ t) = str_len s + str_len t"
  by (simp_all add: str_len_def)

lemma utf8_len_pos [simp]: "0 < utf8_len c" "utf8_len c \<noteq> 0"
  by (simp_all add: utf8_len_def)

lemma utf8_len_ascii: "c < 0x80 \<Longrightarrow> utf8_len c = 1"
  by (simp add: utf8_len_def)

lemma str_len_ascii: "is_ascii s \<Longrightarrow> str_len s = length s"
  by (induction s) (auto simp: is_ascii_def utf8_len_ascii)

lemma is_ascii_simps [simp]:
  "is_ascii []" "is_ascii (c # s) \<longleftrightarrow> c < 0x80 \<and> is_ascii s" "is_ascii (s @ t) \<longleftrightarrow> is_ascii s \<and> is_ascii t"
  by (auto simp: is_ascii_def)

lemma split_at_Cons:
  "utf8_len c \<le> n \<Longrightarrow>
   split_at n (c # s) = map_option (\<lambda>(a, b). (c # a, b)) (split_at (n - utf8_len c) s)"
  by (cases n) auto

lemma split_at_inside: "0 < n \<Longrightarrow> n < utf8_len c \<Longrightarrow> split_at n (c # s) = None"
  by (cases n) auto

lemma split_at_append: "split_at (str_len a) (a @ b) = Some (a, b)"
  by (induction a) (simp_all add: split_at_Cons)

lemma str_slice_append: "str_slice (a @ b @ c) (str_len a) (str_len a + str_len b) = Some b"
  by (simp add: str_slice_def split_at_append)

lemma split_at_SomeD: "split_at n s = Some (a, b) \<Longrightarrow> s = a @ b \<and> str_len a = n"
proof (induction n s arbitrary: a b rule: split_at.induct)
  case (3 n c s)
  from "3.prems" obtain a' where le: "utf8_len c \<le> Suc n" and a: "a = c # a'"
    and rec: "split_at (Suc n - utf8_len c) s = Some (a', b)"
    by (auto split: if_splits)
  from "3.IH" [OF le rec] le a show ?case by simp
qed auto

lemma str_slice_SomeD:
  assumes "str_slice s i j = Some t"
  obtains a b where "s = a @ t @ b" "str_len a = i" "i + str_len t = j"
  using assms
  by (force simp: str_slice_def split: if_splits option.splits prod.splits dest!: split_at_SomeD)

lemma str_len_prefix_unique:
  "a @ b = c @ d \<Longrightarrow> str_len a = str_len c \<Longrightarrow> a = c"
proof (induction a arbitrary: c)
  case Nil
  then show ?case by (cases c) auto
next
  case (Cons x a)
  then show ?case by (cases c) auto
qed

text \<open>On ASCII text a slice within the length never panics and is the plain sublist.\<close>

lemma str_slice_ascii:
  assumes "is_ascii s" and "i \<le> j" and "j \<le> length s"
  shows "str_slice s i j = Some (take (j - i) (drop i s))"
proof -
  let ?a = "take i s" and ?b = "take (j - i) (drop i s)" and ?c = "drop j s"
  have s: "s = ?a @ ?b @ ?c"
    using assms(2) by (metis append_take_drop_id drop_drop le_add_diff_inverse2)
  have "is_ascii ?a" "is_ascii ?b"
    using assms(1) by (auto simp: is_ascii_def dest: in_set_takeD in_set_dropD)
  then have "str_len ?a = i" "str_len ?a + str_len ?b = j"
    using assms(2,3) by (auto simp: str_len_ascii)
  with str_slice_append [of ?a ?b ?c] s show ?thesis by simp
qed

lemma str_split_not_Nil [simp]: "str_split d s \<noteq> []"
  by (cases s) (auto split: list.split)

lemma str_split_free: "d \<notin> set s \<Longrightarrow> str_split d s = [s]"
  by (induction s) auto

lemma str_split_append: "d \<notin> set s \<Longrightarrow> str_split d (s @ d # t) = s # str_split d t"
  by (induction s) auto

lemma dropWhile_hd: "s \<noteq> [] \<Longrightarrow> \<not> P (hd s) \<Longrightarrow> dropWhile P s = s"
  by (cases s) auto

lemma dropWhile_all_append:
  "\<forall>c \<in> set a. P c \<Longrightarrow> s \<noteq> [] \<Longrightarrow> \<not> P (hd s) \<Longrightarrow> dropWhile P (a @ s) = s"
  by (induction a) (auto simp: dropWhile_hd)

lemma str_trim_surround:
  assumes "\<forall>c \<in> set a. is_whitespace c" and "\<forall>c \<in> set b. is_whitespace c"
    and "s \<noteq> []" and "\<not> is_whitespace (hd s)" and "\<not> is_whitespace (last s)"
  shows "str_trim (a @ s @ b) = s"
proof -
  have "dropWhile is_whitespace (a @ s @ b) = s @ b"
    using assms(1,3,4) by (intro dropWhile_all_append) auto
  moreover have "dropWhile is_whitespace (rev b @ rev s) = rev s"
    using assms(2,3,5) by (intro dropWhile_all_append) (auto simp: hd_rev)
  ultimately show ?thesis by (simp add: str_trim_def)
qed

text \<open>Encoding and decoding are inverse on scalar values.\<close>

lemma utf8_digits:
  fixes c q r :: nat
  assumes q: "q = c div 64" and r: "r = q div 64"
  shows "c div 4096 = r" "c div 262144 = r div 64"
    and "c = q * 64 + c mod 64" "q = r * 64 + q mod 64" "r = r div 64 * 64 + r mod 64"
    and "c mod 64 < 64" "q mod 64 < 64" "r mod 64 < 64"
proof -
  show "c div 4096 = r" "c div 262144 = r div 64"
    by (simp_all add: q r flip: div_mult2_eq)
  show "c = q * 64 + c mod 64" "q = r * 64 + q mod 64" by (simp_all add: q r)
qed simp_all

lemma utf8_decode_encode_char:
  assumes "scalar_value c"
  shows "utf8_decode (utf8_encode_char c @ bs) = map_option (Cons c) (utf8_decode bs)"
proof -
  define q where "q = c div 64"
  define r where "r = q div 64"
  note d = utf8_digits [OF q_def r_def]
  consider "c < 0x80" | "0x80 \<le> c" "c < 0x800" | "0x800 \<le> c" "c < 0x10000"
    | "0x10000 \<le> c" "c < 0x110000"
    using assms by (fastforce simp: scalar_value_def)
  then show ?thesis
  proof cases
    case 1
    then show ?thesis by (simp add: utf8_encode_char_def)
  next
    case 2
    with d(3,6) have "2 \<le> q" "q < 32" "c mod 64 \<le> 63" by linarith+
    with 2 d(3) show ?thesis
      by (simp add: utf8_encode_char_def cont_byte_def flip: q_def)
  next
    case 3
    have c: "c = r * 4096 + q mod 64 * 64 + c mod 64" using d(3,4) by linarith
    have "r < 16" "r = 0 \<Longrightarrow> 32 \<le> q mod 64" "q mod 64 \<le> 63" "c mod 64 \<le> 63"
      using 3 d(3,4,6,7) by linarith+
    moreover have "r = 13 \<Longrightarrow> q mod 64 \<le> 31"
      using assms 3 d(3,4,6,7) unfolding scalar_value_def by linarith
    ultimately show ?thesis
      using 3 by (simp add: utf8_encode_char_def cont_byte_def d(1) flip: q_def c)
  next
    case 4
    define t where "t = r div 64"
    have c: "c = t * 262144 + r mod 64 * 4096 + q mod 64 * 64 + c mod 64"
      using d(3,4,5) unfolding t_def by linarith
    have "t < 5" "t = 0 \<Longrightarrow> 16 \<le> r mod 64" "t = 4 \<Longrightarrow> r mod 64 \<le> 15"
      "r mod 64 \<le> 63" "q mod 64 \<le> 63" "c mod 64 \<le> 63"
      using 4 c d(6,7,8) by linarith+
    with 4 show ?thesis
      by (simp add: utf8_encode_char_def cont_byte_def d(1,2) flip: q_def t_def c)
  qed
qed

lemma utf8_decode_encode:
  "\<forall>c \<in> set s. scalar_value c \<Longrightarrow> utf8_decode (utf8_encode s) = Some s"
  by (induction s) (simp_all add: utf8_encode_def utf8_decode_encode_char)

end
