(* ===== verification/Guid.thy ===== *)
theory Guid
  imports Rust_Str
begin

text \<open>
  GUIDs: the Win32 structure of \<open>hdv-sys\<close>, the identifiers the crates fix, and the pair
  \<open>guid_to_string\<close>, \<open>guid_from_string\<close> of \<open>hdv::pci\<close> through which a caller's instance id
  enters the C ABI and leaves again for the HCS document. The lemmas show that printing and parsing
  are inverse up to case, braces and surrounding white space, and which inputs outside that form the
  parser still accepts or panics on.
\<close>

section \<open>The structure and its constants\<close>

record guid =
  Data1 :: u32
  Data2 :: u16
  Data3 :: u16
  Data4 :: "u8 list"

text \<open>\<open>Data4\<close> is the Rust array \<open>[u8; 8]\<close>.\<close>

definition guid_wf :: "guid \<Rightarrow> bool" where
  "guid_wf g \<longleftrightarrow> length (Data4 g) = 8"

definition HVFS_DEVICE_CLASS_ID :: guid where
  "HVFS_DEVICE_CLASS_ID =
     \<lparr>Data1 = 0xa7e11e40, Data2 = 0x0001, Data3 = 0x4a7e,
      Data4 = [0x9c, 0x00, 0xa7, 0xe1, 0x00, 0x00, 0x00, 0x01]\<rparr>"

definition HVFS_DEVICE_INSTANCE_ID :: guid where
  "HVFS_DEVICE_INSTANCE_ID =
     \<lparr>Data1 = 0xa7e11e40, Data2 = 0x0001, Data3 = 0x4a7e,
      Data4 = [0x9c, 0x00, 0xa7, 0xe1, 0x00, 0x00, 0x00, 0x02]\<rparr>"

definition HVFS_DEVICE_HOST_ID :: guid where
  "HVFS_DEVICE_HOST_ID =
     \<lparr>Data1 = 0xa7e11e40, Data2 = 0x0001, Data3 = 0x4a7e,
      Data4 = [0x9c, 0x00, 0xa7, 0xe1, 0x00, 0x00, 0x00, 0x03]\<rparr>"

definition VIRTIO_FS_DEVICE_CLASS_ID :: guid where
  "VIRTIO_FS_DEVICE_CLASS_ID =
     \<lparr>Data1 = 0x872270E1, Data2 = 0xA899, Data3 = 0x4AF6,
      Data4 = [0xB4, 0x54, 0x71, 0x93, 0x63, 0x44, 0x35, 0xAD]\<rparr>"

section \<open>Printing\<close>

definition hex_char :: "nat \<Rightarrow> rust_char" where
  "hex_char d = (if d < 10 then 48 + d else 87 + d)"

fun hex_digits :: "nat \<Rightarrow> rust_str" where
  "hex_digits n = (if n < 16 then [hex_char n] else hex_digits (n div 16) @ [hex_char (n mod 16)])"

declare hex_digits.simps [simp del]

text \<open>\<open>{:0wx}\<close>: lower-case hexadecimal, padded with zeros to at least \<open>w\<close> digits.\<close>

definition fmt_hex :: "nat \<Rightarrow> nat \<Rightarrow> rust_str" where
  "fmt_hex w n = replicate (w - length (hex_digits n)) 48 @ hex_digits n"

definition guid_to_string :: "guid \<Rightarrow> rust_str" where
  "guid_to_string g =
     fmt_hex 8 (unat (Data1 g)) @ lit ''-'' @ fmt_hex 4 (unat (Data2 g)) @ lit ''-'' @
     fmt_hex 4 (unat (Data3 g)) @ lit ''-'' @
     fmt_hex 2 (unat (Data4 g ! 0)) @ fmt_hex 2 (unat (Data4 g ! 1)) @ lit ''-'' @
     fmt_hex 2 (unat (Data4 g ! 2)) @ fmt_hex 2 (unat (Data4 g ! 3)) @
     fmt_hex 2 (unat (Data4 g ! 4)) @ fmt_hex 2 (unat (Data4 g ! 5)) @
     fmt_hex 2 (unat (Data4 g ! 6)) @ fmt_hex 2 (unat (Data4 g ! 7))"

section \<open>Parsing\<close>

text \<open>The loop over \<open>data4\<close>: slice two bytes of the tail, parse them, stop at the first failure.\<close>

fun data4_loop :: "rust_str \<Rightarrow> nat list \<Rightarrow> u8 list option outcome" where
  "data4_loop tail [] = Return (Some [])"
| "data4_loop tail (i # is) =
     (case str_slice tail (i * 2) (i * 2 + 2) of
        None \<Rightarrow> Panic
      | Some t \<Rightarrow>
          (case from_str_radix 16 t of
             None \<Rightarrow> Return None
           | Some b \<Rightarrow>
               (case data4_loop tail is of
                  Return (Some bs) \<Rightarrow> Return (Some (b # bs))
                | r \<Rightarrow> r)))"

definition guid_body :: "rust_str \<Rightarrow> rust_str" where
  "guid_body s =
     (let s = str_trim s
      in case strip_prefix 123 s of
           None \<Rightarrow> s
         | Some x \<Rightarrow> (case strip_suffix 125 x of None \<Rightarrow> s | Some y \<Rightarrow> y))"

definition guid_from_string :: "rust_str \<Rightarrow> guid option outcome" where
  "guid_from_string s =
     (case str_split 45 (guid_body s) of
        [p0, p1, p2, p3, p4] \<Rightarrow>
          if [8, 4, 4, 4, 12] \<noteq> [str_len p0, str_len p1, str_len p2, str_len p3, str_len p4]
          then Return None
          else (case data4_loop (p3 @ p4) [0..<8] of
                  Panic \<Rightarrow> Panic
                | Return None \<Rightarrow> Return None
                | Return (Some data4) \<Rightarrow>
                    (case from_str_radix 16 p0 of
                       None \<Rightarrow> Return None
                     | Some d1 \<Rightarrow>
                         (case from_str_radix 16 p1 of
                            None \<Rightarrow> Return None
                          | Some d2 \<Rightarrow>
                              (case from_str_radix 16 p2 of
                                 None \<Rightarrow> Return None
                               | Some d3 \<Rightarrow>
                                   Return (Some \<lparr>Data1 = d1, Data2 = d2, Data3 = d3,
                                                 Data4 = data4\<rparr>)))))
      | _ \<Rightarrow> Return None)"

definition ascii_lower :: "rust_char \<Rightarrow> rust_char" where
  "ascii_lower c = (if 65 \<le> c \<and> c \<le> 90 then c + 32 else c)"

section \<open>Hexadecimal digits, printed and parsed\<close>

text \<open>\<open>hex_pad w n\<close> is the fixed-width form, by recursion on the width.\<close>

fun hex_pad :: "nat \<Rightarrow> nat \<Rightarrow> rust_str" where
  "hex_pad 0 n = []"
| "hex_pad (Suc w) n = hex_pad w (n div 16) @ [hex_char (n mod 16)]"

lemma hex_pad_zero: "hex_pad w 0 = replicate w 48"
  by (induction w) (simp_all add: hex_char_def replicate_append_same)

lemma length_hex_pad [simp]: "length (hex_pad w n) = w"
  by (induction w arbitrary: n) auto

lemma hex_pad_not_Nil: "0 < w \<Longrightarrow> hex_pad w n \<noteq> []"
  by (metis length_hex_pad less_irrefl list.size(3))

lemma fmt_hex_pad: "0 < w \<Longrightarrow> n < 16 ^ w \<Longrightarrow> fmt_hex w n = hex_pad w n"
proof (induction w arbitrary: n)
  case (Suc w)
  show ?case
  proof (cases "n < 16")
    case True
    then show ?thesis by (simp add: fmt_hex_def hex_digits.simps [of n] hex_pad_zero)
  next
    case False
    with Suc.prems have w: "0 < w" and n: "n div 16 < 16 ^ w"
      by (cases w; simp add: less_mult_imp_div_less mult.commute)+
    from Suc.IH [OF w n] False show ?thesis
      by (simp add: fmt_hex_def hex_digits.simps [of n])
  qed
qed simp

lemma to_digit_hex_char: "d < 16 \<Longrightarrow> to_digit 16 (hex_char d) = Some d"
  by (auto simp: to_digit_def hex_char_def)

lemma to_digit_lower: "to_digit 16 (ascii_lower c) = to_digit 16 c"
  by (auto simp: to_digit_def ascii_lower_def Let_def)

lemma radix_digits_append:
  "radix_digits b r acc (s @ t) =
     (case radix_digits b r acc s of None \<Rightarrow> None | Some a \<Rightarrow> radix_digits b r a t)"
  by (induction s arbitrary: acc) (auto split: option.split)

lemma radix_digits_lower: "radix_digits b 16 acc (map ascii_lower s) = radix_digits b 16 acc s"
  by (induction s arbitrary: acc) (auto simp: to_digit_lower split: option.split)

lemma radix_digits_hex_pad:
  "n < 16 ^ w \<Longrightarrow> acc * 16 ^ w + n < b \<Longrightarrow>
   radix_digits b 16 acc (hex_pad w n) = Some (acc * 16 ^ w + n)"
proof (induction w arbitrary: n)
  case (Suc w)
  have n: "n div 16 < 16 ^ w"
    using Suc.prems(1) by (simp add: less_mult_imp_div_less mult.commute)
  have e: "(acc * 16 ^ w + n div 16) * 16 + n mod 16 = acc * 16 ^ Suc w + n"
    by (simp add: algebra_simps)
  have lt: "(acc * 16 ^ w + n div 16) * 16 < b"
    using e Suc.prems(2) by linarith
  then have "acc * 16 ^ w + n div 16 < b" by (rule le_less_trans [rotated]) simp
  with Suc.IH [OF n] e lt Suc.prems(2) show ?case
    by (simp add: radix_digits_append to_digit_hex_char)
qed simp

definition is_hex :: "rust_char \<Rightarrow> bool" where
  "is_hex c \<longleftrightarrow> 48 \<le> c \<and> c \<le> 57 \<or> 65 \<le> c \<and> c \<le> 70 \<or> 97 \<le> c \<and> c \<le> 102"

lemma is_hex_chars:
  assumes "is_hex c"
  shows "c < 0x80" "c \<noteq> 43" "c \<noteq> 45" "c \<noteq> 123" "c \<noteq> 125" "\<not> is_whitespace c"
  using assms unfolding is_hex_def is_whitespace_def by linarith+

lemma hex_char_is_hex: "d < 16 \<Longrightarrow> is_hex (hex_char d)"
  unfolding is_hex_def hex_char_def by auto

lemma hex_pad_is_hex: "c \<in> set (hex_pad w n) \<Longrightarrow> is_hex c"
  by (induction w arbitrary: n) (auto simp: hex_char_is_hex)

lemma is_hex_lower: "is_hex (ascii_lower c) \<Longrightarrow> is_hex c"
  unfolding is_hex_def ascii_lower_def by (auto split: if_splits)

lemma ascii_lower_dash: "ascii_lower x = 45 \<longleftrightarrow> x = 45"
  by (auto simp: ascii_lower_def)

lemma lower_is_hex: "map ascii_lower s = hex_pad w n \<Longrightarrow> c \<in> set s \<Longrightarrow> is_hex c"
  by (metis hex_pad_is_hex image_eqI is_hex_lower list.set_map)

lemma from_str_radix_lower:
  assumes s: "map ascii_lower s = hex_pad w n"
    and w: "0 < w" "n < 16 ^ w" "16 ^ w \<le> (2::nat) ^ LENGTH('a)"
  shows "from_str_radix 16 s = Some (of_nat n :: 'a::len word)"
proof -
  have "s \<noteq> []" using s w(1) by (metis length_0_conv length_hex_pad length_map less_irrefl)
  then obtain c t where ct: "s = c # t" by (cases s) auto
  have "c \<noteq> 43" "c \<noteq> 45" using is_hex_chars(2,3) lower_is_hex [OF s, of c] ct by auto
  moreover have "radix_digits (2 ^ LENGTH('a)) 16 0 s = Some n"
    using radix_digits_hex_pad [of n w 0 "2 ^ LENGTH('a)"] w
    radix_digits_lower [of "2 ^ LENGTH('a)" 0 s]
    by (simp add: s)
  ultimately show ?thesis by (simp add: from_str_radix_def ct)
qed

section \<open>Printing and parsing are inverse\<close>

lemma concat_chunk:
  "i < length D \<Longrightarrow> \<forall>x. length (f x) = 2 \<Longrightarrow> take 2 (drop (i * 2) (concat (map f D))) = f (D ! i)"
proof (induction D arbitrary: i)
  case (Cons x D)
  then show ?case by (cases i) auto
qed simp

lemma data4_loop_lower:
  assumes t: "map ascii_lower t = concat (map (\<lambda>b. hex_pad 2 (unat b)) D)"
    and a: "is_ascii t" and i: "\<forall>i \<in> set is. i < length D"
  shows "data4_loop t is = Return (Some (map (\<lambda>i. D ! i) is))"
  using i
proof (induction "is")
  case (Cons i "is")
  have "length t = length (concat (map (\<lambda>b. hex_pad 2 (unat b)) D))" by (simp flip: t)
  then have len: "length t = 2 * length D"
    by (induction D arbitrary: t) (simp_all add: length_concat comp_def sum_list_triv)
  let ?u = "take 2 (drop (i * 2) t)"
  have "map ascii_lower ?u = hex_pad 2 (unat (D ! i))"
    using Cons.prems by (simp add: t concat_chunk flip: take_map drop_map)
  moreover have "unat (D ! i) < 16 ^ 2"
    using unat_bound [of "D ! i"] by simp
  ultimately have "from_str_radix 16 ?u = Some (D ! i)"
    using from_str_radix_lower [of ?u 2 "unat (D ! i)", where 'a = 8] by simp
  moreover have "str_slice t (i * 2) (i * 2 + 2) = Some ?u"
    using str_slice_ascii [OF a, of "i * 2" "i * 2 + 2"] Cons.prems len by simp
  ultimately show ?case using Cons by simp
qed simp

lemma guid_to_string_groups:
  assumes "guid_wf g"
  shows "guid_to_string g =
    hex_pad 8 (unat (Data1 g)) @ 45 # hex_pad 4 (unat (Data2 g)) @ 45 # hex_pad 4 (unat (Data3 g)) @
    45 # concat (map (\<lambda>b. hex_pad 2 (unat b)) (take 2 (Data4 g))) @
    45 # concat (map (\<lambda>b. hex_pad 2 (unat b)) (drop 2 (Data4 g)))"
proof -
  obtain a b c d e f h k where D: "Data4 g = [a, b, c, d, e, f, h, k]"
    using assms unfolding guid_wf_def
    by (auto simp: numeral_eq_Suc length_Suc_conv)
  have "unat x < 16 ^ 2" for x :: u8 using unat_bound [of x] by simp
  moreover have "unat x < 16 ^ 4" for x :: u16 using unat_bound [of x] by simp
  moreover have "unat x < 16 ^ 8" for x :: u32 using unat_bound [of x] by simp
  ultimately show ?thesis
    by (simp add: guid_to_string_def D lit_def fmt_hex_pad)
qed

lemma map_lower_split:
  assumes "map ascii_lower s = a @ 45 # b"
  obtains u v where "s = u @ 45 # v" "map ascii_lower u = a" "map ascii_lower v = b"
proof -
  from assms obtain u w where uw: "s = u @ w" "map ascii_lower u = a" "map ascii_lower w = 45 # b"
    by (metis map_eq_append_conv)
  then obtain c v where "w = c # v" "ascii_lower c = 45" "map ascii_lower v = b"
    by (metis map_eq_Cons_conv)
  with uw that show thesis by (metis ascii_lower_dash)
qed

lemma map_lower_concat:
  "map ascii_lower s = concat (map (\<lambda>b. hex_pad 2 (unat b)) D) \<Longrightarrow> c \<in> set s \<Longrightarrow> is_hex c"
proof -
  assume s: "map ascii_lower s = concat (map (\<lambda>b. hex_pad 2 (unat b)) D)" and c: "c \<in> set s"
  then have "ascii_lower c \<in> set (concat (map (\<lambda>b. hex_pad 2 (unat b)) D))"
    by (metis image_eqI list.set_map)
  then show "is_hex c" by (auto dest: hex_pad_is_hex intro: is_hex_lower)
qed

lemma hex_group_facts:
  assumes "\<And>c. c \<in> set s \<Longrightarrow> is_hex c"
  shows "45 \<notin> set s" "is_ascii s" "str_len s = length s"
proof -
  show "45 \<notin> set s" using assms is_hex_chars(3) by blast
  show a: "is_ascii s" using assms is_hex_chars(1) by (auto simp: is_ascii_def)
  show "str_len s = length s" by (rule str_len_ascii [OF a])
qed

lemma length_concat_hex:
  "map ascii_lower s = concat (map (\<lambda>b. hex_pad 2 (unat b)) D) \<Longrightarrow> length s = 2 * length D"
  by (drule arg_cong [of _ _ length]) (simp add: length_concat comp_def sum_list_triv)

lemma guid_from_body:
  assumes wf: "guid_wf g" and body: "map ascii_lower (guid_body x) = guid_to_string g"
  shows "guid_from_string x = Return (Some g)"
proof -
  let ?h = "\<lambda>b::u8. hex_pad 2 (unat b)"
  obtain p0 r0 where 0: "guid_body x = p0 @ 45 # r0" "map ascii_lower p0 = hex_pad 8 (unat (Data1 g))"
    "map ascii_lower r0 = hex_pad 4 (unat (Data2 g)) @ 45 # hex_pad 4 (unat (Data3 g)) @
       45 # concat (map ?h (take 2 (Data4 g))) @ 45 # concat (map ?h (drop 2 (Data4 g)))"
    using body guid_to_string_groups [OF wf] by (elim map_lower_split [rotated]) auto
  from map_lower_split [OF 0(3)] obtain p1 r1 where 1: "r0 = p1 @ 45 # r1"
    "map ascii_lower p1 = hex_pad 4 (unat (Data2 g))"
    "map ascii_lower r1 = hex_pad 4 (unat (Data3 g)) @
       45 # concat (map ?h (take 2 (Data4 g))) @ 45 # concat (map ?h (drop 2 (Data4 g)))"
    by blast
  from map_lower_split [OF 1(3)] obtain p2 r2 where 2: "r1 = p2 @ 45 # r2"
    "map ascii_lower p2 = hex_pad 4 (unat (Data3 g))"
    "map ascii_lower r2 = concat (map ?h (take 2 (Data4 g))) @ 45 # concat (map ?h (drop 2 (Data4 g)))"
    by blast
  from map_lower_split [OF 2(3)] obtain p3 p4 where 3: "r2 = p3 @ 45 # p4"
    "map ascii_lower p3 = concat (map ?h (take 2 (Data4 g)))"
    "map ascii_lower p4 = concat (map ?h (drop 2 (Data4 g)))"
    by blast
  note f0 = hex_group_facts [OF lower_is_hex [OF 0(2)]]
    and f1 = hex_group_facts [OF lower_is_hex [OF 1(2)]]
    and f2 = hex_group_facts [OF lower_is_hex [OF 2(2)]]
    and f3 = hex_group_facts [OF map_lower_concat [OF 3(2)]]
    and f4 = hex_group_facts [OF map_lower_concat [OF 3(3)]]
  have split: "str_split 45 (guid_body x) = [p0, p1, p2, p3, p4]"
    by (simp add: 0(1) 1(1) 2(1) 3(1) str_split_append str_split_free f0(1) f1(1) f2(1) f3(1) f4(1))
  have len: "length p0 = 8" "length p1 = 4" "length p2 = 4"
    using 0(2) 1(2) 2(2) by (metis length_hex_pad length_map)+
  have len4: "length p3 = 4" "length p4 = 12"
    using length_concat_hex [OF 3(2)] length_concat_hex [OF 3(3)] wf by (simp_all add: guid_wf_def)
  have "map ascii_lower (p3 @ p4) = concat (map ?h (Data4 g))"
    by (metis 3(2,3) append_take_drop_id concat_append map_append)
  with f3(2) f4(2) wf have data4: "data4_loop (p3 @ p4) [0..<8] = Return (Some (Data4 g))"
    by (subst data4_loop_lower [where D = "Data4 g"])
       (auto simp: guid_wf_def map_nth intro: nth_equalityI)
  have b: "unat (Data1 g) < 16 ^ 8" "unat (Data2 g) < 16 ^ 4" "unat (Data3 g) < 16 ^ 4"
    using unat_bound [of "Data1 g"] unat_bound [of "Data2 g"] unat_bound [of "Data3 g"] by simp_all
  have "from_str_radix 16 p0 = Some (Data1 g)" "from_str_radix 16 p1 = Some (Data2 g)"
    "from_str_radix 16 p2 = Some (Data3 g)"
    using from_str_radix_lower [OF 0(2), where 'a = 32] from_str_radix_lower [OF 1(2), where 'a = 16]
      from_str_radix_lower [OF 2(2), where 'a = 16] b by simp_all
  then show ?thesis
    by (simp add: guid_from_string_def split len len4 f0(3) f1(3) f2(3) f3(3) f4(3) data4)
qed

section \<open>What the parser accepts\<close>

lemma guid_string_ends:
  assumes wf: "guid_wf g" and s: "map ascii_lower s = guid_to_string g"
  shows "s \<noteq> []" "is_hex (hd s)" "is_hex (last s)"
proof -
  have ne: "guid_to_string g \<noteq> []"
    unfolding guid_to_string_groups [OF wf] by simp
  with s show ne': "s \<noteq> []" by auto
  have "hd (guid_to_string g) \<in> set (hex_pad 8 (unat (Data1 g)))"
    unfolding guid_to_string_groups [OF wf] by (simp add: hd_append hex_pad_not_Nil)
  moreover have "hd (guid_to_string g) = ascii_lower (hd s)"
    using ne' s by (metis list.map_sel(1))
  ultimately show "is_hex (hd s)" by (metis hex_pad_is_hex is_hex_lower)
  obtain D b where D: "drop 2 (Data4 g) = D @ [b]"
    using wf by (cases "drop 2 (Data4 g)" rule: rev_cases) (auto simp: guid_wf_def)
  then have "last (guid_to_string g) \<in> set (hex_pad 2 (unat b))"
    unfolding guid_to_string_groups [OF wf] by (simp add: last_append hex_pad_not_Nil)
  moreover have "last (guid_to_string g) = ascii_lower (last s)"
    using ne' s by (metis last_map)
  ultimately show "is_hex (last s)" by (metis hex_pad_is_hex is_hex_lower)
qed

lemma guid_body_plain:
  assumes "s \<noteq> []" "is_hex (hd s)" "is_hex (last s)"
    and "\<forall>c \<in> set a. is_whitespace c" "\<forall>c \<in> set b. is_whitespace c"
  shows "guid_body (a @ s @ b) = s"
proof -
  have "str_trim (a @ s @ b) = s"
    using assms is_hex_chars(6) by (intro str_trim_surround) auto
  moreover have "strip_prefix 123 s = None"
    using assms(1,2) is_hex_chars(4) by (cases s) (auto simp: strip_prefix_def)
  ultimately show ?thesis by (simp add: guid_body_def)
qed

lemma guid_body_braces:
  assumes "\<forall>c \<in> set a. is_whitespace c" "\<forall>c \<in> set b. is_whitespace c"
  shows "guid_body (a @ ([123] @ s @ [125]) @ b) = s"
proof -
  have "str_trim (a @ ([123] @ s @ [125]) @ b) = [123] @ s @ [125]"
    using assms by (intro str_trim_surround) (auto simp: is_whitespace_def)
  then show ?thesis
    by (simp add: guid_body_def strip_prefix_def strip_suffix_def)
qed

text \<open>In the other direction: what a successful parse says about its input.\<close>

lemma to_digit_SomeD: "to_digit 16 c = Some d \<Longrightarrow> d < 16 \<and> is_hex c \<and> ascii_lower c = hex_char d"
  by (auto simp: to_digit_def is_hex_def ascii_lower_def hex_char_def split: if_splits)

lemma radix_digits_SomeD:
  "radix_digits b 16 acc s = Some v \<Longrightarrow> \<exists>r. v = acc * 16 ^ length s + r \<and> r < 16 ^ length s \<and>
     map ascii_lower s = hex_pad (length s) r \<and> (acc < b \<longrightarrow> v < b)"
proof (induction s arbitrary: v rule: rev_induct)
  case (snoc c s)
  from snoc.prems obtain v' d where s: "radix_digits b 16 acc s = Some v'" and d: "to_digit 16 c = Some d"
    and v: "v = v' * 16 + d" "v < b"
    by (auto simp: radix_digits_append split: option.splits if_splits)
  from snoc.IH [OF s] obtain r where r: "v' = acc * 16 ^ length s + r" "r < 16 ^ length s"
    "map ascii_lower s = hex_pad (length s) r" by blast
  have d16: "d < 16" and c: "ascii_lower c = hex_char d"
    using to_digit_SomeD [OF d] by auto
  have "r * 16 + d < 16 ^ Suc (length s)" using r(2) d16 by simp
  with r v d16 c show ?case by (intro exI [of _ "r * 16 + d"]) (simp add: algebra_simps)
qed simp

lemma from_str_radix_SomeD:
  fixes w :: "'a::len word"
  assumes "from_str_radix 16 s = Some w" and "43 \<notin> set s"
  shows "map ascii_lower s = hex_pad (length s) (unat w)" "\<And>c. c \<in> set s \<Longrightarrow> is_hex c"
proof -
  from assms obtain v where v: "radix_digits (2 ^ LENGTH('a)) 16 0 s = Some v" and w: "w = of_nat v"
    by (cases s) (auto simp: from_str_radix_def split: if_splits)
  from radix_digits_SomeD [OF v] have "v < 2 ^ LENGTH('a)" "map ascii_lower s = hex_pad (length s) v"
    by auto
  then show *: "map ascii_lower s = hex_pad (length s) (unat w)"
    by (simp add: w unat_of_nat_small)
  show "is_hex c" if "c \<in> set s" for c
    by (rule lower_is_hex [OF * that])
qed

lemma data4_loop_SomeD:
  assumes "data4_loop t [k..<n] = Return (Some bs)" and "t = u @ r" and "str_len u = k * 2"
    and "43 \<notin> set t" and "k \<le> n"
  shows "\<exists>m rest. r = m @ rest \<and> str_len m = (n - k) * 2 \<and> length bs = n - k \<and>
           map ascii_lower m = concat (map (\<lambda>b. hex_pad 2 (unat b)) bs)"
  using assms
proof (induction "n - k" arbitrary: k bs u r)
  case 0
  then show ?case by (intro exI [of _ "[]"] exI [of _ r]) simp
next
  case (Suc j)
  from Suc.hyps(2) have up: "[k..<n] = k # [Suc k..<n]" by (simp add: upt_conv_Cons)
  from Suc.prems(1) obtain c b bs' where sl: "str_slice t (k * 2) (k * 2 + 2) = Some c"
    and b: "from_str_radix 16 c = Some b" and rec: "data4_loop t [Suc k..<n] = Return (Some bs')"
    and bs: "bs = b # bs'"
    by (auto simp: up split: option.splits outcome.splits)
  from str_slice_SomeD [OF sl] obtain a e where t: "t = a @ c @ e" "str_len a = k * 2" "str_len c = 2"
    by auto
  have au: "a = u" using str_len_prefix_unique [of u r a "c @ e"] t Suc.prems(2,3) by simp
  then have r: "r = c @ e" using t(1) Suc.prems(2) by simp
  have pc: "43 \<notin> set c" using t(1) Suc.prems(4) by simp
  note c = from_str_radix_SomeD [OF b pc]
  have "length c = 2" using hex_group_facts(3) [OF c(2)] t(3) by simp
  with c(1) have lc: "map ascii_lower c = hex_pad 2 (unat b)" by simp
  have "j = n - Suc k" "Suc k \<le> n" using Suc.hyps(2) by simp_all
  from Suc.hyps(1) [OF this(1) rec, of "u @ c" e] obtain m rest where
    "e = m @ rest" "str_len m = (n - Suc k) * 2" "length bs' = n - Suc k"
    "map ascii_lower m = concat (map (\<lambda>b. hex_pad 2 (unat b)) bs')"
    using t r Suc.prems(2,3,4) \<open>Suc k \<le> n\<close> by auto
  then show ?case
    using lc t(3) r bs Suc.hyps(2) by (intro exI [of _ "c @ m"] exI [of _ rest]) auto
qed

lemma data4_loop_length: "data4_loop t is = Return (Some bs) \<Longrightarrow> length bs = length is"
  by (induction "is" arbitrary: bs) (auto split: option.splits outcome.splits)

lemma str_split_two: "str_split d s = p # q # ps \<Longrightarrow> \<exists>t. s = p @ d # t \<and> str_split d t = q # ps"
proof (induction s arbitrary: p)
  case (Cons c s)
  show ?case
  proof (cases "c = d")
    case False
    with Cons.prems obtain p' where "str_split d s = p' # q # ps" "p = c # p'"
      by (auto split: list.splits)
    with Cons.IH show ?thesis by fastforce
  qed (use Cons.prems in auto)
qed simp

lemma str_split_one: "str_split d s = [p] \<Longrightarrow> s = p"
  by (induction s arbitrary: p) (auto split: if_splits list.splits)

lemma str_split_five:
  assumes "str_split d s = [p0, p1, p2, p3, p4]"
  shows "s = p0 @ d # p1 @ d # p2 @ d # p3 @ d # p4"
  using str_split_two [OF assms] by (fastforce dest: str_split_two str_split_one)

lemma guid_from_string_SomeD:
  assumes "guid_from_string x = Return (Some g)"
  obtains p0 p1 p2 p3 p4 where
    "guid_body x = p0 @ 45 # p1 @ 45 # p2 @ 45 # p3 @ 45 # p4"
    "str_len p0 = 8" "str_len p1 = 4" "str_len p2 = 4" "str_len p3 = 4" "str_len p4 = 12"
    "data4_loop (p3 @ p4) [0..<8] = Return (Some (Data4 g))"
    "from_str_radix 16 p0 = Some (Data1 g)" "from_str_radix 16 p1 = Some (Data2 g)"
    "from_str_radix 16 p2 = Some (Data3 g)"
  using assms
  by (auto simp: guid_from_string_def dest!: str_split_five
      split: list.splits if_splits option.splits outcome.splits)

lemma set_guid_body: "set (guid_body x) \<subseteq> set x"
proof -
  have "set (str_trim x) \<subseteq> set x"
    by (auto simp: str_trim_def dest!: set_dropWhileD)
  moreover have "set (butlast y) \<subseteq> set y" for y :: rust_str
    by (auto dest: in_set_butlastD)
  ultimately show ?thesis
    by (fastforce simp: guid_body_def strip_prefix_def strip_suffix_def Let_def
        split: option.splits list.splits if_splits)
qed

text \<open>
  C36. A GUID printed by \<open>guid_to_string\<close>, in any mix of upper and lower case, with or without
  surrounding braces and with any white space around it, is parsed back to the same GUID.
\<close>

theorem guid_roundtrip:
  assumes "guid_wf g" and "map ascii_lower s = guid_to_string g"
    and "\<forall>c \<in> set a. is_whitespace c" and "\<forall>c \<in> set b. is_whitespace c"
  shows "guid_from_string (a @ s @ b) = Return (Some g) \<and>
         guid_from_string (a @ ([123] @ s @ [125]) @ b) = Return (Some g)"
  using assms guid_body_plain [OF guid_string_ends [OF assms(1,2)] assms(3,4)]
    guid_body_braces [OF assms(3,4), of s]
  by (auto intro: guid_from_body)

theorem guid_roundtrip_witness:
  "guid_from_string (lit '' '' @ lit ''872270E1-A899-4AF6-B454-7193634435AD'' @ []) =
     Return (Some VIRTIO_FS_DEVICE_CLASS_ID)"
proof -
  have "guid_wf VIRTIO_FS_DEVICE_CLASS_ID" by (simp add: guid_wf_def VIRTIO_FS_DEVICE_CLASS_ID_def)
  moreover have "map ascii_lower (lit ''872270E1-A899-4AF6-B454-7193634435AD'') =
      guid_to_string VIRTIO_FS_DEVICE_CLASS_ID"
    by (simp add: guid_to_string_def VIRTIO_FS_DEVICE_CLASS_ID_def fmt_hex_def hex_digits.simps
        hex_char_def lit_def ascii_lower_def)
  moreover have "\<forall>c \<in> set (lit '' ''). is_whitespace c"
    by (simp add: lit_def is_whitespace_def)
  ultimately show ?thesis
    using guid_roundtrip [of VIRTIO_FS_DEVICE_CLASS_ID _ "lit '' ''" "[]"] by simp
qed

lemma data4_loop_no_panic:
  "is_ascii t \<Longrightarrow> \<forall>i \<in> set is. i * 2 + 2 \<le> length t \<Longrightarrow> data4_loop t is \<noteq> Panic"
  by (induction "is") (auto simp: str_slice_ascii split: option.splits outcome.splits)

lemma is_ascii_subset: "is_ascii s \<Longrightarrow> set t \<subseteq> set s \<Longrightarrow> is_ascii t"
  by (auto simp: is_ascii_def)

lemma guid_from_string_ascii_no_panic: "is_ascii x \<Longrightarrow> guid_from_string x \<noteq> Panic"
proof
  assume a: "is_ascii x" and p: "guid_from_string x = Panic"
  then obtain p0 p1 p2 p3 p4 where b: "guid_body x = p0 @ 45 # p1 @ 45 # p2 @ 45 # p3 @ 45 # p4"
    and l: "str_len p3 = 4" "str_len p4 = 12" and pan: "data4_loop (p3 @ p4) [0..<8] = Panic"
    by (auto simp: guid_from_string_def dest!: str_split_five
        split: list.splits if_splits option.splits outcome.splits)
  have a': "is_ascii (p3 @ p4)"
    using is_ascii_subset [OF a set_guid_body] b by simp
  then have "length (p3 @ p4) = 16" using l str_len_ascii [OF a'] by simp
  then have "data4_loop (p3 @ p4) [0..<8] \<noteq> Panic"
    using a' by (intro data4_loop_no_panic) auto
  with pan show False by simp
qed

text \<open>
  C37. Whatever \<open>guid_from_string\<close> accepts is a well-formed GUID, and unless the input has a
  plus sign, the accepted text is, up to case, exactly what \<open>guid_to_string\<close> prints for it: so the
  slot key sent to HCS and the stored instance id agree with what the caller wrote. On ASCII input
  the parser never panics.
\<close>

theorem guid_from_string_sound:
  "(guid_from_string x = Return (Some g) \<longrightarrow>
      guid_wf g \<and> (43 \<notin> set x \<longrightarrow> map ascii_lower (guid_body x) = guid_to_string g)) \<and>
   (is_ascii x \<longrightarrow> guid_from_string x \<noteq> Panic)"
proof (intro conjI impI)
  assume r: "guid_from_string x = Return (Some g)"
  then obtain p0 p1 p2 p3 p4 where
    b: "guid_body x = p0 @ 45 # p1 @ 45 # p2 @ 45 # p3 @ 45 # p4"
    and l: "str_len p0 = 8" "str_len p1 = 4" "str_len p2 = 4" "str_len p3 = 4" "str_len p4 = 12"
    and d4: "data4_loop (p3 @ p4) [0..<8] = Return (Some (Data4 g))"
    and d: "from_str_radix 16 p0 = Some (Data1 g)" "from_str_radix 16 p1 = Some (Data2 g)"
    "from_str_radix 16 p2 = Some (Data3 g)"
    by (rule guid_from_string_SomeD)
  show wf: "guid_wf g" using data4_loop_length [OF d4] by (simp add: guid_wf_def)
  assume "43 \<notin> set x"
  with set_guid_body [of x] b have p: "43 \<notin> set p0" "43 \<notin> set p1" "43 \<notin> set p2"
    "43 \<notin> set (p3 @ p4)" by auto
  have len: "length p0 = 8" "length p1 = 4" "length p2 = 4"
    using l hex_group_facts(3) [OF from_str_radix_SomeD(2) [OF d(1) p(1)]]
      hex_group_facts(3) [OF from_str_radix_SomeD(2) [OF d(2) p(2)]]
      hex_group_facts(3) [OF from_str_radix_SomeD(2) [OF d(3) p(3)]] by simp_all
  obtain m rest where m: "p3 @ p4 = m @ rest" "str_len m = 16"
    "map ascii_lower m = concat (map (\<lambda>b. hex_pad 2 (unat b)) (Data4 g))"
    using data4_loop_SomeD [OF d4, of "[]" "p3 @ p4"] p(4) by auto
  have "str_len (p3 @ p4) = str_len m" unfolding m(2) using l by simp
  with m(1) have "p3 @ p4 = m" by (metis append_Nil2 str_len_prefix_unique)
  with m(3) have t: "map ascii_lower (p3 @ p4) = concat (map (\<lambda>b. hex_pad 2 (unat b)) (Data4 g))"
    by simp
  have "\<And>c. c \<in> set p3 \<Longrightarrow> is_hex c" using map_lower_concat [OF t] by auto
  then have "length p3 = 4" using hex_group_facts(3) [of p3] l(4) by simp
  then have "map ascii_lower p3 = take 4 (concat (map (\<lambda>b. hex_pad 2 (unat b)) (Data4 g)))"
    "map ascii_lower p4 = drop 4 (concat (map (\<lambda>b. hex_pad 2 (unat b)) (Data4 g)))"
    by (simp_all flip: t)
  moreover obtain a b c d e f h k where "Data4 g = [a, b, c, d, e, f, h, k]"
    using wf unfolding guid_wf_def by (auto simp: numeral_eq_Suc length_Suc_conv)
  ultimately show "map ascii_lower (guid_body x) = guid_to_string g"
    using from_str_radix_SomeD(1) [OF d(1) p(1)] from_str_radix_SomeD(1) [OF d(2) p(2)]
      from_str_radix_SomeD(1) [OF d(3) p(3)]
    by (simp add: b guid_to_string_groups [OF wf] len ascii_lower_dash)
next
  assume "is_ascii x"
  then show "guid_from_string x \<noteq> Panic" by (rule guid_from_string_ascii_no_panic)
qed

theorem guid_from_string_sound_witness:
  "guid_wf VIRTIO_FS_DEVICE_CLASS_ID \<and>
   map ascii_lower (guid_body (lit ''{872270E1-A899-4AF6-B454-7193634435AD}'')) =
     guid_to_string VIRTIO_FS_DEVICE_CLASS_ID"
proof -
  let ?x = "lit ''{872270E1-A899-4AF6-B454-7193634435AD}''"
  have "guid_from_string ?x = Return (Some VIRTIO_FS_DEVICE_CLASS_ID)"
    by (rule guid_from_body)
       (simp_all add: guid_wf_def guid_to_string_def VIRTIO_FS_DEVICE_CLASS_ID_def fmt_hex_def
         hex_digits.simps hex_char_def lit_def ascii_lower_def guid_body_def str_trim_def
         is_whitespace_def strip_prefix_def strip_suffix_def)
  moreover have "43 \<notin> set ?x" by (simp add: lit_def)
  ultimately show ?thesis using guid_from_string_sound [of ?x VIRTIO_FS_DEVICE_CLASS_ID] by blast
qed

text \<open>
  Two malformed inputs that are not answered with \<open>None\<close>. A plus sign inside a group is
  accepted, because each group goes through an unsigned \<open>from_str_radix\<close>; and a group with a
  non-ASCII character of the right byte length makes the slice of the tail panic.
\<close>

lemma guid_from_string_malformed:
  "guid_from_string (lit ''+0000001-+002-+003-+4+5-+6+7+8+9+a+b'') =
     Return (Some \<lparr>Data1 = 1, Data2 = 2, Data3 = 3, Data4 = [4, 5, 6, 7, 8, 9, 10, 11]\<rparr>) \<and>
   guid_from_string (lit ''872270e1-a899-4af6-a'' @ [0xE9] @ lit ''1-7193634435ad'') = Panic"
  by (simp add: guid_from_string_def guid_body_def str_trim_def lit_def is_whitespace_def
      strip_prefix_def utf8_len_def upt_rec str_slice_def split_at_Cons split_at_inside
      from_str_radix_def to_digit_def)

end
