(* ===== verification/Hdv_Sys.thy ===== *)
theory Hdv_Sys
  imports Guid
begin

text \<open>
  The raw bindings: the scalar types, status codes, enumerations and structures of \<open>hdv-sys\<close>, and
  its block of imported functions. Those functions live in \<open>vmdevicehost.dll\<close>, which is not part
  of the repository, so the block is a record of functions, the parameter \<open>api\<close> of everything above
  it: a call takes the state of the platform and returns its result, the values written through
  its out pointers, and the next state. The off-Windows stubs, which are part of the repository, are
  one such record. A pointer or handle is 64 bits and null is 0.
\<close>

type_synonym HRESULT = i32
type_synonym ptr = u64
type_synonym HCS_SYSTEM = ptr
type_synonym HDV_HOST = ptr
type_synonym HDV_DEVICE = ptr
type_synonym HANDLE = ptr
type_synonym PVOID = ptr

definition S_OK :: HRESULT where
  "S_OK = 0"

definition E_POINTER :: HRESULT where
  "E_POINTER = 0x80004003"

definition E_FAIL :: HRESULT where
  "E_FAIL = 0x80004005"

definition E_NOINTERFACE :: HRESULT where
  "E_NOINTERFACE = 0x80004002"

text \<open>An \<open>HRESULT\<close> is a failure when it is negative as an \<open>i32\<close>.\<close>

definition failed :: "HRESULT \<Rightarrow> bool" where
  "failed code \<longleftrightarrow> sint code < 0"

datatype HDV_DEVICE_TYPE = DeviceUndefined | DevicePci

datatype HDV_DEVICE_HOST_FLAGS = HostFlagsNone | InitializeComSecurity

datatype HDV_PCI_BAR_SELECTOR = Bar0 | Bar1 | Bar2 | Bar3 | Bar4 | Bar5

text \<open>The \<open>repr(i32)\<close> discriminants; \<open>bar as u8\<close> and \<open>bar as FIOV_BAR_SELECTOR\<close> read them.\<close>

fun bar_discriminant :: "HDV_PCI_BAR_SELECTOR \<Rightarrow> nat" where
  "bar_discriminant Bar0 = 0"
| "bar_discriminant Bar1 = 1"
| "bar_discriminant Bar2 = 2"
| "bar_discriminant Bar3 = 3"
| "bar_discriminant Bar4 = 4"
| "bar_discriminant Bar5 = 5"

definition HDV_PCI_BAR_COUNT :: nat where
  "HDV_PCI_BAR_COUNT = 6"

definition HDV_DOORBELL_FLAG_TRIGGER_SIZE_ANY :: u64 where
  "HDV_DOORBELL_FLAG_TRIGGER_SIZE_ANY = 0"

definition HDV_DOORBELL_FLAG_TRIGGER_SIZE_BYTE :: u64 where
  "HDV_DOORBELL_FLAG_TRIGGER_SIZE_BYTE = 1"

definition HDV_DOORBELL_FLAG_TRIGGER_SIZE_WORD :: u64 where
  "HDV_DOORBELL_FLAG_TRIGGER_SIZE_WORD = 2"

definition HDV_DOORBELL_FLAG_TRIGGER_SIZE_DWORD :: u64 where
  "HDV_DOORBELL_FLAG_TRIGGER_SIZE_DWORD = 3"

definition HDV_DOORBELL_FLAG_TRIGGER_SIZE_QWORD :: u64 where
  "HDV_DOORBELL_FLAG_TRIGGER_SIZE_QWORD = 4"

definition HDV_DOORBELL_FLAG_TRIGGER_ANY_VALUE :: u64 where
  "HDV_DOORBELL_FLAG_TRIGGER_ANY_VALUE = 0x80000000"

record HDV_PCI_PNP_ID =
  VendorID :: u16
  DeviceID :: u16
  RevisionID :: u8
  ProgIf :: u8
  SubClass :: u8
  BaseClass :: u8
  SubVendorID :: u16
  SubSystemID :: u16

section \<open>The imported functions\<close>

record 'w hdv_api =
  HdvInitializeDeviceHost :: "HCS_SYSTEM \<Rightarrow> 'w \<Rightarrow> (HRESULT \<times> HDV_HOST) \<times> 'w"
  HdvInitializeDeviceHostEx ::
    "HCS_SYSTEM \<Rightarrow> HDV_DEVICE_HOST_FLAGS \<Rightarrow> 'w \<Rightarrow> (HRESULT \<times> HDV_HOST) \<times> 'w"
  HdvProxyDeviceHost :: "HCS_SYSTEM \<Rightarrow> PVOID \<Rightarrow> u32 \<Rightarrow> 'w \<Rightarrow> (HRESULT \<times> u64) \<times> 'w"
  HdvInitializeDeviceHostForProxy :: "guid \<Rightarrow> PVOID \<Rightarrow> 'w \<Rightarrow> (HRESULT \<times> HDV_HOST) \<times> 'w"
  HdvInitializeDeviceHostForProxyEx ::
    "guid \<Rightarrow> PVOID \<Rightarrow> u32 \<Rightarrow> 'w \<Rightarrow> (HRESULT \<times> HDV_HOST) \<times> 'w"
  HdvTeardownDeviceHost :: "HDV_HOST \<Rightarrow> 'w \<Rightarrow> HRESULT \<times> 'w"
  HdvCreateDeviceInstance ::
    "HDV_HOST \<Rightarrow> HDV_DEVICE_TYPE \<Rightarrow> guid \<Rightarrow> guid \<Rightarrow> PVOID \<Rightarrow> PVOID \<Rightarrow> 'w \<Rightarrow>
      (HRESULT \<times> HDV_DEVICE) \<times> 'w"
  HdvReadGuestMemory :: "HDV_DEVICE \<Rightarrow> u64 \<Rightarrow> u32 \<Rightarrow> 'w \<Rightarrow> (HRESULT \<times> u8 list) \<times> 'w"
  HdvWriteGuestMemory :: "HDV_DEVICE \<Rightarrow> u64 \<Rightarrow> u32 \<Rightarrow> u8 list \<Rightarrow> 'w \<Rightarrow> HRESULT \<times> 'w"
  HdvCreateGuestMemoryAperture ::
    "HDV_DEVICE \<Rightarrow> u64 \<Rightarrow> u32 \<Rightarrow> bool \<Rightarrow> 'w \<Rightarrow> (HRESULT \<times> PVOID) \<times> 'w"
  HdvDestroyGuestMemoryAperture :: "HDV_DEVICE \<Rightarrow> PVOID \<Rightarrow> 'w \<Rightarrow> HRESULT \<times> 'w"
  HdvDeliverGuestInterrupt :: "HDV_DEVICE \<Rightarrow> u64 \<Rightarrow> u32 \<Rightarrow> 'w \<Rightarrow> HRESULT \<times> 'w"
  HdvRegisterDoorbell ::
    "HDV_DEVICE \<Rightarrow> HDV_PCI_BAR_SELECTOR \<Rightarrow> u64 \<Rightarrow> u64 \<Rightarrow> u64 \<Rightarrow> HANDLE \<Rightarrow> 'w \<Rightarrow> HRESULT \<times> 'w"
  HdvUnregisterDoorbell ::
    "HDV_DEVICE \<Rightarrow> HDV_PCI_BAR_SELECTOR \<Rightarrow> u64 \<Rightarrow> u64 \<Rightarrow> u64 \<Rightarrow> 'w \<Rightarrow> HRESULT \<times> 'w"

section \<open>The off-Windows stubs\<close>

definition E_NOTIMPL :: HRESULT where
  "E_NOTIMPL = - 0x7fffbfff"

text \<open>
  Every stub answers \<open>E_NOTIMPL\<close> and writes nothing: an out pointer keeps the null its caller
  initialised it with, a buffer the bytes it had (reported here as no bytes).
\<close>

definition not_windows :: "'w hdv_api" where
  "not_windows =
     \<lparr>HdvInitializeDeviceHost = (\<lambda>_ w. ((E_NOTIMPL, 0), w)),
      HdvInitializeDeviceHostEx = (\<lambda>_ _ w. ((E_NOTIMPL, 0), w)),
      HdvProxyDeviceHost = (\<lambda>_ _ _ w. ((E_NOTIMPL, 0), w)),
      HdvInitializeDeviceHostForProxy = (\<lambda>_ _ w. ((E_NOTIMPL, 0), w)),
      HdvInitializeDeviceHostForProxyEx = (\<lambda>_ _ _ w. ((E_NOTIMPL, 0), w)),
      HdvTeardownDeviceHost = (\<lambda>_ w. (E_NOTIMPL, w)),
      HdvCreateDeviceInstance = (\<lambda>_ _ _ _ _ _ w. ((E_NOTIMPL, 0), w)),
      HdvReadGuestMemory = (\<lambda>_ _ _ w. ((E_NOTIMPL, []), w)),
      HdvWriteGuestMemory = (\<lambda>_ _ _ _ w. (E_NOTIMPL, w)),
      HdvCreateGuestMemoryAperture = (\<lambda>_ _ _ _ w. ((E_NOTIMPL, 0), w)),
      HdvDestroyGuestMemoryAperture = (\<lambda>_ _ w. (E_NOTIMPL, w)),
      HdvDeliverGuestInterrupt = (\<lambda>_ _ _ w. (E_NOTIMPL, w)),
      HdvRegisterDoorbell = (\<lambda>_ _ _ _ _ _ w. (E_NOTIMPL, w)),
      HdvUnregisterDoorbell = (\<lambda>_ _ _ _ _ w. (E_NOTIMPL, w))\<rparr>"

section \<open>Facts\<close>

lemma failed_codes [simp]:
  "\<not> failed S_OK" "failed E_POINTER" "failed E_FAIL" "failed E_NOINTERFACE" "failed E_NOTIMPL"
  by (simp_all add: failed_def S_OK_def E_POINTER_def E_FAIL_def E_NOINTERFACE_def E_NOTIMPL_def)

lemma bar_discriminant_less: "bar_discriminant b < HDV_PCI_BAR_COUNT"
  by (cases b) (simp_all add: HDV_PCI_BAR_COUNT_def)

lemma bar_discriminant_inject: "bar_discriminant a = bar_discriminant b \<longleftrightarrow> a = b"
  by (cases a; cases b) simp_all

end
