(* ===== verification/Hdv.thy ===== *)
theory Hdv
  imports Hdv_Sys
begin

text \<open>
  The RAII layer \<open>hdv/src/lib.rs\<close>: device hosts, the borrowed device handle and its calls, and
  guest-memory apertures that unmap themselves. A liveness flag is an \<open>Arc<AtomicBool>\<close> shared by
  a host and the apertures stamped with it, so the process state holds a store of flags and hosts
  and apertures hold flag names. The lemmas give the error behaviour of every wrapper and what the
  flag does for an aperture dropped after its host.
\<close>

type_synonym flag = nat

record 'w process =
  flags :: "flag \<Rightarrow> bool"
  next_flag :: flag
  platform :: 'w

section \<open>Results\<close>

text \<open>\<open>Error(HRESULT)\<close> is its code; \<open>Result<T>\<close> is \<open>HRESULT + 'a\<close>.\<close>

definition hr :: "HRESULT \<Rightarrow> HRESULT + unit" where
  "hr code = (if 0 \<le> sint code then Inr () else Inl code)"

text \<open>A platform call made on the process state.\<close>

definition on_platform :: "('w \<Rightarrow> 'a \<times> 'w) \<Rightarrow> 'w process \<Rightarrow> 'a \<times> 'w process" where
  "on_platform f p = (case f (platform p) of (a, w) \<Rightarrow> (a, p\<lparr>platform := w\<rparr>))"

definition checked :: "('w \<Rightarrow> HRESULT \<times> 'w) \<Rightarrow> 'w process \<Rightarrow> (HRESULT + unit) \<times> 'w process" where
  "checked f p = (case on_platform f p of (code, p) \<Rightarrow> (hr code, p))"

definition checked_out ::
  "('w \<Rightarrow> (HRESULT \<times> 'a) \<times> 'w) \<Rightarrow> 'w process \<Rightarrow> (HRESULT + 'a) \<times> 'w process" where
  "checked_out f p =
     (case on_platform f p of
        ((code, x), p) \<Rightarrow> ((case hr code of Inl e \<Rightarrow> Inl e | Inr _ \<Rightarrow> Inr x), p))"

section \<open>DeviceHost\<close>

record device_host =
  host_handle :: HDV_HOST
  host_alive :: flag

definition DeviceHost_wrap :: "HDV_HOST \<Rightarrow> 'w process \<Rightarrow> device_host \<times> 'w process" where
  "DeviceHost_wrap handle p =
     (\<lparr>host_handle = handle, host_alive = next_flag p\<rparr>,
      p\<lparr>flags := (flags p)(next_flag p := True), next_flag := Suc (next_flag p)\<rparr>)"

definition DeviceHost_from ::
  "('w \<Rightarrow> (HRESULT \<times> HDV_HOST) \<times> 'w) \<Rightarrow> 'w process \<Rightarrow> (HRESULT + device_host) \<times> 'w process" where
  "DeviceHost_from f p =
     (case checked_out f p of
        (Inl e, p) \<Rightarrow> (Inl e, p)
      | (Inr handle, p) \<Rightarrow> (case DeviceHost_wrap handle p of (h, p) \<Rightarrow> (Inr h, p)))"

definition DeviceHost_open ::
  "'w hdv_api \<Rightarrow> HCS_SYSTEM \<Rightarrow> 'w process \<Rightarrow> (HRESULT + device_host) \<times> 'w process" where
  "DeviceHost_open api compute_system = DeviceHost_from (HdvInitializeDeviceHost api compute_system)"

definition DeviceHost_open_ex ::
  "'w hdv_api \<Rightarrow> HCS_SYSTEM \<Rightarrow> HDV_DEVICE_HOST_FLAGS \<Rightarrow> 'w process \<Rightarrow>
     (HRESULT + device_host) \<times> 'w process" where
  "DeviceHost_open_ex api compute_system flgs =
     DeviceHost_from (HdvInitializeDeviceHostEx api compute_system flgs)"

definition DeviceHost_from_proxy ::
  "'w hdv_api \<Rightarrow> guid \<Rightarrow> PVOID \<Rightarrow> 'w process \<Rightarrow> (HRESULT + device_host) \<times> 'w process" where
  "DeviceHost_from_proxy api device_host_id device_host_support =
     DeviceHost_from (HdvInitializeDeviceHostForProxy api device_host_id device_host_support)"

text \<open>\<open>Drop\<close>: the flag first, then the teardown.\<close>

definition DeviceHost_drop :: "'w hdv_api \<Rightarrow> device_host \<Rightarrow> 'w process \<Rightarrow> 'w process" where
  "DeviceHost_drop api h p =
     (let p = p\<lparr>flags := (flags p)(host_alive h := False)\<rparr>
      in if host_handle h \<noteq> 0
         then snd (on_platform (HdvTeardownDeviceHost api (host_handle h)) p) else p)"

section \<open>Aperture\<close>

record aperture =
  ap_device :: HDV_DEVICE
  ap_ptr :: PVOID
  ap_len :: usize
  ap_alive :: "flag option"

definition set_liveness :: "flag \<Rightarrow> aperture \<Rightarrow> aperture" where
  "set_liveness f a = a\<lparr>ap_alive := Some f\<rparr>"

definition Aperture_is_empty :: "aperture \<Rightarrow> bool" where
  "Aperture_is_empty a \<longleftrightarrow> ap_len a = 0"

definition known_dead :: "'w process \<Rightarrow> aperture \<Rightarrow> bool" where
  "known_dead p a = (case ap_alive a of None \<Rightarrow> False | Some f \<Rightarrow> \<not> flags p f)"

definition Aperture_drop :: "'w hdv_api \<Rightarrow> aperture \<Rightarrow> 'w process \<Rightarrow> 'w process" where
  "Aperture_drop api a p =
     (if known_dead p a then p
      else if ap_ptr a \<noteq> 0
      then snd (on_platform (HdvDestroyGuestMemoryAperture api (ap_device a) (ap_ptr a)) p)
      else p)"

section \<open>Device\<close>

definition read_guest_memory ::
  "'w hdv_api \<Rightarrow> HDV_DEVICE \<Rightarrow> u64 \<Rightarrow> usize \<Rightarrow> 'w process \<Rightarrow> (HRESULT + u8 list) \<times> 'w process" where
  "read_guest_memory api d gpa len = checked_out (HdvReadGuestMemory api d gpa (ucast len))"

definition write_guest_memory ::
  "'w hdv_api \<Rightarrow> HDV_DEVICE \<Rightarrow> u64 \<Rightarrow> u8 list \<Rightarrow> 'w process \<Rightarrow> (HRESULT + unit) \<times> 'w process" where
  "write_guest_memory api d gpa buf =
     checked (HdvWriteGuestMemory api d gpa (of_nat (length buf)) buf)"

definition create_aperture ::
  "'w hdv_api \<Rightarrow> HDV_DEVICE \<Rightarrow> u64 \<Rightarrow> u32 \<Rightarrow> bool \<Rightarrow> 'w process \<Rightarrow>
     (HRESULT + aperture) \<times> 'w process" where
  "create_aperture api d gpa len write_protected p =
     (case checked_out (HdvCreateGuestMemoryAperture api d gpa len write_protected) p of
        (Inl e, p) \<Rightarrow> (Inl e, p)
      | (Inr mapped, p) \<Rightarrow>
          (Inr \<lparr>ap_device = d, ap_ptr = mapped, ap_len = ucast len, ap_alive = None\<rparr>, p))"

definition deliver_interrupt ::
  "'w hdv_api \<Rightarrow> HDV_DEVICE \<Rightarrow> u64 \<Rightarrow> u32 \<Rightarrow> 'w process \<Rightarrow> (HRESULT + unit) \<times> 'w process" where
  "deliver_interrupt api d msi_address msi_data =
     checked (HdvDeliverGuestInterrupt api d msi_address msi_data)"

definition register_doorbell ::
  "'w hdv_api \<Rightarrow> HDV_DEVICE \<Rightarrow> HDV_PCI_BAR_SELECTOR \<Rightarrow> u64 \<Rightarrow> u64 \<Rightarrow> u64 \<Rightarrow> HANDLE \<Rightarrow>
     'w process \<Rightarrow> (HRESULT + unit) \<times> 'w process" where
  "register_doorbell api d bar offset trigger_value flgs event =
     checked (HdvRegisterDoorbell api d bar offset trigger_value flgs event)"

definition unregister_doorbell ::
  "'w hdv_api \<Rightarrow> HDV_DEVICE \<Rightarrow> HDV_PCI_BAR_SELECTOR \<Rightarrow> u64 \<Rightarrow> u64 \<Rightarrow> u64 \<Rightarrow>
     'w process \<Rightarrow> (HRESULT + unit) \<times> 'w process" where
  "unregister_doorbell api d bar offset trigger_value flgs =
     checked (HdvUnregisterDoorbell api d bar offset trigger_value flgs)"

section \<open>Facts\<close>

lemma hr_cases [simp]: "hr code = Inr u \<longleftrightarrow> \<not> failed code" "hr code = Inl e \<longleftrightarrow> failed code \<and> e = code"
  by (auto simp: hr_def failed_def)

lemma on_platform_eq:
  "on_platform f p = (fst (f (platform p)), p\<lparr>platform := snd (f (platform p))\<rparr>)"
  by (simp add: on_platform_def case_prod_beta)

lemma flags_on_platform [simp]:
  "flags (snd (on_platform f p)) = flags p" "next_flag (snd (on_platform f p)) = next_flag p"
  by (simp_all add: on_platform_eq)

lemma checked_eq:
  "checked f p = (hr (fst (f (platform p))), p\<lparr>platform := snd (f (platform p))\<rparr>)"
  by (simp add: checked_def on_platform_eq)

lemma checked_out_eq:
  "checked_out f p =
     (let ((code, x), w) = f (platform p)
      in (if failed code then Inl code else Inr x, p\<lparr>platform := w\<rparr>))"
  by (cases "f (platform p)"; cases "fst (f (platform p))")
    (simp add: checked_out_def on_platform_eq hr_def failed_def)

lemma flags_checked [simp]:
  "flags (snd (checked f p)) = flags p" "flags (snd (checked_out g p)) = flags p"
  by (simp_all add: checked_eq checked_out_eq case_prod_beta Let_def)

lemma create_aperture_eq:
  "create_aperture api d gpa len wp p =
     (let ((code, mapped), w) = HdvCreateGuestMemoryAperture api d gpa len wp (platform p)
      in (if failed code then Inl code
          else Inr \<lparr>ap_device = d, ap_ptr = mapped, ap_len = ucast len, ap_alive = None\<rparr>,
          p\<lparr>platform := w\<rparr>))"
  by (simp add: create_aperture_def checked_out_eq case_prod_beta Let_def)

lemma create_aperture_Inr:
  assumes "create_aperture api d gpa len wp p = (Inr a, q)"
  shows "ap_device a = d" "ap_len a = ucast len" "ap_alive a = None"
  using assms by (auto simp: create_aperture_eq case_prod_beta Let_def split: if_splits)

lemma flags_create_aperture [simp]: "flags (snd (create_aperture api d gpa len wp p)) = flags p"
  by (simp add: create_aperture_eq case_prod_beta Let_def)

lemma flags_Aperture_drop [simp]: "flags (Aperture_drop api a p) = flags p"
  by (simp add: Aperture_drop_def)

lemma DeviceHost_drop_flag: "flags (DeviceHost_drop api h p) = (flags p)(host_alive h := False)"
  by (simp add: DeviceHost_drop_def Let_def)

end
