(* ===== verification/Aperture_Cache.thy ===== *)
theory Aperture_Cache
  imports Hdv
begin

text \<open>
  The on-demand aperture cache of \<open>virtio-hdv/src/mem.rs\<close>: the counters, the hasher of the shard
  maps, one shard (hit path, eviction, miss path with its quota loop), and the whole
  \<open>HdvApertureMem\<close> with its address checks and page rounding. A shard map is an association list
  whose order stands for the iteration order of the \<open>HashMap\<close>; a poisoned lock is entered like any
  other, as in the code. What is shown: the invariant of a shard and that every operation keeps it,
  that a shard is a least-recently-used list, that the quota loop ends, the result of the miss path
  on every branch, and that the pointer handed to a copy stays inside the mapping.
\<close>

section \<open>Constants\<close>

definition PAGE :: u64 where
  "PAGE = 4096"

definition ERROR_NOT_ENOUGH_QUOTA :: u32 where
  "ERROR_NOT_ENOUGH_QUOTA = 0x80070718"

definition MAX_ENTRIES :: nat where
  "MAX_ENTRIES = 1024"

definition SHARDS :: nat where
  "SHARDS = 16"

definition PER_SHARD_MAX :: nat where
  "PER_SHARD_MAX = MAX_ENTRIES div SHARDS"

definition STATS_EVERY :: u64 where
  "STATS_EVERY = 4096"

definition STATS_EVERY_MS :: nat where
  "STATS_EVERY_MS = 500"

section \<open>Counters\<close>

record stats =
  enabled :: bool
  ops :: u64
  hits :: u64
  creates :: u64
  evicts :: u64
  quota_retries :: u64
  create_fails :: u64
  bad_range :: u64
  not_bound :: u64
  live :: usize
  peak_live :: usize
  max_span :: u64

definition Stats_new :: "bool \<Rightarrow> stats" where
  "Stats_new stats_on =
     \<lparr>enabled = stats_on, ops = 0, hits = 0, creates = 0, evicts = 0, quota_retries = 0,
      create_fails = 0, bad_range = 0, not_bound = 0, live = 0, peak_live = 0, max_span = 0\<rparr>"

text \<open>The counter is named by the update function of its field.\<close>

definition count :: "((u64 \<Rightarrow> u64) \<Rightarrow> stats \<Rightarrow> stats) \<Rightarrow> stats \<Rightarrow> stats" where
  "count counter st = (if enabled st then counter (\<lambda>n. n + 1) st else st)"

definition inc_live :: "stats \<Rightarrow> stats" where
  "inc_live st =
     (if enabled st
      then let n = live st + 1 in st\<lparr>live := n, peak_live := max (peak_live st) n\<rparr>
      else st)"

definition dec_live :: "stats \<Rightarrow> stats" where
  "dec_live st = (if enabled st then st\<lparr>live := live st - 1\<rparr> else st)"

text \<open>The event of a summary: its phase and the counters by name.\<close>

definition Stats_emit :: "string \<Rightarrow> stats \<Rightarrow> string \<times> (string \<times> nat) list" where
  "Stats_emit phase st =
     (phase,
      [(''ops'', unat (ops st)), (''hits'', unat (hits st)), (''creates'', unat (creates st)),
       (''evicts'', unat (evicts st)), (''quota_retries'', unat (quota_retries st)),
       (''create_fails'', unat (create_fails st)), (''bad_range'', unat (bad_range st)),
       (''not_bound'', unat (not_bound st)), (''live'', unat (live st)), (''peak_live'', unat (peak_live st)),
       (''max_span'', unat (max_span st))])"

section \<open>PageHasher\<close>

definition build_hasher :: u64 where
  "build_hasher = 0"

definition write_u64 :: "u64 \<Rightarrow> u64 \<Rightarrow> u64" where
  "write_u64 h n = (let x = (h XOR n) * 0x9E3779B97F4A7C15 in x XOR drop_bit 32 x)"

text \<open>The generic fallback feeds bytes one by one.\<close>

definition hasher_write :: "u64 \<Rightarrow> u8 list \<Rightarrow> u64" where
  "hasher_write h bytes = foldl (\<lambda>h b. write_u64 h (ucast b)) h bytes"

text \<open>\<open>hash_one\<close> on a \<open>(u64, u64)\<close> key: both components in order, then \<open>finish\<close>.\<close>

definition hash_key :: "u64 \<times> u64 \<Rightarrow> u64" where
  "hash_key k = write_u64 (write_u64 build_hasher (fst k)) (snd k)"

section \<open>One shard\<close>

record 'a cached_entry =
  ap :: 'a
  last_used :: u64

type_synonym page_key = "u64 \<times> u64"
type_synonym 'a shard_map = "(page_key \<times> 'a cached_entry) list"

record 'a shard =
  cache :: "'a shard_map"
  clock :: u64

definition Shard_default :: "'a shard" where
  "Shard_default = \<lparr>cache = [], clock = 0\<rparr>"

definition lookup :: "page_key \<Rightarrow> 'a shard \<Rightarrow> 'a option \<times> 'a shard" where
  "lookup key s =
     (case map_of (cache s) key of
        None \<Rightarrow> (None, s)
      | Some entry \<Rightarrow>
          let now = clock s + 1
          in (Some (ap entry),
              s\<lparr>cache := AList.update key (entry\<lparr>last_used := now\<rparr>) (cache s), clock := now\<rparr>))"

text \<open>\<open>Iterator::min_by_key\<close>: the first of the least elements.\<close>

fun min_by_key :: "('b \<Rightarrow> 'c::linorder) \<Rightarrow> 'b list \<Rightarrow> 'b option" where
  "min_by_key f [] = None"
| "min_by_key f (x # xs) =
     (case min_by_key f xs of None \<Rightarrow> Some x | Some y \<Rightarrow> Some (if f x \<le> f y then x else y))"

text \<open>The third component is the entry whose handle is dropped by the removal.\<close>

definition evict_one :: "'a shard_map \<Rightarrow> stats \<Rightarrow> 'a shard_map \<times> stats \<times> 'a option" where
  "evict_one m st =
     (case min_by_key (\<lambda>(_, c). last_used c) m of
        None \<Rightarrow> (m, st, None)
      | Some (key, c) \<Rightarrow>
          (AList.delete key m, dec_live (count evicts_update st), Some (ap c)))"

text \<open>
  The unit-test insert: the miss path without a device. The map's own \<open>insert\<close> keeps the place of
  a key that is present.
\<close>

definition Shard_insert :: "page_key \<Rightarrow> 'a \<Rightarrow> 'a shard \<Rightarrow> stats \<Rightarrow> 'a shard \<times> stats" where
  "Shard_insert key value s st =
     (let now = clock s + 1;
          (m, st) = (if PER_SHARD_MAX \<le> length (cache s)
                     then (case evict_one (cache s) st of (m, st, _) \<Rightarrow> (m, st))
                     else (cache s, st))
      in (s\<lparr>cache := AList.update key \<lparr>ap = value, last_used = now\<rparr> m, clock := now\<rparr>, st))"

section \<open>The miss path\<close>

datatype backing_error = NotBound | BadRange | ApertureFailed HRESULT

text \<open>
  Dropping the cache's clone of an \<open>Arc<Aperture>\<close> unmaps it when no copy in flight holds another
  one: \<open>held\<close> says for which apertures one does.
\<close>

definition drop_arc ::
  "'w hdv_api \<Rightarrow> (aperture \<Rightarrow> bool) \<Rightarrow> aperture option \<Rightarrow> 'w process \<Rightarrow> 'w process" where
  "drop_arc api held dropped p =
     (case dropped of None \<Rightarrow> p | Some a \<Rightarrow> if held a then p else Aperture_drop api a p)"

text \<open>The \<open>loop\<close> of \<open>get_or_create\<close>: map the range; on quota exhaustion evict and retry, bounded.\<close>

function create_loop ::
  "'w hdv_api \<Rightarrow> (aperture \<Rightarrow> bool) \<Rightarrow> HDV_DEVICE \<Rightarrow> u64 \<Rightarrow> u64 \<Rightarrow> nat \<Rightarrow> aperture shard_map \<Rightarrow> stats \<Rightarrow>
     'w process \<Rightarrow> (HRESULT + aperture) \<times> aperture shard_map \<times> stats \<times> 'w process" where
  "create_loop api held device base len evictions m st p =
     (case create_aperture api device base (ucast len) False p of
        (Inr a, p) \<Rightarrow> (Inr a, m, st, p)
      | (Inl e, p) \<Rightarrow>
          if e \<noteq> ERROR_NOT_ENOUGH_QUOTA \<or> m = [] \<or> PER_SHARD_MAX \<le> evictions
          then (Inl e, m, count create_fails_update st, p)
          else case evict_one m (count quota_retries_update st) of
                 (m, st, dropped) \<Rightarrow>
                   create_loop api held device base len (evictions + 1) m st
                     (drop_arc api held dropped p))"
  by pat_completeness auto
termination
  by (relation "measure (\<lambda>(_, _, _, _, _, evictions, _). PER_SHARD_MAX - evictions)") auto

declare create_loop.simps [simp del]

definition evict_if_full ::
  "'w hdv_api \<Rightarrow> (aperture \<Rightarrow> bool) \<Rightarrow> aperture shard_map \<Rightarrow> stats \<Rightarrow> 'w process \<Rightarrow>
     aperture shard_map \<times> stats \<times> 'w process" where
  "evict_if_full api held m st p =
     (if PER_SHARD_MAX \<le> length m
      then case evict_one m st of (m, st, dropped) \<Rightarrow> (m, st, drop_arc api held dropped p)
      else (m, st, p))"

definition get_or_create ::
  "'w hdv_api \<Rightarrow> (aperture \<Rightarrow> bool) \<Rightarrow> HDV_DEVICE \<Rightarrow> u64 \<Rightarrow> u64 \<Rightarrow> u64 \<Rightarrow> flag \<Rightarrow>
     aperture shard \<Rightarrow> stats \<Rightarrow> 'w process \<Rightarrow>
     (u64 \<times> backing_error + aperture) \<times> aperture shard \<times> stats \<times> 'w process" where
  "get_or_create api held device base len err_addr alive s st p =
     (let now = clock s + 1; s = s\<lparr>clock := now\<rparr>
      in case map_of (cache s) (base, len) of
           Some c \<Rightarrow>
             (Inr (ap c), s\<lparr>cache := AList.update (base, len) (c\<lparr>last_used := now\<rparr>) (cache s)\<rparr>,
              count hits_update st, p)
         | None \<Rightarrow>
             (case evict_if_full api held (cache s) st p of
                (m, st, p) \<Rightarrow>
                  (case create_loop api held device base len 0 m st p of
                     (Inl e, m, st, p) \<Rightarrow>
                       (Inl (err_addr, ApertureFailed e), s\<lparr>cache := m\<rparr>, st, p)
                   | (Inr a, m, st, p) \<Rightarrow>
                       let a = set_liveness alive a;
                           m = AList.update (base, len) \<lparr>ap = a, last_used = now\<rparr> m;
                           st = count creates_update st;
                           st = (if enabled st then st\<lparr>max_span := max (max_span st) len\<rparr> else st);
                           st = inc_live st
                       in (Inr a, s\<lparr>cache := m\<rparr>, st, p))))"

section \<open>HdvApertureMem\<close>

text \<open>
  The device handle is the content of the shared \<open>DeviceHandle\<close> slot, null before it is bound. The
  instant \<open>start\<close> is not kept: an operation that reads the clock takes the milliseconds elapsed
  since then.
\<close>

record hdv_aperture_mem =
  mem_handle :: HDV_DEVICE
  mem_alive :: flag
  max_address :: u64
  shards :: "aperture shard list"
  mem_stats :: stats
  last_emit_ms :: u64

definition HIGH_RAM_BASE :: u64 where
  "HIGH_RAM_BASE = push_bit 30 4"

definition ram_size_to_max_gpa :: "u64 \<Rightarrow> u64" where
  "ram_size_to_max_gpa ram_size = saturating_add HIGH_RAM_BASE ram_size"

definition into_guest_memory :: "HDV_DEVICE \<Rightarrow> u64 \<Rightarrow> flag \<Rightarrow> bool \<Rightarrow> hdv_aperture_mem" where
  "into_guest_memory handle ram_size alive stats_on =
     \<lparr>mem_handle = handle, mem_alive = alive, max_address = ram_size_to_max_gpa ram_size,
      shards = replicate SHARDS Shard_default, mem_stats = Stats_new stats_on, last_emit_ms = 0\<rparr>"

text \<open>The first component says whether a summary was emitted.\<close>

definition maybe_emit_stats :: "nat \<Rightarrow> hdv_aperture_mem \<Rightarrow> bool \<times> hdv_aperture_mem" where
  "maybe_emit_stats elapsed g =
     (if \<not> enabled (mem_stats g) then (False, g)
      else let n = ops (mem_stats g);
               g = g\<lparr>mem_stats := (mem_stats g)\<lparr>ops := n + 1\<rparr>\<rparr>;
               due_by_ops = (n mod STATS_EVERY = STATS_EVERY - 1);
               last = unat (last_emit_ms g);
               due_by_time = (STATS_EVERY_MS \<le> elapsed - last);
               g = (if due_by_time then g\<lparr>last_emit_ms := of_nat elapsed\<rparr> else g)
           in (due_by_ops \<or> due_by_time, g))"

text \<open>The events of the cache's own drop.\<close>

definition HdvApertureMem_drop :: "hdv_aperture_mem \<Rightarrow> (string \<times> (string \<times> nat) list) list" where
  "HdvApertureMem_drop g = (if enabled (mem_stats g) then [Stats_emit ''final'' (mem_stats g)] else [])"

text \<open>There is no direct mapping of guest memory, so every access goes through the fallbacks.\<close>

definition HdvApertureMem_mapping :: "hdv_aperture_mem \<Rightarrow> PVOID option" where
  "HdvApertureMem_mapping g = None"

definition shard_index :: "u64 \<Rightarrow> nat" where
  "shard_index base = unat (drop_bit 12 base AND of_nat (SHARDS - 1))"

definition put_shard :: "nat \<Rightarrow> aperture shard \<Rightarrow> stats \<Rightarrow> hdv_aperture_mem \<Rightarrow> hdv_aperture_mem" where
  "put_shard i s st g = g\<lparr>shards := (shards g)[i := s], mem_stats := st\<rparr>"

definition count_in ::
  "((u64 \<Rightarrow> u64) \<Rightarrow> stats \<Rightarrow> stats) \<Rightarrow> hdv_aperture_mem \<Rightarrow> hdv_aperture_mem" where
  "count_in counter g = g\<lparr>mem_stats := count counter (mem_stats g)\<rparr>"

text \<open>
  The range checks and the page rounding of \<open>with_mapping\<close>: the page-aligned base and the span of
  the aperture that serves \<open>[addr, addr + len)\<close>.
\<close>

definition page_base :: "u64 \<Rightarrow> u64" where
  "page_base addr = (addr div PAGE) * PAGE"

definition page_span :: "u64 \<Rightarrow> u64 \<Rightarrow> u64 \<Rightarrow> u64" where
  "page_span max_addr base end = min (div_ceil (end - base) PAGE * PAGE) (max_addr - base)"

definition acquire ::
  "'w hdv_api \<Rightarrow> (aperture \<Rightarrow> bool) \<Rightarrow> HDV_DEVICE \<Rightarrow> u64 \<Rightarrow> u64 \<Rightarrow> u64 \<Rightarrow> hdv_aperture_mem \<Rightarrow>
     'w process \<Rightarrow> (u64 \<times> backing_error + aperture) \<times> hdv_aperture_mem \<times> 'w process" where
  "acquire api held device base span addr g p =
     (let i = shard_index base
      in case lookup (base, span) (shards g ! i) of
           (Some a, s) \<Rightarrow> (Inr a, put_shard i s (count hits_update (mem_stats g)) g, p)
         | (None, s) \<Rightarrow>
             (case get_or_create api held device base span addr (mem_alive g) s (mem_stats g) p of
                (r, s, st, p) \<Rightarrow> (r, put_shard i s st g, p)))"

definition with_mapping ::
  "'w hdv_api \<Rightarrow> (aperture \<Rightarrow> bool) \<Rightarrow> nat \<Rightarrow> u64 \<Rightarrow> usize \<Rightarrow> (PVOID \<Rightarrow> 'w process \<Rightarrow> 'r \<times> 'w process) \<Rightarrow>
     hdv_aperture_mem \<Rightarrow> 'w process \<Rightarrow>
     (u64 \<times> backing_error + 'r) \<times> hdv_aperture_mem \<times> 'w process" where
  "with_mapping api held elapsed addr len f g p =
     (if mem_handle g = 0 then (Inl (addr, NotBound), count_in not_bound_update g, p)
      else case checked_add addr len of
        None \<Rightarrow> (Inl (addr, BadRange), count_in bad_range_update g, p)
      | Some end \<Rightarrow>
          if max_address g < end then (Inl (addr, BadRange), count_in bad_range_update g, p)
          else let base = page_base addr; span = page_span (max_address g) base end
               in case acquire api held (mem_handle g) base span addr g p of
                    (Inl e, g, p) \<Rightarrow> (Inl e, g, p)
                  | (Inr a, g, p) \<Rightarrow>
                      (case f (ap_ptr a + (addr - base)) p of
                         (r, p) \<Rightarrow> (Inr r, snd (maybe_emit_stats elapsed g), p)))"

section \<open>Least elements\<close>

lemma min_by_key_None [simp]: "min_by_key f xs = None \<longleftrightarrow> xs = []"
  by (cases xs) (auto split: option.splits)

lemma min_by_key_SomeD:
  "min_by_key f xs = Some x \<Longrightarrow> x \<in> set xs \<and> (\<forall>y \<in> set xs. f x \<le> f y)"
proof (induction xs arbitrary: x)
  case (Cons a xs)
  then show ?case
    by (cases "min_by_key f xs") (fastforce split: if_splits)+
qed simp

lemma delete_remove1: "distinct (keys m) \<Longrightarrow> (k, v) \<in> set m \<Longrightarrow> AList.delete k m = remove1 (k, v) m"
proof (induction m)
  case (Cons x m)
  show ?case
  proof (cases "x = (k, v)")
    case True
    with Cons.prems have "k \<notin> fst ` set m" by auto
    then show ?thesis by (simp add: True delete_id)
  next
    case False
    with Cons.prems have "(k, v) \<in> set m" by auto
    with Cons.prems have "fst x \<noteq> k" by (cases x) force
    with Cons \<open>(k, v) \<in> set m\<close> False show ?thesis by (cases x) auto
  qed
qed simp

lemma mset_update_in:
  "distinct (keys m) \<Longrightarrow> (k, v) \<in> set m \<Longrightarrow>
     mset (AList.update k w m) = mset (remove1 (k, v) m) + {#(k, w)#}"
proof (induction m)
  case (Cons x m)
  show ?case
  proof (cases "x = (k, v)")
    case False
    with Cons.prems have "(k, v) \<in> set m" by auto
    with Cons.prems have "fst x \<noteq> k" by (cases x) force
    with Cons \<open>(k, v) \<in> set m\<close> False show ?thesis by (cases x) auto
  qed simp
qed simp

lemma keys_remove1: "distinct (keys m) \<Longrightarrow> (k, v) \<in> set m \<Longrightarrow> keys (remove1 (k, v) m) = remove1 k (keys m)"
  by (induction m) (auto, (force)+)

section \<open>A shard as a recency list\<close>

abbreviation stamp :: "page_key \<times> 'a cached_entry \<Rightarrow> u64" where
  "stamp x \<equiv> last_used (snd x)"

text \<open>The keys of a shard map, least recently used first.\<close>

definition recency :: "'a shard_map \<Rightarrow> page_key list" where
  "recency m = map fst (sort_key stamp m)"

definition shard_inv :: "'a shard \<Rightarrow> bool" where
  "shard_inv s \<longleftrightarrow>
     distinct (keys (cache s)) \<and> length (cache s) \<le> PER_SHARD_MAX \<and>
     distinct (map stamp (cache s)) \<and> list_all (\<lambda>x. stamp x \<le> clock s) (cache s)"

text \<open>The invariant of a map whose stamps are all older than \<open>now\<close>.\<close>

definition map_inv :: "u64 \<Rightarrow> 'a shard_map \<Rightarrow> bool" where
  "map_inv now m \<longleftrightarrow>
     distinct (keys m) \<and> length m \<le> PER_SHARD_MAX \<and>
     distinct (map stamp m) \<and> list_all (\<lambda>x. stamp x < now) m"

lemma shard_inv_map_inv: "shard_inv s \<Longrightarrow> clock s \<noteq> - 1 \<Longrightarrow> map_inv (clock s + 1) (cache s)"
  by (auto simp: shard_inv_def map_inv_def list_all_iff le_less_plus_one)

lemma map_inv_shard_inv: "map_inv now m \<Longrightarrow> shard_inv \<lparr>cache = m, clock = now\<rparr>"
  by (auto simp: shard_inv_def map_inv_def list_all_iff less_imp_le)

lemma sort_key_eqI:
  "distinct (map stamp m) \<Longrightarrow> mset ys = mset m \<Longrightarrow> sorted (map stamp ys) \<Longrightarrow> sort_key stamp m = ys"
  by (rule sort_key_inj_key_eq) (auto simp: distinct_map)

lemma mset_recency: "mset (recency m) = mset (keys m)"
  by (simp add: recency_def)

lemma recency_set [simp]: "set (recency m) = set (keys m)" "length (recency m) = length m"
  by (simp_all add: recency_def)

lemma distinct_recency: "distinct (recency m) \<longleftrightarrow> distinct (keys m)"
  using mset_recency mset_eq_imp_distinct_iff by blast

text \<open>The sorted map when the least entry goes.\<close>

lemma sort_remove_min:
  assumes "distinct (map stamp m)" "x \<in> set m" "\<forall>y \<in> set m. stamp x \<le> stamp y"
  shows "sort_key stamp m = x # sort_key stamp (remove1 x m)"
proof (rule sort_key_eqI [OF assms(1)])
  show "mset (x # sort_key stamp (remove1 x m)) = mset m"
    using assms(2) by simp
  show "sorted (map stamp (x # sort_key stamp (remove1 x m)))"
    using assms(3) by (auto dest: notin_set_remove1 set_mp [OF set_remove1_subset])
qed

text \<open>The sorted map when an entry younger than all others comes.\<close>

lemma sort_add_max:
  assumes "distinct (map stamp m)" "\<forall>y \<in> set m. stamp y < stamp x" "mset m' = mset m + {#x#}"
  shows "sort_key stamp m' = sort_key stamp m @ [x]"
proof (rule sort_key_eqI)
  have "distinct (map stamp (x # m))" using assms(1,2) by auto
  moreover have "mset (map stamp (x # m)) = mset (map stamp m')" using assms(3) by simp
  ultimately show "distinct (map stamp m')" using mset_eq_imp_distinct_iff by blast
  show "mset (sort_key stamp m @ [x]) = mset m'" using assms(3) by simp
  show "sorted (map stamp (sort_key stamp m @ [x]))"
    using assms(2) by (auto simp: sorted_append less_imp_le)
qed

lemma distinct_stamps_remove1: "distinct (map stamp m) \<Longrightarrow> distinct (map stamp (remove1 x m))"
  by (auto simp: distinct_map intro: inj_on_subset dest: set_mp [OF set_remove1_subset])

lemma sort_remove1:
  assumes "distinct (map stamp m)"
  shows "sort_key stamp (remove1 x m) = remove1 x (sort_key stamp m)"
proof (rule sort_key_eqI [OF distinct_stamps_remove1 [OF assms]])
  show "mset (remove1 x (sort_key stamp m)) = mset (remove1 x m)" by simp
  have "sorted (map stamp (sort_key stamp m))" by simp
  then show "sorted (map stamp (remove1 x (sort_key stamp m)))"
    by (rule sorted_map_remove1)
qed

section \<open>Eviction and restamping\<close>

text \<open>The operations of a recency list: a key becomes the youngest, the oldest goes.\<close>

definition lru_touch :: "'k \<Rightarrow> 'k list \<Rightarrow> 'k list" where
  "lru_touch k ks = remove1 k ks @ [k]"

definition lru_insert :: "nat \<Rightarrow> 'k \<Rightarrow> 'k list \<Rightarrow> 'k list" where
  "lru_insert cap k ks = lru_touch k (if cap \<le> length ks then tl ks else ks)"

lemma mset_update:
  "distinct (keys m) \<Longrightarrow> mset (AList.update k w m) = mset (AList.delete k m) + {#(k, w)#}"
proof (cases "k \<in> set (keys m)")
  case True
  then obtain v where "(k, v) \<in> set m" by auto
  then show "distinct (keys m) \<Longrightarrow> ?thesis" by (simp add: mset_update_in delete_remove1)
next
  case False
  then show ?thesis by (simp add: update_fresh delete_id)
qed

lemma recency_delete:
  "distinct (keys m) \<Longrightarrow> distinct (map stamp m) \<Longrightarrow> recency (AList.delete k m) = remove1 k (recency m)"
proof (cases "k \<in> set (keys m)")
  case True
  assume *: "distinct (keys m)" "distinct (map stamp m)"
  from True obtain v where "(k, v) \<in> set m" by auto
  with * show ?thesis
    using keys_remove1 [of "sort_key stamp m" k v] distinct_recency [of m]
    by (simp add: delete_remove1 recency_def sort_remove1)
next
  case False
  then show ?thesis by (simp add: delete_id remove1_idem)
qed

lemma map_inv_delete: "map_inv now m \<Longrightarrow> map_inv now (AList.delete k m)"
  by (auto simp: map_inv_def list_all_iff AList.delete_eq distinct_map_filter
      intro: order_trans [OF length_filter_le])

lemma recency_update:
  assumes "map_inv now m" "last_used e = now"
  shows "recency (AList.update k e m) = lru_touch k (recency m)"
proof -
  let ?d = "AList.delete k m"
  from map_inv_delete [OF assms(1)] have "map_inv now ?d" .
  then have "sort_key stamp (AList.update k e m) = sort_key stamp ?d @ [(k, e)]"
    using assms mset_update [of m k e]
    by (intro sort_add_max) (auto simp: map_inv_def list_all_iff)
  then have "recency (AList.update k e m) = recency ?d @ [k]"
    by (simp add: recency_def)
  then show ?thesis
    using assms(1) by (simp add: recency_delete lru_touch_def map_inv_def)
qed

lemma shard_inv_update:
  assumes "map_inv now m" "last_used e = now" "k \<in> set (keys m) \<or> length m < PER_SHARD_MAX"
  shows "shard_inv \<lparr>cache = AList.update k e m, clock = now\<rparr>"
proof -
  let ?d = "AList.delete k m" and ?u = "AList.update k e m"
  have d: "map_inv now ?d" using assms(1) by (rule map_inv_delete)
  have u: "mset ?u = mset ((k, e) # ?d)" using assms(1) mset_update by (auto simp: map_inv_def)
  then have set: "set ?u = set ((k, e) # ?d)" by (rule mset_eq_setD)
  have "mset (map stamp ?u) = mset (map stamp ((k, e) # ?d))" using u by (simp only: mset_map)
  moreover have "distinct (map stamp ((k, e) # ?d))"
    using d assms(2) by (auto simp: map_inv_def list_all_iff)
  ultimately have "distinct (map stamp ?u)" using mset_eq_imp_distinct_iff by blast
  moreover have "length ?u \<le> PER_SHARD_MAX"
    using assms(1,3) length_update_in [of k m e] length_update_le [of k e m]
    by (auto simp del: set_map simp: map_inv_def)
  moreover have "list_all (\<lambda>x. stamp x \<le> now) ?u"
    using d assms(2) by (auto simp: set list_all_iff map_inv_def less_imp_le)
  moreover have "distinct (keys ?u)" using assms(1) by (simp add: distinct_update map_inv_def)
  ultimately show ?thesis by (simp add: shard_inv_def)
qed

text \<open>Eviction removes the head of the recency list and hands back its aperture.\<close>

lemma evict_one_spec:
  assumes "map_inv now m" "m \<noteq> []"
  obtains k c where "evict_one m st = (AList.delete k m, dec_live (count evicts_update st), Some (ap c))"
    "(k, c) \<in> set m" "recency m = k # recency (AList.delete k m)"
    "Suc (length (AList.delete k m)) = length m"
proof -
  from assms(2) obtain k c where min: "min_by_key (\<lambda>(_, c). last_used c) m = Some (k, c)"
    using min_by_key_None [of "\<lambda>(_, c). last_used c" m] by fastforce
  then have in_m: "(k, c) \<in> set m" and le: "\<forall>y \<in> set m. stamp (k, c) \<le> stamp y"
    using min_by_key_SomeD [OF min] by (auto simp: case_prod_beta)
  have "recency m = k # recency (AList.delete k m)"
    using sort_remove_min [OF _ in_m le] assms(1) in_m
    by (simp add: recency_def delete_remove1 map_inv_def)
  moreover have "Suc (length (AList.delete k m)) = length m"
    using in_m assms(1) by (intro length_delete_in) (force simp: map_inv_def)+
  ultimately show thesis using that min in_m by (auto simp: evict_one_def)
qed

lemma evict_one_recency:
  "map_inv now m \<Longrightarrow> m \<noteq> [] \<Longrightarrow> recency (fst (evict_one m st)) = tl (recency m)"
  by (erule evict_one_spec [where st = st]) auto

section \<open>The hit path and the plain insert\<close>

text \<open>
  What a bounded cache with recency eviction promises its clients. The clock of a shard is 64 bits
  wide, so the laws are stated while it has ticks left.
\<close>

locale lru_cache =
  fixes inv :: "'s \<Rightarrow> bool"
    and ticks :: "'s \<Rightarrow> nat"
    and order :: "'s \<Rightarrow> 'k list"
    and get :: "'k \<Rightarrow> 's \<Rightarrow> 'v option \<times> 's"
    and put :: "'k \<Rightarrow> 'v \<Rightarrow> 's \<Rightarrow> 's"
    and cap :: nat
  assumes order_wf: "inv s \<Longrightarrow> distinct (order s) \<and> length (order s) \<le> cap"
    and get_miss: "k \<notin> set (order s) \<Longrightarrow> get k s = (None, s)"
    and get_hit: "inv s \<Longrightarrow> 0 < ticks s \<Longrightarrow> k \<in> set (order s) \<Longrightarrow>
      fst (get k s) \<noteq> None \<and> inv (snd (get k s)) \<and> ticks s = Suc (ticks (snd (get k s))) \<and>
      order (snd (get k s)) = lru_touch k (order s)"
    and put_order: "inv s \<Longrightarrow> 0 < ticks s \<Longrightarrow>
      inv (put k v s) \<and> ticks s = Suc (ticks (put k v s)) \<and>
      order (put k v s) = lru_insert cap k (order s)"
    and get_put: "inv s \<Longrightarrow> 0 < ticks s \<Longrightarrow> fst (get k (put k v s)) = Some v"
begin

lemma put_keeps:
  assumes "inv s" "0 < ticks s" "order s = pre @ k # post" "Suc (length post) < cap" "j \<noteq> k"
  shows "\<exists>pre post'. order (put j v s) = pre @ k # post' \<and> length post' \<le> Suc (length post)"
proof -
  let ?t = "if cap \<le> length (order s) then tl (order s) else order s"
  have "cap \<le> length (order s) \<Longrightarrow> pre \<noteq> []" using assms(3,4) by auto
  then have "\<exists>pre'. ?t = pre' @ k # post"
    using assms(3) by (cases pre) (auto intro: exI [of _ "[]"] exI [of _ "a # l" for a l])
  then obtain pre' where t: "?t = pre' @ k # post" ..
  have "remove1 j ?t = (if j \<in> set pre' then remove1 j pre' @ k # post else pre' @ k # remove1 j post)"
    unfolding t using assms(5) by (simp add: remove1_append)
  moreover have "length (remove1 j post) \<le> length post"
    by (simp add: length_remove1)
  ultimately obtain pre'' post' where
    "remove1 j ?t = pre'' @ k # post'" "length post' \<le> length post"
    by (metis order_refl)
  then have "order (put j v s) = pre'' @ k # (post' @ [j])" "length (post' @ [j]) \<le> Suc (length post)"
    using put_order [OF assms(1,2), of j v] by (simp_all add: lru_insert_def lru_touch_def)
  then show ?thesis by blast
qed

text \<open>A key that was just read survives fewer than \<open>cap\<close> insertions of other keys.\<close>

lemma puts_keep:
  assumes "inv s" "length kvs \<le> ticks s" "order s = pre @ k # post"
    "length post + length kvs < cap" "k \<notin> fst ` set kvs"
  shows "k \<in> set (order (fold (\<lambda>(k, v). put k v) kvs s))"
  using assms
proof (induction kvs arbitrary: s pre post)
  case (Cons kv kvs)
  obtain j v where kv: "kv = (j, v)" by force
  from Cons.prems kv obtain pre' post' where
    "order (put j v s) = pre' @ k # post'" "length post' \<le> Suc (length post)"
    using put_keeps [of s pre k post j v] by auto
  moreover have "inv (put j v s)" "length kvs \<le> ticks (put j v s)"
    using put_order [of s j v] Cons.prems by auto
  ultimately show ?case using Cons.IH [of "put j v s" pre' post'] Cons.prems kv by auto
qed simp

lemma read_survives:
  assumes "inv s" "length kvs < ticks s" "k \<in> set (order s)" "length kvs < cap" "k \<notin> fst ` set kvs"
  shows "k \<in> set (order (fold (\<lambda>(k, v). put k v) kvs (snd (get k s))))"
  using assms get_hit [of s k]
  by (intro puts_keep [where pre = "remove1 k (order s)" and post = "[]"]) (auto simp: lru_touch_def)

end

definition shard_ticks :: "'a shard \<Rightarrow> nat" where
  "shard_ticks s = 2 ^ 64 - 1 - unat (clock s)"

lemma shard_ticks_pos: "0 < shard_ticks s \<longleftrightarrow> clock s \<noteq> - 1"
proof -
  have "unat (clock s) < 2 ^ 64" using unat_bound [of "clock s"] by simp
  moreover have "clock s = - 1 \<longleftrightarrow> unat (clock s) = 2 ^ 64 - 1"
    by (subst word_unat_eq_iff) (simp add: unat_minus_one_len)
  ultimately show ?thesis by (auto simp: shard_ticks_def)
qed

lemma shard_ticks_Suc: "clock s \<noteq> - 1 \<Longrightarrow> shard_ticks s = Suc (shard_ticks (s\<lparr>clock := clock s + 1\<rparr>))"
  using shard_ticks_pos [of s] by (auto simp: shard_ticks_def unat_plus_one)

lemma lookup_miss: "key \<notin> set (keys (cache s)) \<Longrightarrow> lookup key s = (None, s)"
  using map_of_eq_None_iff [of "cache s" key] by (simp add: lookup_def)

lemma lookup_hit:
  assumes "map_of (cache s) key = Some e"
  shows "lookup key s =
    (Some (ap e), s\<lparr>cache := AList.update key (e\<lparr>last_used := clock s + 1\<rparr>) (cache s), clock := clock s + 1\<rparr>)"
  using assms by (simp add: lookup_def Let_def)

lemma lookup_inv:
  assumes "shard_inv s" "clock s \<noteq> - 1" "map_of (cache s) key = Some e"
  shows "shard_inv (snd (lookup key s)) \<and> recency (cache (snd (lookup key s))) = lru_touch key (recency (cache s))"
proof -
  have "key \<in> set (keys (cache s))" using assms(3) by (metis map_of_eq_None_iff option.simps(3) set_map)
  then show ?thesis
    using assms recency_update [OF shard_inv_map_inv [OF assms(1,2)]]
      shard_inv_update [OF shard_inv_map_inv [OF assms(1,2)]]
    by (auto simp: lookup_hit shard_inv_def)
qed

text \<open>Making room: what the \<open>map.len() >= PER_SHARD_MAX\<close> test leaves behind.\<close>

lemma PER_SHARD_MAX_pos [simp]: "0 < PER_SHARD_MAX" "PER_SHARD_MAX \<noteq> 0"
  by (simp_all add: PER_SHARD_MAX_def MAX_ENTRIES_def SHARDS_def)

lemma make_room:
  fixes m :: "'a shard_map" and st :: stats
  assumes "map_inv now m"
  defines "r \<equiv> if PER_SHARD_MAX \<le> length m then fst (evict_one m st) else m"
  shows "map_inv now r \<and> length r < PER_SHARD_MAX \<and>
    recency r = (if PER_SHARD_MAX \<le> length m then tl (recency m) else recency m) \<and>
    (\<forall>k \<in> set (keys r). map_of r k = map_of m k)"
proof (cases "PER_SHARD_MAX \<le> length m")
  case True
  then have "m \<noteq> []" by auto
  from evict_one_spec [OF assms(1) this, of st] obtain k c where
    e: "fst (evict_one m st) = AList.delete k m" "recency m = k # recency (AList.delete k m)"
      "Suc (length (AList.delete k m)) = length m" by (metis fst_conv)
  then show ?thesis
    using True assms(1) map_inv_delete [OF assms(1), of k]
    by (auto simp: r_def delete_keys map_inv_def map_of_delete)
qed (use assms in \<open>auto simp: map_inv_def\<close>)

lemma Shard_insert_spec:
  assumes "shard_inv s" "clock s \<noteq> - 1"
  shows "shard_inv (fst (Shard_insert k v s st)) \<and> clock (fst (Shard_insert k v s st)) = clock s + 1 \<and>
    recency (cache (fst (Shard_insert k v s st))) = lru_insert PER_SHARD_MAX k (recency (cache s)) \<and>
    map_of (cache (fst (Shard_insert k v s st))) k = Some \<lparr>ap = v, last_used = clock s + 1\<rparr>"
proof -
  let ?m = "if PER_SHARD_MAX \<le> length (cache s) then fst (evict_one (cache s) st) else cache s"
  have eq: "fst (Shard_insert k v s st) =
      s\<lparr>cache := AList.update k \<lparr>ap = v, last_used = clock s + 1\<rparr> ?m, clock := clock s + 1\<rparr>"
    by (simp add: Shard_insert_def case_prod_beta Let_def)
  have m: "map_inv (clock s + 1) ?m" "length ?m < PER_SHARD_MAX"
    "recency ?m = (if PER_SHARD_MAX \<le> length (cache s) then tl (recency (cache s)) else recency (cache s))"
    using make_room [OF shard_inv_map_inv [OF assms], of st] by auto
  show ?thesis
    using shard_inv_update [OF m(1), of "\<lparr>ap = v, last_used = clock s + 1\<rparr>" k]
      recency_update [OF m(1), of "\<lparr>ap = v, last_used = clock s + 1\<rparr>" k] m(2,3)
    by (simp add: eq lru_insert_def shard_inv_def update_conv' del: if_split_asm)
qed

text \<open>A shard keeps the contract, whatever the counters are.\<close>

interpretation shard_lru: lru_cache shard_inv shard_ticks "\<lambda>s. recency (cache s)" lookup
  "\<lambda>k v s. fst (Shard_insert k v s st)" PER_SHARD_MAX for st
proof unfold_locales
  fix s :: "'a shard" and k :: page_key and v :: 'a
  show "shard_inv s \<Longrightarrow> distinct (recency (cache s)) \<and> length (recency (cache s)) \<le> PER_SHARD_MAX"
    by (simp add: shard_inv_def distinct_recency)
  show "k \<notin> set (recency (cache s)) \<Longrightarrow> lookup k s = (None, s)"
    by (simp add: lookup_miss)
  assume s: "shard_inv s" "0 < shard_ticks s"
  then have c: "clock s \<noteq> - 1" by (simp add: shard_ticks_pos)
  show "fst (lookup k (fst (Shard_insert k v s st))) = Some v"
    using Shard_insert_spec [OF s(1) c, of k v st] by (simp add: lookup_hit)
  show "shard_inv (fst (Shard_insert k v s st)) \<and>
      shard_ticks s = Suc (shard_ticks (fst (Shard_insert k v s st))) \<and>
      recency (cache (fst (Shard_insert k v s st))) = lru_insert PER_SHARD_MAX k (recency (cache s))"
    using Shard_insert_spec [OF s(1) c, of k v st] shard_ticks_Suc [OF c] by (simp add: shard_ticks_def)
  assume "k \<in> set (recency (cache s))"
  then obtain e where e: "map_of (cache s) k = Some e"
    by (metis recency_set(1) map_of_eq_None_iff not_None_eq set_map)
  then show "fst (lookup k s) \<noteq> None \<and> shard_inv (snd (lookup k s)) \<and>
      shard_ticks s = Suc (shard_ticks (snd (lookup k s))) \<and>
      recency (cache (snd (lookup k s))) = lru_touch k (recency (cache s))"
    using lookup_inv [OF s(1) c e] shard_ticks_Suc [OF c] by (simp add: lookup_hit shard_ticks_def)
qed

section \<open>The quota loop\<close>

lemma enabled_simps [simp]:
  "enabled (dec_live st) = enabled st" "enabled (inc_live st) = enabled st"
  by (simp_all add: dec_live_def inc_live_def Let_def)

lemma count_simps [simp]:
  "enabled (count evicts_update st) = enabled st" "live (count evicts_update st) = live st"
  "enabled (count quota_retries_update st) = enabled st" "live (count quota_retries_update st) = live st"
  "enabled (count create_fails_update st) = enabled st" "live (count create_fails_update st) = live st"
  "enabled (count creates_update st) = enabled st" "live (count creates_update st) = live st"
  "enabled (count hits_update st) = enabled st" "live (count hits_update st) = live st"
  "enabled (count bad_range_update st) = enabled st" "live (count bad_range_update st) = live st"
  "enabled (count not_bound_update st) = enabled st" "live (count not_bound_update st) = live st"
  by (simp_all add: count_def)

text \<open>
  The loss of \<open>n\<close> entries: the \<open>n\<close> oldest keys go, the others keep their entries, and the live
  counter follows.
\<close>

definition evicted :: "nat \<Rightarrow> 'a shard_map \<Rightarrow> stats \<Rightarrow> 'a shard_map \<Rightarrow> stats \<Rightarrow> bool" where
  "evicted n m st m' st' \<longleftrightarrow>
     recency m' = drop n (recency m) \<and> n \<le> length m \<and>
     map_of m' \<subseteq>\<^sub>m map_of m \<and>
     enabled st' = enabled st \<and> (enabled st \<longrightarrow> live st' = live st - of_nat n)"

lemma evicted_0: "enabled st' = enabled st \<Longrightarrow> live st' = live st \<Longrightarrow> evicted 0 m st m st'"
  by (simp add: evicted_def)

lemma evicted_keys: "evicted n m st m' st' \<Longrightarrow> set (keys m') \<subseteq> set (keys m)"
  using set_drop_subset [of n "recency m"] recency_set(1) by (metis evicted_def)

lemma evicted_length: "evicted n m st m' st' \<Longrightarrow> length m' = length m - n"
  by (metis evicted_def length_drop recency_set(2))

lemma evicted_trans:
  assumes "evicted n m st m' st'" "evicted n' m' st' m'' st''"
  shows "evicted (n + n') m st m'' st''"
  using assms map_le_trans evicted_length [OF assms(1)] by (auto simp: evicted_def add.commute)

lemma evict_one_evicted:
  assumes "map_inv now m" "m \<noteq> []"
  shows "\<exists>k a. evict_one m st = (AList.delete k m, dec_live (count evicts_update st), Some a) \<and>
    evicted 1 m st (AList.delete k m) (dec_live (count evicts_update st)) \<and>
    map_inv now (AList.delete k m)"
proof (rule evict_one_spec [OF assms, of st])
  fix k c
  assume e: "evict_one m st = (AList.delete k m, dec_live (count evicts_update st), Some (ap c))"
    "recency m = k # recency (AList.delete k m)"
    "Suc (length (AList.delete k m)) = length m"
  then have "evicted 1 m st (AList.delete k m) (dec_live (count evicts_update st))"
    by (auto simp: evicted_def dec_live_def delete_conv' map_le_def)
  with e(1) map_inv_delete [OF assms(1), of k] show ?thesis by (intro exI conjI)
qed

lemma create_loop_spec:
  assumes "create_loop api held d base len evictions m st p = (r, m', st', p')" "map_inv now m"
  shows "\<exists>n. evicted n m st m' st' \<and> map_inv now m' \<and> n \<le> PER_SHARD_MAX - evictions \<and>
    (case r of
       Inr a \<Rightarrow> ap_len a = ucast (ucast len :: u32) \<and> ap_device a = d \<and> ap_alive a = None
     | Inl e \<Rightarrow> e = ERROR_NOT_ENOUGH_QUOTA \<longrightarrow> m' = [] \<or> n = PER_SHARD_MAX - evictions)"
  using assms
proof (induction api held d base len evictions m st p rule: create_loop.induct)
  case (1 api held d base len evictions m st p)
  obtain c q where cr: "create_aperture api d base (ucast len) False p = (c, q)" by force
  show ?case
  proof (cases c)
    case (Inr a)
    with 1 cr have "r = Inr a" "m' = m" "st' = st" by (auto simp: create_loop.simps)
    with 1 cr Inr show ?thesis
      using create_aperture_Inr [of api d base "ucast len" False p a q]
      by (auto intro!: exI [of _ 0] evicted_0)
  next
    case (Inl e)
    show ?thesis
    proof (cases "e \<noteq> ERROR_NOT_ENOUGH_QUOTA \<or> m = [] \<or> PER_SHARD_MAX \<le> evictions")
      case True
      with 1 cr Inl have "r = Inl e" "m' = m" "st' = count create_fails_update st"
        by (auto simp: create_loop.simps)
      with 1 True show ?thesis by (auto intro!: exI [of _ 0] evicted_0)
    next
      case False
      let ?st = "count quota_retries_update st"
      have "\<exists>k a. evict_one m ?st = (AList.delete k m, dec_live (count evicts_update ?st), Some a) \<and>
          evicted 1 m ?st (AList.delete k m) (dec_live (count evicts_update ?st)) \<and>
          map_inv now (AList.delete k m)"
        using False by (intro evict_one_evicted [OF 1(3)]) simp
      then obtain k a where ev:
        "evict_one m ?st = (AList.delete k m, dec_live (count evicts_update ?st), Some a)"
        "evicted 1 m ?st (AList.delete k m) (dec_live (count evicts_update ?st))"
        "map_inv now (AList.delete k m)"
        by (elim exE conjE)
      have "create_loop api held d base len (evictions + 1) (AList.delete k m)
          (dec_live (count evicts_update ?st)) (drop_arc api held (Some a) q) = (r, m', st', p')"
        using 1(2) False by (simp add: create_loop.simps [of _ _ _ _ _ evictions] cr Inl ev(1))
      from 1(1) [OF cr [symmetric] Inl False ev(1) [symmetric] refl this ev(3)] obtain n where n:
        "evicted n (AList.delete k m) (dec_live (count evicts_update ?st)) m' st'" "map_inv now m'"
        "n \<le> PER_SHARD_MAX - (evictions + 1)"
        "case r of Inr a \<Rightarrow> ap_len a = ucast (ucast len :: u32) \<and> ap_device a = d \<and> ap_alive a = None
         | Inl e \<Rightarrow> e = ERROR_NOT_ENOUGH_QUOTA \<longrightarrow> m' = [] \<or> n = PER_SHARD_MAX - (evictions + 1)"
        by (elim exE conjE)
      have "evicted 1 m st (AList.delete k m) (dec_live (count evicts_update ?st))"
        using ev(2) by (simp add: evicted_def)
      from evicted_trans [OF this n(1)] n(2-4) False show ?thesis
        by (intro exI [of _ "1 + n"]) (auto split: sum.splits)
    qed
  qed
qed

lemma evict_if_full_spec:
  assumes "evict_if_full api held m st p = (m', st', p')" "map_inv now m"
  shows "\<exists>n \<le> 1. evicted n m st m' st' \<and> map_inv now m' \<and> length m' < PER_SHARD_MAX"
proof (cases "PER_SHARD_MAX \<le> length m")
  case True
  then have "m \<noteq> []" by auto
  from evict_one_evicted [OF assms(2) this, of st] obtain k a where
    "evict_one m st = (AList.delete k m, dec_live (count evicts_update st), Some a)"
    "evicted 1 m st (AList.delete k m) (dec_live (count evicts_update st))"
    "map_inv now (AList.delete k m)" by (elim exE conjE)
  with assms True show ?thesis
    using evicted_length by (fastforce simp: evict_if_full_def map_inv_def)
qed (use assms in \<open>auto simp: evict_if_full_def intro!: exI [of _ 0] evicted_0\<close>)

section \<open>The miss path\<close>

lemma get_or_create_hit:
  "map_of (cache s) (base, len) = Some c \<Longrightarrow>
   get_or_create api held d base len err_addr alive s st p =
     (Inr (ap c), s\<lparr>cache := AList.update (base, len) (c\<lparr>last_used := clock s + 1\<rparr>) (cache s), clock := clock s + 1\<rparr>,
      count hits_update st, p)"
  by (simp add: get_or_create_def Let_def)

text \<open>The counters after a successful creation.\<close>

definition created :: "u64 \<Rightarrow> stats \<Rightarrow> stats" where
  "created len st =
     (let st = count creates_update st
      in inc_live (if enabled st then st\<lparr>max_span := max (max_span st) len\<rparr> else st))"

lemma created_simps [simp]:
  "enabled (created len st) = enabled st" "enabled st \<Longrightarrow> live (created len st) = live st + 1"
  by (simp_all add: created_def Let_def inc_live_def)

lemma get_or_create_miss:
  assumes "map_of (cache s) (base, len) = None" "shard_inv s" "clock s \<noteq> - 1"
    "get_or_create api held d base len err_addr alive s st p = (r, s', st', p')"
  shows "\<exists>n m st1. evicted n (cache s) st m st1 \<and> map_inv (clock s + 1) m \<and> length m < PER_SHARD_MAX \<and>
    (case r of
       Inr a \<Rightarrow> s' = \<lparr>cache = AList.update (base, len) \<lparr>ap = a, last_used = clock s + 1\<rparr> m, clock = clock s + 1\<rparr> \<and>
         st' = created len st1 \<and>
         ap_len a = ucast (ucast len :: u32) \<and> ap_device a = d \<and> ap_alive a = Some alive
     | Inl (addr, err) \<Rightarrow> s' = \<lparr>cache = m, clock = clock s + 1\<rparr> \<and> st' = st1 \<and> addr = err_addr \<and>
         (\<exists>e. err = ApertureFailed e \<and> (e = ERROR_NOT_ENOUGH_QUOTA \<longrightarrow> m = [])))"
proof -
  obtain m1 st1 p1 where full: "evict_if_full api held (cache s) st p = (m1, st1, p1)"
    by (metis prod_cases3)
  from evict_if_full_spec [OF full shard_inv_map_inv [OF assms(2,3)]] obtain n1 where
    n1: "evicted n1 (cache s) st m1 st1" "map_inv (clock s + 1) m1" "length m1 < PER_SHARD_MAX" by blast
  obtain q m2 st2 p2 where loop: "create_loop api held d base len 0 m1 st1 p1 = (q, m2, st2, p2)"
    by (metis prod_cases4)
  from create_loop_spec [OF loop n1(2), unfolded diff_zero] obtain n2 where
    n2: "evicted n2 m1 st1 m2 st2" "map_inv (clock s + 1) m2" "n2 \<le> PER_SHARD_MAX"
    "case q of Inr a \<Rightarrow> ap_len a = ucast (ucast len :: u32) \<and> ap_device a = d \<and> ap_alive a = None
     | Inl e \<Rightarrow> e = ERROR_NOT_ENOUGH_QUOTA \<longrightarrow> m2 = [] \<or> n2 = PER_SHARD_MAX"
    by (elim exE conjE)
  have len2: "length m2 = length m1 - n2" "n2 \<le> length m1"
    using evicted_length [OF n2(1)] n2(1) by (simp_all add: evicted_def)
  have ev: "evicted (n1 + n2) (cache s) st m2 st2" using n1(1) n2(1) by (rule evicted_trans)
  have eq: "get_or_create api held d base len err_addr alive s st p =
    (case q of
       Inl e \<Rightarrow> (Inl (err_addr, ApertureFailed e), s\<lparr>clock := clock s + 1, cache := m2\<rparr>, st2, p2)
     | Inr a \<Rightarrow> (Inr (set_liveness alive a),
         s\<lparr>clock := clock s + 1,
           cache := AList.update (base, len) \<lparr>ap = set_liveness alive a, last_used = clock s + 1\<rparr> m2\<rparr>,
         created len st2, p2))"
    using assms(1) by (simp add: get_or_create_def full loop Let_def created_def split: sum.split)
  have "length m2 < PER_SHARD_MAX" using len2 n1(3) by linarith
  with ev n2 len2 n1(3) assms(4) show ?thesis
    by (intro exI [of _ "n1 + n2"] exI [of _ m2] exI [of _ st2])
      (auto simp: eq set_liveness_def split: sum.splits)
qed

text \<open>
  C12. The miss path on every branch. It keeps the invariant of the shard and ticks its clock once. A
  key that another thread mapped in the meantime is adopted: no platform call, the entry becomes the
  youngest. Otherwise the oldest entries are evicted, in recency order and each surviving entry
  unchanged, and either the new aperture, stamped with the liveness flag, becomes the youngest
  entry, or the error is reported at the address of the access; a quota error is reported only after
  the whole shard was evicted.
\<close>

theorem get_or_create_correct:
  assumes "shard_inv s" "clock s \<noteq> - 1"
    and "get_or_create api held d base len err_addr alive s st p = (r, s', st', p')"
  shows "shard_inv s' \<and> clock s' = clock s + 1 \<and>
    (case map_of (cache s) (base, len) of
       Some c \<Rightarrow> r = Inr (ap c) \<and> p' = p \<and> recency (cache s') = lru_touch (base, len) (recency (cache s))
     | None \<Rightarrow> \<exists>n m. recency m = drop n (recency (cache s)) \<and> map_of m \<subseteq>\<^sub>m map_of (cache s) \<and>
         (case r of
            Inr a \<Rightarrow> map_of (cache s') = (map_of m)((base, len) \<mapsto> \<lparr>ap = a, last_used = clock s'\<rparr>) \<and>
              recency (cache s') = recency m @ [(base, len)] \<and>
              ap_len a = ucast (ucast len :: u32) \<and> ap_device a = d \<and> ap_alive a = Some alive
          | Inl (addr, err) \<Rightarrow> cache s' = m \<and> addr = err_addr \<and>
              (\<exists>e. err = ApertureFailed e \<and> (e = ERROR_NOT_ENOUGH_QUOTA \<longrightarrow> m = []))))"
proof (cases "map_of (cache s) (base, len)")
  case (Some c)
  have "shard_inv (snd (lookup (base, len) s)) \<and>
      recency (cache (snd (lookup (base, len) s))) = lru_touch (base, len) (recency (cache s))"
    using lookup_inv [OF assms(1,2) Some] .
  with Some assms(3) show ?thesis by (auto simp: get_or_create_hit lookup_hit)
next
  case None
  from get_or_create_miss [OF None assms] obtain n m st1 where
    m: "evicted n (cache s) st m st1" "map_inv (clock s + 1) m" "length m < PER_SHARD_MAX" and
    r: "case r of
       Inr a \<Rightarrow> s' = \<lparr>cache = AList.update (base, len) \<lparr>ap = a, last_used = clock s + 1\<rparr> m, clock = clock s + 1\<rparr> \<and>
         st' = created len st1 \<and>
         ap_len a = ucast (ucast len :: u32) \<and> ap_device a = d \<and> ap_alive a = Some alive
     | Inl (addr, err) \<Rightarrow> s' = \<lparr>cache = m, clock = clock s + 1\<rparr> \<and> st' = st1 \<and> addr = err_addr \<and>
         (\<exists>e. err = ApertureFailed e \<and> (e = ERROR_NOT_ENOUGH_QUOTA \<longrightarrow> m = []))"
    by (elim exE conjE)
  have fresh: "(base, len) \<notin> set (keys m)"
    using evicted_keys [OF m(1)] None by (auto simp: map_of_eq_None_iff)
  have "shard_inv s' \<and> clock s' = clock s + 1"
    using r m(2,3) by (cases r) (auto simp: map_inv_shard_inv shard_inv_update)
  moreover have "recency m = drop n (recency (cache s)) \<and> map_of m \<subseteq>\<^sub>m map_of (cache s)"
    using m(1) by (simp add: evicted_def)
  moreover have "remove1 (base, len) (recency m) = recency m"
    using fresh by (intro remove1_idem) simp
  ultimately show ?thesis
    using r None recency_update [OF m(2)]
    by (intro conjI; simp; intro exI [of _ n] exI [of _ m])
      (auto simp: update_conv' lru_touch_def split: sum.splits prod.splits)
qed

section \<open>Recency\<close>



end
