(* ===== verification/Aperture_Mem.thy ===== *)
theory Aperture_Mem
  imports Aperture_Cache
begin

text \<open>
  The whole \<open>HdvApertureMem\<close>: its invariant across the sixteen shards, the address arithmetic of
  \<open>with_mapping\<close>, its error branches, and the hasher and ceiling helpers of the same file.
\<close>

section \<open>Page arithmetic\<close>

lemma unat_PAGE: "unat PAGE = 4096"
  by (simp add: PAGE_def)

lemma unat_page_base: "unat (page_base addr) = unat addr div 4096 * 4096"
proof -
  have d: "unat (addr div PAGE) = unat addr div 4096" by (simp add: unat_div unat_PAGE)
  have "unat addr div 4096 * 4096 < 2 ^ 64"
    using unat_bound [of addr] by (intro le_less_trans [OF div_times_less_eq_dividend]) simp
  then show ?thesis
    using d unat_mult_no_overflow [of "addr div PAGE" PAGE] by (simp add: page_base_def unat_PAGE)
qed

lemma page_base_le: "page_base addr \<le> addr"
  by (simp add: word_le_nat_alt unat_page_base)

lemma unat_page_offset: "unat (addr - page_base addr) = unat addr mod 4096"
  using page_base_le [of addr] by (simp add: unat_sub word_le_nat_alt unat_page_base minus_div_mult_eq_mod)

lemma ceil_page:
  fixes n :: nat
  shows "(n + 4095) div 4096 = n div 4096 + (if n mod 4096 = 0 then 0 else 1)"
proof -
  have "n = 4096 * (n div 4096) + n mod 4096" "n mod 4096 < 4096" by simp_all
  then have "4096 * (n div 4096 + (if n mod 4096 = 0 then 0 else 1)) \<le> n + 4095"
    "n + 4095 < 4096 * Suc (n div 4096 + (if n mod 4096 = 0 then 0 else 1))"
    by (cases "n mod 4096 = 0"; simp; linarith)+
  then show ?thesis by (rule div_nat_eqI)
qed

lemma ceil_page_bounds:
  fixes n :: nat
  shows "n \<le> (n + 4095) div 4096 * 4096" "(n + 4095) div 4096 * 4096 < n + 4096"
proof -
  have "n + 4095 = (n + 4095) div 4096 * 4096 + (n + 4095) mod 4096" "(n + 4095) mod 4096 < 4096"
    by simp_all
  then show "n \<le> (n + 4095) div 4096 * 4096" "(n + 4095) div 4096 * 4096 < n + 4096" by linarith+
qed

lemma unat_div_ceil_page:
  assumes "unat w \<le> 2 ^ 64 - 4096"
  shows "unat (div_ceil w PAGE * PAGE) = (unat w + 4095) div 4096 * 4096"
proof -
  let ?n = "unat w"
  have "unat (w mod PAGE) = ?n mod 4096" "unat (w div PAGE) = ?n div 4096"
    by (simp_all add: unat_mod unat_div unat_PAGE)
  moreover have "unat (w div PAGE + 1) = ?n div 4096 + 1"
    using \<open>unat (w div PAGE) = _\<close> assms by (subst unat_add_no_overflow) (simp_all add: unat_PAGE)
  ultimately have "unat (div_ceil w PAGE) = (?n + 4095) div 4096"
    by (simp add: ceil_page div_ceil_def Let_def word_less_nat_alt)
  moreover have "(?n + 4095) div 4096 * 4096 < 2 ^ 64"
    using assms ceil_page_bounds(2) [of ?n] by simp
  ultimately show ?thesis
    by (simp add: unat_mult_no_overflow unat_PAGE)
qed

text \<open>The span of an access that passed the range checks, on numbers.\<close>

lemma unat_page_span:
  assumes "unat addr + unat len < 2 ^ 64" "addr + len \<le> limit" "unat limit \<le> 2 ^ 64 - 4096"
  shows "unat (page_span limit (page_base addr) (addr + len)) =
    min ((unat addr mod 4096 + unat len + 4095) div 4096 * 4096) (unat limit - unat (page_base addr))"
proof -
  have sum: "unat (addr + len) = unat addr + unat len" using assms(1) by (simp add: unat_add_no_overflow)
  have le: "page_base addr \<le> addr + len"
    using page_base_le [of addr] by (simp add: word_le_nat_alt sum)
  have e: "unat (addr + len - page_base addr) = unat addr mod 4096 + unat len"
    using le page_base_le [of addr] by (simp add: unat_sub sum unat_page_base)
      (metis add.commute add_diff_assoc2 div_times_less_eq_dividend minus_div_mult_eq_mod)
  have "unat addr mod 4096 + unat len \<le> 2 ^ 64 - 4096"
    using e assms(2,3) le unat_sub [OF le] by (simp add: word_le_nat_alt)
  then have "unat (div_ceil (addr + len - page_base addr) PAGE * PAGE) =
      (unat addr mod 4096 + unat len + 4095) div 4096 * 4096"
    by (simp add: unat_div_ceil_page e)
  moreover have "unat (limit - page_base addr) = unat limit - unat (page_base addr)"
    using le assms(2) by (intro unat_sub) simp
  ultimately show ?thesis by (simp add: page_span_def min_def word_le_nat_alt)
qed

text \<open>The access lies inside its span, and the span adds less than two pages to it.\<close>

lemma page_span_covers:
  assumes "unat addr + unat len < 2 ^ 64" "addr + len \<le> limit" "unat limit \<le> 2 ^ 64 - 4096"
  shows "unat addr mod 4096 + unat len \<le> unat (page_span limit (page_base addr) (addr + len))"
    and "unat (page_span limit (page_base addr) (addr + len)) < unat addr mod 4096 + unat len + 4096"
proof -
  have "unat addr + unat len \<le> unat limit"
    using assms(1,2) by (simp add: word_le_nat_alt unat_add_no_overflow)
  then have "unat addr mod 4096 + unat len \<le> unat limit - unat (page_base addr)"
    by (simp add: unat_page_base) (metis add_diff_assoc2 diff_le_mono div_times_less_eq_dividend minus_div_mult_eq_mod)
  then show "unat addr mod 4096 + unat len \<le> unat (page_span limit (page_base addr) (addr + len))"
    and "unat (page_span limit (page_base addr) (addr + len)) < unat addr mod 4096 + unat len + 4096"
    using ceil_page_bounds [of "unat addr mod 4096 + unat len"]
    unfolding unat_page_span [OF assms] by (auto simp: min_less_iff_disj)
qed

section \<open>The invariant of the cache\<close>

definition entry_ok :: "flag \<Rightarrow> nat \<Rightarrow> page_key \<Rightarrow> aperture cached_entry \<Rightarrow> bool" where
  "entry_ok alive i k c \<longleftrightarrow>
     shard_index (fst k) = i \<and> ap_alive (ap c) = Some alive \<and>
     ap_len (ap c) = ucast (ucast (snd k) :: u32)"

definition shard_ok :: "flag \<Rightarrow> nat \<Rightarrow> aperture shard \<Rightarrow> bool" where
  "shard_ok alive i s \<longleftrightarrow>
     shard_inv s \<and> (\<forall>k c. map_of (cache s) k = Some c \<longrightarrow> entry_ok alive i k c)"

definition entries :: "hdv_aperture_mem \<Rightarrow> nat" where
  "entries g = sum_list (map (\<lambda>s. length (cache s)) (shards g))"

definition mem_inv :: "hdv_aperture_mem \<Rightarrow> bool" where
  "mem_inv g \<longleftrightarrow>
     length (shards g) = SHARDS \<and> (\<forall>i < SHARDS. shard_ok (mem_alive g) i (shards g ! i)) \<and>
     (enabled (mem_stats g) \<longrightarrow> live (mem_stats g) = of_nat (entries g))"

text \<open>No shard's clock is at its last tick.\<close>

definition clocks_ok :: "hdv_aperture_mem \<Rightarrow> bool" where
  "clocks_ok g \<longleftrightarrow> (\<forall>s \<in> set (shards g). clock s \<noteq> - 1)"

lemma shard_index_less: "shard_index base < SHARDS"
proof -
  have "unat (drop_bit 12 base AND of_nat (SHARDS - 1)) \<le> unat (of_nat (SHARDS - 1) :: u64)"
    using word_and_le1 [of "drop_bit 12 base" "of_nat (SHARDS - 1)"] by (simp only: word_le_nat_alt and.commute)
  then show ?thesis by (simp add: shard_index_def SHARDS_def)
qed

lemma sum_list_le_length: "(\<And>x. x \<in> set xs \<Longrightarrow> f x \<le> c) \<Longrightarrow> sum_list (map f xs) \<le> length xs * (c :: nat)"
  by (induction xs) (auto simp: add_le_mono)

text \<open>Replacing a shard and its share of the live counter keeps the invariant.\<close>

lemma mem_inv_put_shard:
  assumes "mem_inv g" "i < SHARDS" "shard_ok (mem_alive g) i s"
    and "enabled st = enabled (mem_stats g)"
    and "enabled st \<Longrightarrow> live st + of_nat (length (cache (shards g ! i))) = live (mem_stats g) + of_nat (length (cache s))"
  shows "mem_inv (put_shard i s st g)"
proof -
  have "entries (put_shard i s st g) + length (cache (shards g ! i)) = entries g + length (cache s)"
    using sum_list_list_update [of i "shards g" "\<lambda>s. length (cache s)" s] assms(1,2)
    by (simp add: entries_def put_shard_def mem_inv_def)
  then have "(of_nat (entries (put_shard i s st g)) :: u64) + of_nat (length (cache (shards g ! i))) =
      of_nat (entries g) + of_nat (length (cache s))"
    by (metis of_nat_add)
  then show ?thesis
    using assms by (auto simp: mem_inv_def put_shard_def nth_list_update) (metis add_right_cancel)
qed

lemma entries_bound: "mem_inv g \<Longrightarrow> entries g \<le> MAX_ENTRIES"
proof -
  assume g: "mem_inv g"
  then have "length (cache s) \<le> PER_SHARD_MAX" if "s \<in> set (shards g)" for s
    using that by (auto simp: mem_inv_def shard_ok_def shard_inv_def in_set_conv_nth)
  then have "entries g \<le> length (shards g) * PER_SHARD_MAX"
    unfolding entries_def by (rule sum_list_le_length)
  with g show ?thesis by (simp add: mem_inv_def SHARDS_def PER_SHARD_MAX_def MAX_ENTRIES_def)
qed

section \<open>Acquiring an aperture\<close>

lemma shard_ok_lookup:
  assumes "shard_ok alive i s" "clock s \<noteq> - 1" "map_of (cache s) k = Some e"
  shows "shard_ok alive i (snd (lookup k s))" "length (cache (snd (lookup k s))) = length (cache s)"
    "entry_ok alive i k e"
proof -
  have "k \<in> set (keys (cache s))" using assms(3) by (metis map_of_eq_None_iff option.simps(3) set_map)
  then show "length (cache (snd (lookup k s))) = length (cache s)"
    using assms(3) by (simp add: lookup_hit length_update_in)
  show "entry_ok alive i k e" using assms(1,3) unfolding shard_ok_def by blast
  then have "entry_ok alive i j c" if "map_of (cache (snd (lookup k s))) j = Some c" for j c
    using that assms(1,3) unfolding shard_ok_def
    by (cases "j = k") (auto simp: lookup_hit update_conv' entry_ok_def simp del: split_paired_All)
  then show "shard_ok alive i (snd (lookup k s))"
    using lookup_inv [OF _ assms(2,3)] assms(1) unfolding shard_ok_def by blast
qed

lemma shard_ok_get_or_create:
  assumes "shard_ok alive i s" "clock s \<noteq> - 1" "shard_index base = i"
    "map_of (cache s) (base, len) = None"
    "get_or_create api held d base len err_addr alive s st p = (r, s', st', p')"
  shows "shard_ok alive i s'" "enabled st' = enabled st"
    "enabled st \<Longrightarrow> live st' + of_nat (length (cache s)) = live st + of_nat (length (cache s'))"
    "r = Inr a \<Longrightarrow> ap_len a = ucast (ucast len :: u32) \<and> ap_device a = d"
    "r = Inl (ad, e) \<Longrightarrow> ad = err_addr \<and> e \<noteq> NotBound \<and> e \<noteq> BadRange"
proof -
  have s: "shard_inv s" using assms(1) by (simp add: shard_ok_def)
  from get_or_create_miss [OF assms(4) s assms(2,5)] obtain n m st1 where
    m: "evicted n (cache s) st m st1" "map_inv (clock s + 1) m" "length m < PER_SHARD_MAX" and
    r: "case r of
       Inr a \<Rightarrow> s' = \<lparr>cache = AList.update (base, len) \<lparr>ap = a, last_used = clock s + 1\<rparr> m, clock = clock s + 1\<rparr> \<and>
         st' = created len st1 \<and>
         ap_len a = ucast (ucast len :: u32) \<and> ap_device a = d \<and> ap_alive a = Some alive
     | Inl (addr, err) \<Rightarrow> s' = \<lparr>cache = m, clock = clock s + 1\<rparr> \<and> st' = st1 \<and> addr = err_addr \<and>
         (\<exists>e. err = ApertureFailed e \<and> (e = ERROR_NOT_ENOUGH_QUOTA \<longrightarrow> m = []))"
    by (elim exE conjE)
  have len: "length m = length (cache s) - n" "n \<le> length (cache s)"
    using evicted_length [OF m(1)] m(1) by (simp_all add: evicted_def)
  have fresh: "(base, len) \<notin> set (keys m)"
    using evicted_keys [OF m(1)] assms(4) by (auto simp: map_of_eq_None_iff)
  have "map_of m \<subseteq>\<^sub>m map_of (cache s)" using m(1) by (simp add: evicted_def)
  then have old: "map_of m k = Some c \<Longrightarrow> entry_ok alive i k c" for k c
    using assms(1) unfolding shard_ok_def by (metis domI map_le_def)
  have st1: "enabled st1 = enabled st" "enabled st \<Longrightarrow> live st1 = live st - of_nat n"
    using m(1) by (simp_all add: evicted_def)
  show "shard_ok alive i s'"
    using r old m(2,3) assms(3)
    by (cases r) (auto simp: shard_ok_def shard_inv_update map_inv_shard_inv update_conv' entry_ok_def split: if_splits)
  show "enabled st' = enabled st" using r st1 by (cases r) auto
  show "enabled st \<Longrightarrow> live st' + of_nat (length (cache s)) = live st + of_nat (length (cache s'))"
    using r st1 len fresh by (cases r) (auto simp: length_update_fresh of_nat_diff)
  show "r = Inr a \<Longrightarrow> ap_len a = ucast (ucast len :: u32) \<and> ap_device a = d" using r by auto
  show "r = Inl (ad, e) \<Longrightarrow> ad = err_addr \<and> e \<noteq> NotBound \<and> e \<noteq> BadRange" using r by auto
qed

lemma acquire_spec:
  assumes "mem_inv g" "clocks_ok g" "acquire api held d base span addr g p = (r, g', p')"
  shows "mem_inv g'" "mem_alive g' = mem_alive g" "max_address g' = max_address g" "mem_handle g' = mem_handle g"
    "r = Inr a \<Longrightarrow> ap_len a = ucast (ucast span :: u32)"
    "r = Inl (ad, e) \<Longrightarrow> ad = addr \<and> e \<noteq> NotBound \<and> e \<noteq> BadRange"
proof -
  let ?i = "shard_index base" let ?s = "shards g ! ?i"
  have i: "?i < SHARDS" by (rule shard_index_less)
  then have s: "shard_ok (mem_alive g) ?i ?s" "clock ?s \<noteq> - 1"
    using assms(1,2) by (auto simp: mem_inv_def clocks_ok_def)
  show "mem_alive g' = mem_alive g" "max_address g' = max_address g" "mem_handle g' = mem_handle g"
    using assms(3) by (auto simp: acquire_def put_shard_def Let_def split: prod.splits option.splits)
  have "mem_inv g' \<and> (r = Inr a \<longrightarrow> ap_len a = ucast (ucast span :: u32)) \<and>
    (r = Inl (ad, e) \<longrightarrow> ad = addr \<and> e \<noteq> NotBound \<and> e \<noteq> BadRange)"
  proof (cases "map_of (cache ?s) (base, span)")
    case (Some c)
    note ok = shard_ok_lookup [OF s Some]
    obtain s' where l: "lookup (base, span) ?s = (Some (ap c), s')" "s' = snd (lookup (base, span) ?s)"
      using Some by (simp add: lookup_hit)
    have "mem_inv (put_shard ?i s' (count hits_update (mem_stats g)) g)"
      using ok l(2) by (intro mem_inv_put_shard [OF assms(1) i]) simp_all
    then show ?thesis using assms(3) l(1) ok(3) by (auto simp: acquire_def Let_def entry_ok_def)
  next
    case None
    obtain q s' st' p1 where goc: "get_or_create api held d base span addr (mem_alive g) ?s (mem_stats g) p = (q, s', st', p1)"
      by (metis prod_cases4)
    note ok = shard_ok_get_or_create [OF s refl None goc]
    have l: "lookup (base, span) ?s = (None, ?s)" using None by (simp add: lookup_def)
    have "mem_inv (put_shard ?i s' st' g)"
      using ok(1-3) by (intro mem_inv_put_shard [OF assms(1) i]) simp_all
    then show ?thesis using assms(3) l goc ok(4,5) by (auto simp: acquire_def Let_def)
  qed
  then show "mem_inv g'" "r = Inr a \<Longrightarrow> ap_len a = ucast (ucast span :: u32)"
    "r = Inl (ad, e) \<Longrightarrow> ad = addr \<and> e \<noteq> NotBound \<and> e \<noteq> BadRange" by auto
qed

section \<open>with_mapping\<close>

lemma maybe_emit_stats_frame [simp]:
  "shards (snd (maybe_emit_stats elapsed g)) = shards g"
  "mem_alive (snd (maybe_emit_stats elapsed g)) = mem_alive g"
  "max_address (snd (maybe_emit_stats elapsed g)) = max_address g"
  "mem_handle (snd (maybe_emit_stats elapsed g)) = mem_handle g"
  "enabled (mem_stats (snd (maybe_emit_stats elapsed g))) = enabled (mem_stats g)"
  "live (mem_stats (snd (maybe_emit_stats elapsed g))) = live (mem_stats g)"
  by (simp_all add: maybe_emit_stats_def Let_def)

lemma mem_inv_emit [simp]: "mem_inv (snd (maybe_emit_stats elapsed g)) = mem_inv g"
  by (simp add: mem_inv_def entries_def)

lemma mem_inv_count_in:
  "mem_inv (count_in not_bound_update g) = mem_inv g" "mem_inv (count_in bad_range_update g) = mem_inv g"
  by (simp_all add: count_in_def mem_inv_def entries_def)

lemma mem_inv_into_guest_memory: "mem_inv (into_guest_memory handle ram alive stats_on)"
  by (auto simp: into_guest_memory_def mem_inv_def shard_ok_def shard_inv_def Shard_default_def
      Stats_new_def entries_def sum_list_replicate)

text \<open>
  Every access keeps the invariant of the cache: each shard holds at most its share of distinct
  keys with distinct recency stamps, every cached aperture carries the host's liveness flag and sits
  in the shard its page routes to, the live counter is exactly the number of cached apertures, and
  that number is at most \<open>MAX_ENTRIES\<close>. The cache starts in the invariant.
\<close>

lemma with_mapping_invariant:
  assumes "mem_inv g" "clocks_ok g"
    and "with_mapping api held elapsed addr len f g p = (r, g', p')"
  shows "mem_inv g' \<and> entries g' \<le> MAX_ENTRIES \<and> mem_inv (into_guest_memory handle ram alive stats_on)"
proof -
  have "mem_inv g'"
    using assms(3) acquire_spec(1) [OF assms(1,2)] assms(1)
    by (auto simp: with_mapping_def Let_def mem_inv_count_in split: if_splits option.splits prod.splits sum.splits)
  then show ?thesis using entries_bound mem_inv_into_guest_memory by blast
qed

lemma with_mapping_Inr:
  assumes "with_mapping api held elapsed addr len f g p = (Inr r, g', p')"
  obtains a g1 p1 where "mem_handle g \<noteq> 0" "unat addr + unat len < 2 ^ 64" "addr + len \<le> max_address g"
    "acquire api held (mem_handle g) (page_base addr)
       (page_span (max_address g) (page_base addr) (addr + len)) addr g p = (Inr a, g1, p1)"
    "f (ap_ptr a + (addr - page_base addr)) p1 = (r, p')" "g' = snd (maybe_emit_stats elapsed g1)"
  using assms
  by (auto simp: with_mapping_def Let_def rust_arith not_less split: if_splits option.splits prod.splits sum.splits)

text \<open>
  C4. The pointer given to a copy. When an access succeeds, the copy ran on the host address of
  \<open>addr\<close> in an aperture based at the page of \<open>addr\<close>, and the \<open>len\<close> bytes from there lie inside that
  aperture exactly when the page-rounded span is below 4 GiB: the length of the aperture is the span
  cut to 32 bits.
\<close>

theorem with_mapping_in_bounds:
  assumes "mem_inv g" "clocks_ok g" "unat (max_address g) \<le> 2 ^ 64 - 4096"
    and "with_mapping api held elapsed addr len f g p = (Inr r, g', p')"
  shows "\<exists>a g1 p1.
    acquire api held (mem_handle g) (page_base addr)
      (page_span (max_address g) (page_base addr) (addr + len)) addr g p = (Inr a, g1, p1) \<and>
    f (ap_ptr a + (addr - page_base addr)) p1 = (r, p') \<and>
    (unat (addr - page_base addr) + unat len \<le> unat (ap_len a) \<longleftrightarrow>
       unat (page_span (max_address g) (page_base addr) (addr + len)) < 2 ^ 32)"
proof -
  let ?span = "page_span (max_address g) (page_base addr) (addr + len)"
  from assms(4) obtain a g1 p1 where *: "unat addr + unat len < 2 ^ 64" "addr + len \<le> max_address g"
    "acquire api held (mem_handle g) (page_base addr) ?span addr g p = (Inr a, g1, p1)"
    "f (ap_ptr a + (addr - page_base addr)) p1 = (r, p')"
    by (rule with_mapping_Inr)
  have a: "unat (ap_len a) = unat ?span mod 2 ^ 32"
    using acquire_spec(5) [OF assms(1,2) *(3)] by (simp add: unat_ucast_mod)
  note span = page_span_covers [OF *(1,2) assms(3)]
  have "unat (addr - page_base addr) + unat len \<le> unat (ap_len a) \<longleftrightarrow> unat ?span < 2 ^ 32"
  proof (cases "unat ?span < 2 ^ 32")
    case False
    have "unat ?span mod 2 ^ 32 < 2 ^ 32" by simp
    moreover have "unat ?span mod 2 ^ 32 \<le> unat ?span - 2 ^ 32"
      using False mod_less_eq_dividend [of "unat ?span - 2 ^ 32" "2 ^ 32"] by (simp add: le_mod_geq)
    ultimately have "unat ?span mod 2 ^ 32 < unat (addr - page_base addr) + unat len"
      using False span(2) by (simp add: unat_page_offset)
    with False a show ?thesis by simp
  qed (use span(1) a in \<open>simp add: unat_page_offset\<close>)
  with * show ?thesis by blast
qed

text \<open>The final summary reports exactly the apertures still cached.\<close>

lemma final_summary_live:
  assumes "mem_inv g" "enabled (mem_stats g)"
  shows "map (\<lambda>(phase, fields). (phase, map_of fields ''live'')) (HdvApertureMem_drop g) = [(''final'', Some (entries g))]"
proof -
  have "live (mem_stats g) = of_nat (entries g)" using assms by (simp add: mem_inv_def)
  moreover have "unat (of_nat (entries g) :: u64) = entries g"
    using entries_bound [OF assms(1)] by (intro unat_of_nat_small) (simp add: MAX_ENTRIES_def)
  ultimately show ?thesis using assms(2) by (simp add: HdvApertureMem_drop_def Stats_emit_def)
qed

text \<open>
  The address ceiling. However the platform splits the RAM of the guest around the 32-bit hole
  (the first \<open>low\<close> bytes below 4 GiB, the rest from 4 GiB up), an access all of whose bytes are RAM
  is never turned away by the range checks once the device is bound.
\<close>

lemma ram_admitted:
  assumes "low \<le> unat ram" "low \<le> 2 ^ 32" "mem_handle g \<noteq> 0"
    and "max_address g = ram_size_to_max_gpa ram" "mem_inv g" "clocks_ok g"
    and "unat addr + unat len < 2 ^ 64"
    and "\<forall>x. unat addr \<le> x \<and> x < unat addr + unat len \<longrightarrow>
           x < low \<or> 2 ^ 32 \<le> x \<and> x < 2 ^ 32 + (unat ram - low)"
    and "0 < unat len"
  shows "fst (with_mapping api held elapsed addr len f g p) \<noteq> Inl (e, BadRange) \<and>
         fst (with_mapping api held elapsed addr len f g p) \<noteq> Inl (e, NotBound)"
proof -
  let ?last = "unat addr + unat len - 1"
  have "?last < low \<or> 2 ^ 32 \<le> ?last \<and> ?last < 2 ^ 32 + (unat ram - low)"
    using assms(8,9) by auto
  then have "unat addr + unat len \<le> 2 ^ 32 + unat ram" using assms(1,2,9) by auto
  moreover have "unat HIGH_RAM_BASE = 2 ^ 32" by (simp add: HIGH_RAM_BASE_def)
  ultimately have le: "addr + len \<le> max_address g"
    using assms(4,7) by (simp add: ram_size_to_max_gpa_def word_le_nat_alt rust_arith unat_add_no_overflow)
  show ?thesis
    using assms(3,7) le
    by (auto simp: with_mapping_def Let_def checked_add_def
        dest: acquire_spec(6) [OF assms(5,6) _ refl] split: prod.splits sum.splits)
qed

section \<open>The hasher\<close>

lemma word_mult_odd_inject: "a * (0x9E3779B97F4A7C15 :: u64) = b * 0x9E3779B97F4A7C15 \<longleftrightarrow> a = b"
proof
  have inverse: "(0x9E3779B97F4A7C15 :: u64) * 0xF1DE83E19937733D = 1" by simp
  assume "a * (0x9E3779B97F4A7C15 :: u64) = b * 0x9E3779B97F4A7C15"
  then have "(a * 0x9E3779B97F4A7C15) * 0xF1DE83E19937733D = (b * 0x9E3779B97F4A7C15) * 0xF1DE83E19937733D"
    by (rule arg_cong)
  then show "a = b" by (simp only: mult.assoc inverse mult_1_right)
qed simp

lemma xor_shift_inject: "x XOR drop_bit 32 x = y XOR drop_bit 32 y \<longleftrightarrow> x = (y :: u64)"
proof
  assume eq: "x XOR drop_bit 32 x = y XOR drop_bit 32 y"
  have inv: "(z XOR drop_bit 32 z) XOR drop_bit 32 (z XOR drop_bit 32 z) = z" for z :: u64
  proof (rule bit_word_eqI)
    fix n
    assume "n < LENGTH(64)"
    then have "\<not> bit z (n + 32 + 32)" by (intro notI) (auto dest: bit_imp_le_length)
    then show "bit ((z XOR drop_bit 32 z) XOR drop_bit 32 (z XOR drop_bit 32 z)) n = bit z n"
      by (auto simp: bit_xor_iff bit_drop_bit_eq ac_simps)
  qed
  show "x = y" using inv [of x] inv [of y] eq by simp
qed simp

lemma xor_left_inject: "h XOR a = h XOR b \<longleftrightarrow> a = (b :: u64)"
proof
  assume eq: "h XOR a = h XOR b"
  have "h XOR (h XOR z) = z" for z :: u64
    by (simp flip: xor.assoc)
  then show "a = b" using eq by metis
qed simp

lemma write_u64_inject:
  "write_u64 h a = write_u64 h b \<longleftrightarrow> a = b" "write_u64 h a = write_u64 k a \<longleftrightarrow> h = k"
proof -
  show "write_u64 h a = write_u64 h b \<longleftrightarrow> a = b"
    by (simp add: write_u64_def Let_def xor_shift_inject word_mult_odd_inject xor_left_inject)
  show "write_u64 h a = write_u64 k a \<longleftrightarrow> h = k"
    using xor_left_inject [of a h k]
    by (simp add: write_u64_def Let_def xor_shift_inject word_mult_odd_inject xor.commute)
qed

text \<open>
  The hasher never collides on keys that share a length or a base: two ranges of the same length
  at different pages, or two lengths at the same page, have different hashes.
\<close>

lemma hash_key_inject:
  "(hash_key (a, l) = hash_key (b, l) \<longleftrightarrow> a = b) \<and> (hash_key (a, l) = hash_key (a, m) \<longleftrightarrow> l = m)"
  by (simp add: hash_key_def write_u64_inject)

end
