(* ===== verification/Guest_Memory.thy ===== *)
theory Guest_Memory
  imports Aperture_Mem
begin

text \<open>
  The two accesses OpenVMM makes through \<open>HdvApertureMem\<close>, and what they mean for the guest: with a
  platform whose apertures are coherent on backed pages, reading and writing through the cache is
  reading and writing guest-physical memory. The platform contract is stated once, as the predicate
  \<open>coherent_platform\<close>, with the words of \<open>docs/hdv-aperture-internals.md\<close>; a small simulated
  platform shows that it can be met and serves the concrete runs.
\<close>

section \<open>The accesses\<close>

text \<open>Loads and stores through a mapped address belong to the machine the process runs on.\<close>

record 'w host_memory =
  load_bytes :: "PVOID \<Rightarrow> nat \<Rightarrow> 'w \<Rightarrow> u8 list"
  store_bytes :: "PVOID \<Rightarrow> u8 list \<Rightarrow> 'w \<Rightarrow> 'w"

definition read_fallback ::
  "'w hdv_api \<Rightarrow> 'w host_memory \<Rightarrow> (aperture \<Rightarrow> bool) \<Rightarrow> nat \<Rightarrow> u64 \<Rightarrow> usize \<Rightarrow>
     hdv_aperture_mem \<Rightarrow> 'w process \<Rightarrow>
     (u64 \<times> backing_error + u8 list) \<times> hdv_aperture_mem \<times> 'w process" where
  "read_fallback api hm held elapsed addr len =
     with_mapping api held elapsed addr len
       (\<lambda>src p. (load_bytes hm src (unat len) (platform p), p))"

definition write_fallback ::
  "'w hdv_api \<Rightarrow> 'w host_memory \<Rightarrow> (aperture \<Rightarrow> bool) \<Rightarrow> nat \<Rightarrow> u64 \<Rightarrow> u8 list \<Rightarrow>
     hdv_aperture_mem \<Rightarrow> 'w process \<Rightarrow>
     (u64 \<times> backing_error + unit) \<times> hdv_aperture_mem \<times> 'w process" where
  "write_fallback api hm held elapsed addr src =
     with_mapping api held elapsed addr (of_nat (length src))
       (\<lambda>dest p. ((), p\<lparr>platform := store_bytes hm dest src (platform p)\<rparr>))"

section \<open>Guest-physical memory\<close>

type_synonym guest_ram = "u64 \<Rightarrow> u8"

definition ram_read :: "guest_ram \<Rightarrow> u64 \<Rightarrow> nat \<Rightarrow> u8 list" where
  "ram_read m addr n = map (\<lambda>i. m (addr + of_nat i)) [0..<n]"

fun ram_write :: "u64 \<Rightarrow> u8 list \<Rightarrow> guest_ram \<Rightarrow> guest_ram" where
  "ram_write addr [] m = m"
| "ram_write addr (b # bs) m = ram_write (addr + 1) bs (m(addr := b))"

text \<open>
  What the cache relies on. \<open>view w va\<close> is the guest range that the live aperture at host address
  \<open>va\<close> maps, \<open>backed w gpa\<close> says whether the guest has backed that address. An aperture made over
  backed pages is at a fresh address and stays coherent; destroying it ends that view only;
  loads and stores inside a view are loads and stores of guest memory.
\<close>

definition coherent_platform ::
  "'w hdv_api \<Rightarrow> 'w host_memory \<Rightarrow> ('w \<Rightarrow> guest_ram) \<Rightarrow> ('w \<Rightarrow> PVOID \<rightharpoonup> u64 \<times> u64) \<Rightarrow>
     ('w \<Rightarrow> u64 \<Rightarrow> bool) \<Rightarrow> bool" where
  "coherent_platform api hm guest view backed \<longleftrightarrow>
     (\<forall>d gpa len wp w code va w'. HdvCreateGuestMemoryAperture api d gpa len wp w = ((code, va), w') \<longrightarrow>
        guest w' = guest w \<and> backed w' = backed w \<and> (failed code \<longrightarrow> view w' = view w) \<and>
        (\<not> failed code \<and> (\<forall>i < unat len. backed w (gpa + of_nat i)) \<longrightarrow>
           view w va = None \<and> view w' = (view w)(va \<mapsto> (gpa, ucast len)))) \<and>
     (\<forall>d va w. let w' = snd (HdvDestroyGuestMemoryAperture api d va w)
        in guest w' = guest w \<and> backed w' = backed w \<and> view w' = (view w)(va := None)) \<and>
     (\<forall>w va gpa len off n. view w va = Some (gpa, len) \<longrightarrow> off + n \<le> unat len \<longrightarrow>
        load_bytes hm (va + of_nat off) n w = ram_read (guest w) (gpa + of_nat off) n) \<and>
     (\<forall>w va gpa len off bs. view w va = Some (gpa, len) \<longrightarrow> off + length bs \<le> unat len \<longrightarrow>
        (let w' = store_bytes hm (va + of_nat off) bs w
         in guest w' = ram_write (gpa + of_nat off) bs (guest w) \<and> view w' = view w \<and> backed w' = backed w))"

text \<open>Every cached aperture is a live view of the range it is cached under.\<close>

definition views_ok :: "('w \<Rightarrow> PVOID \<rightharpoonup> u64 \<times> u64) \<Rightarrow> 'w \<Rightarrow> aperture shard_map \<Rightarrow> bool" where
  "views_ok view w m \<longleftrightarrow> (\<forall>k c. map_of m k = Some c \<longrightarrow> view w (ap_ptr (ap c)) = Some k)"

definition cache_coherent :: "('w \<Rightarrow> PVOID \<rightharpoonup> u64 \<times> u64) \<Rightarrow> hdv_aperture_mem \<Rightarrow> 'w \<Rightarrow> bool" where
  "cache_coherent view g w \<longleftrightarrow> mem_inv g \<and> (\<forall>i < SHARDS. views_ok view w (cache (shards g ! i)))"

section \<open>A simulated platform\<close>

text \<open>
  Apertures are handed out from a counter of 4 GiB slots of host address space while the quota lasts,
  so a host address names its slot and its offset, and every guest page is backed.
\<close>

record sim =
  sim_ram :: guest_ram
  sim_views :: "(nat \<times> (u64 \<times> u32)) list"
  sim_next :: nat
  sim_quota :: nat

definition sim_slot :: "PVOID \<Rightarrow> nat" where
  "sim_slot va = unat va div 2 ^ 32"

definition sim_off :: "PVOID \<Rightarrow> nat" where
  "sim_off va = unat va mod 2 ^ 32"

definition sim_view :: "sim \<Rightarrow> PVOID \<rightharpoonup> u64 \<times> u64" where
  "sim_view w va =
     (if sim_off va = 0
      then map_option (\<lambda>(gpa, len). (gpa, ucast len)) (map_of (sim_views w) (sim_slot va)) else None)"

definition sim_api :: "sim hdv_api" where
  "sim_api = not_windows
     \<lparr>HdvCreateGuestMemoryAperture :=
        (\<lambda>d gpa len wp w.
           if length (sim_views w) < sim_quota w \<and> map_of (sim_views w) (sim_next w) = None \<and>
              0 < sim_next w \<and> sim_next w < 2 ^ 32
           then ((S_OK, of_nat (sim_next w * 2 ^ 32)),
                 w\<lparr>sim_views := (sim_next w, (gpa, len)) # sim_views w, sim_next := Suc (sim_next w)\<rparr>)
           else ((ERROR_NOT_ENOUGH_QUOTA, 0), w)),
      HdvDestroyGuestMemoryAperture :=
        (\<lambda>d va w.
           (S_OK, if sim_off va = 0 then w\<lparr>sim_views := AList.delete (sim_slot va) (sim_views w)\<rparr> else w))\<rparr>"

definition sim_memory :: "sim host_memory" where
  "sim_memory =
     \<lparr>load_bytes = (\<lambda>va n w.
        case map_of (sim_views w) (sim_slot va) of
          None \<Rightarrow> replicate n 0
        | Some (gpa, len) \<Rightarrow> ram_read (sim_ram w) (gpa + of_nat (sim_off va)) n),
      store_bytes = (\<lambda>va bs w.
        case map_of (sim_views w) (sim_slot va) of
          None \<Rightarrow> w
        | Some (gpa, len) \<Rightarrow> w\<lparr>sim_ram := ram_write (gpa + of_nat (sim_off va)) bs (sim_ram w)\<rparr>)\<rparr>"

lemma sim_slot_inject: "sim_off a = 0 \<Longrightarrow> sim_off b = 0 \<Longrightarrow> sim_slot a = sim_slot b \<longleftrightarrow> a = b"
  unfolding sim_off_def sim_slot_def word_unat_eq_iff by (metis mod_0_imp_dvd dvd_div_eq_iff)

lemma sim_va:
  assumes "n < 2 ^ 32"
  shows "sim_slot (of_nat (n * 2 ^ 32)) = n" "sim_off (of_nat (n * 2 ^ 32)) = 0"
proof -
  have "unat (of_nat (n * 2 ^ 32) :: u64) = n * 2 ^ 32"
    using assms by (intro unat_of_nat_small) simp
  then show "sim_slot (of_nat (n * 2 ^ 32)) = n" "sim_off (of_nat (n * 2 ^ 32)) = 0"
    unfolding sim_slot_def sim_off_def by simp_all
qed

lemma sim_va_plus:
  assumes "sim_off va = 0" "off < 2 ^ 32"
  shows "sim_slot (va + of_nat off) = sim_slot va" "sim_off (va + of_nat off) = off"
proof -
  have va: "unat va = sim_slot va * 2 ^ 32"
    using assms(1) unfolding sim_slot_def sim_off_def by (metis add_0_right div_mult_mod_eq)
  have "sim_slot va < 2 ^ 32" using unat_bound [of va] by (simp add: sim_slot_def less_mult_imp_div_less)
  then have "sim_slot va * 2 ^ 32 + off < 2 ^ 64" using assms(2) by simp
  moreover have "unat (of_nat off :: u64) = off" using assms(2) by (intro unat_of_nat_small) simp
  ultimately have "unat (va + of_nat off) = sim_slot va * 2 ^ 32 + off"
    using va by (subst unat_add_no_overflow) simp_all
  then show "sim_slot (va + of_nat off) = sim_slot va" "sim_off (va + of_nat off) = off"
    using assms(2) unfolding sim_slot_def [of "va + of_nat off"] sim_off_def by simp_all
qed

lemma sim_view_off:
  assumes "sim_view w va = Some (gpa, len)" "off + n \<le> unat len"
  shows "sim_slot (va + of_nat off) = sim_slot va" "sim_off (va + of_nat off) = off"
    "\<exists>l. map_of (sim_views w) (sim_slot va) = Some (gpa, l)"
proof -
  obtain l where l: "sim_off va = 0" "map_of (sim_views w) (sim_slot va) = Some (gpa, l)" "len = ucast l"
    using assms(1) by (auto simp: sim_view_def split: if_splits)
  have "unat len < 2 ^ 32" using unat_bound [of l] by (simp add: l(3))
  then have "off < 2 ^ 32" using assms(2) by linarith
  from sim_va_plus [OF l(1) this] l(2)
  show "sim_slot (va + of_nat off) = sim_slot va" "sim_off (va + of_nat off) = off"
    "\<exists>l. map_of (sim_views w) (sim_slot va) = Some (gpa, l)" by blast+
qed

lemma sim_coherent: "coherent_platform sim_api sim_memory sim_ram sim_view (\<lambda>_ _. True)"
  unfolding coherent_platform_def Let_def
proof (intro conjI allI impI)
  show "sim_view w' = sim_view w"
    if "HdvCreateGuestMemoryAperture sim_api d gpa len wp w = ((code, va), w')" "failed code"
    for d gpa len wp w code va w'
    using that by (auto simp: sim_api_def split: if_splits)
  show "sim_view w va = None" "sim_view w' = (sim_view w)(va \<mapsto> (gpa, ucast len))"
    if "HdvCreateGuestMemoryAperture sim_api d gpa len wp w = ((code, va), w')"
      "\<not> failed code \<and> (\<forall>i < unat len. True)" for d gpa len wp w code va w'
  proof -
    have q: "failed ERROR_NOT_ENOUGH_QUOTA" by (simp add: failed_def ERROR_NOT_ENOUGH_QUOTA_def)
    with that have *: "map_of (sim_views w) (sim_next w) = None" "sim_next w < 2 ^ 32"
      "va = of_nat (sim_next w * 2 ^ 32)" "sim_views w' = (sim_next w, (gpa, len)) # sim_views w"
      by (auto simp: sim_api_def split: if_splits)
    then have va: "sim_slot va = sim_next w" "sim_off va = 0" using sim_va by auto
    then show "sim_view w va = None" using * by (simp add: sim_view_def)
    show "sim_view w' = (sim_view w)(va \<mapsto> (gpa, ucast len))"
    proof
      fix x show "sim_view w' x = ((sim_view w)(va \<mapsto> (gpa, ucast len))) x"
        using sim_slot_inject [of x va] va *(4) by (auto simp: sim_view_def)
    qed
  qed
  show "sim_view (snd (HdvDestroyGuestMemoryAperture sim_api d va w)) = (sim_view w)(va := None)" for d va w
  proof
    fix x show "sim_view (snd (HdvDestroyGuestMemoryAperture sim_api d va w)) x = ((sim_view w)(va := None)) x"
      using sim_slot_inject [of x va] by (auto simp: sim_api_def sim_view_def delete_conv')
  qed
  show "load_bytes sim_memory (va + of_nat off) n w = ram_read (sim_ram w) (gpa + of_nat off) n"
    if "sim_view w va = Some (gpa, len)" "off + n \<le> unat len" for w va gpa len off n
    using sim_view_off [OF that] by (auto simp: sim_memory_def)
  show "sim_ram (store_bytes sim_memory (va + of_nat off) bs w) = ram_write (gpa + of_nat off) bs (sim_ram w)"
    "sim_view (store_bytes sim_memory (va + of_nat off) bs w) = sim_view w"
    if "sim_view w va = Some (gpa, len)" "off + length bs \<le> unat len" for w va gpa len off bs
    using sim_view_off [OF that] by (auto simp: sim_memory_def sim_view_def fun_eq_iff)
qed (auto simp: sim_api_def split: if_splits)

section \<open>The cache keeps its views\<close>

text \<open>The consequences of the platform contract, one per call.\<close>

lemma coherent_create:
  assumes "coherent_platform api hm guest view backed"
    and "create_aperture api d gpa len wp p = (r, q)"
  shows "guest (platform q) = guest (platform p)" "backed (platform q) = backed (platform p)"
    "r = Inl e \<Longrightarrow> view (platform q) = view (platform p)"
    "r = Inr a \<Longrightarrow> \<forall>i < unat len. backed (platform p) (gpa + of_nat i) \<Longrightarrow>
       view (platform p) (ap_ptr a) = None \<and>
       view (platform q) = (view (platform p))(ap_ptr a \<mapsto> (gpa, ucast len))"
proof -
  obtain code va w' where call: "HdvCreateGuestMemoryAperture api d gpa len wp (platform p) = ((code, va), w')"
    by (metis prod.exhaust)
  note law = assms(1) [unfolded coherent_platform_def, THEN conjunct1, rule_format, OF call]
  have q: "q = p\<lparr>platform := w'\<rparr>" and r: "r = (if failed code then Inl code
      else Inr \<lparr>ap_device = d, ap_ptr = va, ap_len = ucast len, ap_alive = None\<rparr>)"
    using assms(2) by (simp_all add: create_aperture_eq call Let_def)
  from law q show "guest (platform q) = guest (platform p)" "backed (platform q) = backed (platform p)"
    by simp_all
  from law q r show "r = Inl e \<Longrightarrow> view (platform q) = view (platform p)"
    by (simp split: if_splits)
  from law q r show "r = Inr a \<Longrightarrow> \<forall>i < unat len. backed (platform p) (gpa + of_nat i) \<Longrightarrow>
       view (platform p) (ap_ptr a) = None \<and>
       view (platform q) = (view (platform p))(ap_ptr a \<mapsto> (gpa, ucast len))"
    by (auto split: if_splits)
qed

lemma coherent_drop:
  assumes "coherent_platform api hm guest view backed"
  shows "guest (platform (drop_arc api held (Some a) p)) = guest (platform p)"
    "backed (platform (drop_arc api held (Some a) p)) = backed (platform p)"
    "x \<noteq> ap_ptr a \<Longrightarrow> view (platform (drop_arc api held (Some a) p)) x = view (platform p) x"
  using assms [unfolded coherent_platform_def, THEN conjunct2, THEN conjunct1]
  by (auto simp: drop_arc_def Aperture_drop_def on_platform_eq Let_def)

text \<open>
  The address \<open>x\<close> is spared by the evictions from \<open>m\<close> when a copy in flight holds the aperture there.
\<close>

definition spared :: "(aperture \<Rightarrow> bool) \<Rightarrow> aperture shard_map \<Rightarrow> PVOID \<Rightarrow> bool" where
  "spared held m x \<longleftrightarrow> (\<forall>k c. map_of m k = Some c \<longrightarrow> ap_ptr (ap c) = x \<longrightarrow> held (ap c))"

lemma spared_mono: "map_of m' \<subseteq>\<^sub>m map_of m \<Longrightarrow> spared held m x \<Longrightarrow> spared held m' x"
  unfolding spared_def map_le_def by (metis domI)

text \<open>
  What a step of the miss path does to the world: guest memory is untouched, the views of the map
  that is left are intact, and so is every other live view but those of the evicted apertures that
  nobody holds.
\<close>

definition keeps_views ::
  "('w \<Rightarrow> guest_ram) \<Rightarrow> ('w \<Rightarrow> PVOID \<rightharpoonup> u64 \<times> u64) \<Rightarrow> ('w \<Rightarrow> u64 \<Rightarrow> bool) \<Rightarrow> (aperture \<Rightarrow> bool) \<Rightarrow>
     aperture shard_map \<Rightarrow> 'w \<Rightarrow> aperture shard_map \<Rightarrow> 'w \<Rightarrow> bool" where
  "keeps_views guest view backed held m w m' w' \<longleftrightarrow>
     guest w' = guest w \<and> backed w' = backed w \<and> views_ok view w' m' \<and> map_of m' \<subseteq>\<^sub>m map_of m \<and>
     (\<forall>x. view w x \<noteq> None \<longrightarrow> spared held m x \<longrightarrow> view w' x = view w x)"

lemma keeps_views_refl: "views_ok view w m \<Longrightarrow> keeps_views guest view backed held m w m w"
  by (simp add: keeps_views_def)

lemma keeps_views_trans:
  assumes "keeps_views guest view backed held m w m' w'" "keeps_views guest view backed held m' w' m'' w''"
  shows "keeps_views guest view backed held m w m'' w''"
proof -
  have "map_of m' \<subseteq>\<^sub>m map_of m" using assms(1) by (simp add: keeps_views_def)
  then have "spared held m x \<Longrightarrow> spared held m' x" for x by (rule spared_mono)
  then show ?thesis using assms map_le_trans [of "map_of m''" "map_of m'" "map_of m"]
    unfolding keeps_views_def by metis
qed

lemma keeps_views_evict:
  assumes "coherent_platform api hm guest view backed" "map_inv now m" "m \<noteq> []"
    "views_ok view (platform p) m" "evict_one m st = (m', st', dropped)"
  shows "keeps_views guest view backed held m (platform p) m' (platform (drop_arc api held dropped p))"
proof (rule evict_one_spec [OF assms(2,3), of st])
  fix k and c :: "aperture cached_entry"
  assume "evict_one m st = (AList.delete k m, dec_live (count evicts_update st), Some (ap c))"
    and kc: "(k, c) \<in> set m"
  with assms(5) have m': "m' = AList.delete k m" "dropped = Some (ap c)" by simp_all
  have c: "map_of m k = Some c" using kc assms(2) by (simp add: map_inv_def)
  have le: "map_of m' \<subseteq>\<^sub>m map_of m" by (auto simp: m' delete_conv' map_le_def)
  note drop = coherent_drop [OF assms(1), where held = held and a = "ap c" and p = p]
  have "view (platform (drop_arc api held dropped p)) (ap_ptr (ap e)) = Some j" if "map_of m' j = Some e" for j e
  proof -
    have "map_of m j = Some e" "j \<noteq> k" using that by (auto simp: m' delete_conv' split: if_splits)
    then have "view (platform p) (ap_ptr (ap e)) = Some j" using assms(4) unfolding views_ok_def by blast
    moreover have "ap_ptr (ap e) \<noteq> ap_ptr (ap c)"
      using calculation c assms(4) \<open>j \<noteq> k\<close> unfolding views_ok_def by (metis option.inject)
    ultimately show ?thesis using drop(3) m'(2) by simp
  qed
  moreover have "view (platform (drop_arc api held dropped p)) x = view (platform p) x" if "spared held m x" for x
  proof (cases "x = ap_ptr (ap c)")
    case True
    then have "held (ap c)" using that c unfolding spared_def by blast
    then show ?thesis by (simp add: m'(2) drop_arc_def)
  qed (use drop(3) m'(2) in simp)
  ultimately show ?thesis using drop m'(2) le by (simp add: keeps_views_def views_ok_def)
qed

text \<open>A new view at an address that had none leaves the others alone.\<close>

lemma keeps_views_create:
  assumes "views_ok view w m" "view w va = None" "view w' = (view w)(va \<mapsto> r)"
    "guest w' = guest w" "backed w' = backed w"
  shows "keeps_views guest view backed held m w m w'"
  using assms unfolding keeps_views_def views_ok_def by (metis fun_upd_other option.distinct(1) map_le_refl)

text \<open>The view of a new aperture, at an address that no view that was spared had.\<close>

definition new_view ::
  "('w \<Rightarrow> PVOID \<rightharpoonup> u64 \<times> u64) \<Rightarrow> (aperture \<Rightarrow> bool) \<Rightarrow> aperture shard_map \<Rightarrow> 'w \<Rightarrow> 'w \<Rightarrow> aperture \<Rightarrow> u64 \<times> u64 \<Rightarrow> bool" where
  "new_view view held m w w' a k \<longleftrightarrow>
     view w' (ap_ptr a) = Some k \<and> (\<forall>x. view w x \<noteq> None \<longrightarrow> spared held m x \<longrightarrow> x \<noteq> ap_ptr a)"

lemma new_view_liveness [simp]: "new_view view held m w w' (set_liveness f a) k = new_view view held m w w' a k"
  by (simp add: new_view_def set_liveness_def)

lemma new_view_before:
  assumes "keeps_views guest view backed held m w m1 w1" "new_view view held m1 w1 w' a k"
  shows "new_view view held m w w' a k"
proof -
  have "map_of m1 \<subseteq>\<^sub>m map_of m" using assms(1) by (simp add: keeps_views_def)
  then show ?thesis using assms spared_mono [of m1 m held] unfolding keeps_views_def new_view_def by metis
qed

lemma create_loop_views:
  assumes "coherent_platform api hm guest view backed"
    and "create_loop api held d base len evictions m st p = (r, m', st', p')" "map_inv now m"
    and "views_ok view (platform p) m"
    and "\<forall>i < unat (ucast len :: u32). backed (platform p) (base + of_nat i)"
  shows "keeps_views guest view backed held m (platform p) m' (platform p') \<and>
    (\<forall>a. r = Inr a \<longrightarrow> new_view view held m (platform p) (platform p') a (base, ucast (ucast len :: u32)))"
  using assms
proof (induction api held d base len evictions m st p rule: create_loop.induct)
  case (1 api held d base len evictions m st p)
  obtain c q where cr: "create_aperture api d base (ucast len) False p = (c, q)" by force
  note law = coherent_create [OF 1(2) cr]
  show ?case
  proof (cases c)
    case (Inr a)
    with 1 cr have "r = Inr a" "m' = m" "p' = q" by (auto simp: create_loop.simps)
    with law Inr 1 show ?thesis
      using keeps_views_create [of view "platform p" m "ap_ptr a" "platform q"] by (auto simp: new_view_def)
  next
    case (Inl e)
    then have q: "views_ok view (platform q) m" using law(3) 1 by (simp add: views_ok_def)
    have pq: "keeps_views guest view backed held m (platform p) m (platform q)"
      using law(1,2) law(3) [OF Inl] 1(5) by (simp add: keeps_views_def views_ok_def)
    show ?thesis
    proof (cases "e \<noteq> ERROR_NOT_ENOUGH_QUOTA \<or> m = [] \<or> PER_SHARD_MAX \<le> evictions")
      case True
      with 1 cr Inl have "r = Inl e" "m' = m" "p' = q" by (auto simp: create_loop.simps)
      with pq show ?thesis by simp
    next
      case False
      obtain m1 st1 dropped where ev: "evict_one m (count quota_retries_update st) = (m1, st1, dropped)"
        by (metis prod_cases3)
      let ?p1 = "drop_arc api held dropped q"
      have kv: "keeps_views guest view backed held m (platform q) m1 (platform ?p1)"
        using keeps_views_evict [OF 1(2) 1(4) _ q ev] False by blast
      have "map_inv now m1"
        using evict_one_evicted [OF 1(4), of "count quota_retries_update st"] False ev by auto
      moreover have "create_loop api held d base len (evictions + 1) m1 st1 ?p1 = (r, m', st', p')"
        using 1(3) False by (simp add: create_loop.simps [of _ _ _ _ _ evictions] cr Inl ev)
      moreover have "views_ok view (platform ?p1) m1"
        "\<forall>i < unat (ucast len :: u32). backed (platform ?p1) (base + of_nat i)"
        using kv 1(6) law(2) by (simp_all add: keeps_views_def)
      ultimately have "keeps_views guest view backed held m1 (platform ?p1) m' (platform p') \<and>
        (\<forall>a. r = Inr a \<longrightarrow> new_view view held m1 (platform ?p1) (platform p') a (base, ucast (ucast len :: u32)))"
        using 1(1) [OF cr [symmetric] Inl False ev [symmetric] refl 1(2)] by blast
      then show ?thesis
        using keeps_views_trans [OF pq keeps_views_trans [OF kv]] new_view_before [OF keeps_views_trans [OF pq kv]] by blast
    qed
  qed
qed

lemma evict_if_full_views:
  assumes "coherent_platform api hm guest view backed"
    "evict_if_full api held m st p = (m', st', p')" "map_inv now m" "views_ok view (platform p) m"
  shows "keeps_views guest view backed held m (platform p) m' (platform p')"
proof (cases "PER_SHARD_MAX \<le> length m")
  case True
  then have "m \<noteq> []" by auto
  obtain m1 st1 dropped where ev: "evict_one m st = (m1, st1, dropped)" by (metis prod_cases3)
  with assms(2) True have "m' = m1" "p' = drop_arc api held dropped p" by (auto simp: evict_if_full_def)
  with keeps_views_evict [OF assms(1,3) \<open>m \<noteq> []\<close> assms(4) ev] show ?thesis by blast
qed (use assms keeps_views_refl in \<open>auto simp: evict_if_full_def\<close>)

lemma get_or_create_views:
  assumes "coherent_platform api hm guest view backed" "map_of (cache s) (base, len) = None"
    "shard_inv s" "clock s \<noteq> - 1" "views_ok view (platform p) (cache s)" "unat len < 2 ^ 32"
    "\<forall>i < unat len. backed (platform p) (base + of_nat i)"
    "get_or_create api held d base len err_addr alive s st p = (r, s', st', p')"
  shows "guest (platform p') = guest (platform p)" "backed (platform p') = backed (platform p)"
    "views_ok view (platform p') (cache s')"
    "view (platform p) x \<noteq> None \<Longrightarrow> spared held (cache s) x \<Longrightarrow> view (platform p') x = view (platform p) x"
    "r = Inr a \<Longrightarrow> new_view view held (cache s) (platform p) (platform p') a (base, len)"
    "map_of (cache s') k = Some c \<Longrightarrow> map_of (cache s) k = Some c \<or> k = (base, len) \<and> r = Inr (ap c)"
proof -
  obtain m1 st1 p1 where full: "evict_if_full api held (cache s) st p = (m1, st1, p1)"
    by (metis prod_cases3)
  note mi = shard_inv_map_inv [OF assms(3,4)]
  have k1: "keeps_views guest view backed held (cache s) (platform p) m1 (platform p1)"
    by (rule evict_if_full_views [OF assms(1) full mi assms(5)])
  obtain q m2 st2 p2 where loop: "create_loop api held d base len 0 m1 st1 p1 = (q, m2, st2, p2)"
    by (metis prod_cases4)
  have u: "ucast (ucast len :: u32) = len" "unat (ucast len :: u32) = unat len"
    using assms(6) by (simp_all add: word_unat_eq_iff unat_ucast_mod)
  have "map_inv (clock s + 1) m1" using evict_if_full_spec [OF full mi] by blast
  moreover have "views_ok view (platform p1) m1" using k1 by (simp add: keeps_views_def)
  moreover have "\<forall>i < unat (ucast len :: u32). backed (platform p1) (base + of_nat i)"
    using k1 assms(7) by (simp add: keeps_views_def u)
  ultimately have l: "keeps_views guest view backed held m1 (platform p1) m2 (platform p2)"
    "\<And>a. q = Inr a \<Longrightarrow> new_view view held m1 (platform p1) (platform p2) a (base, len)"
    using create_loop_views [OF assms(1) loop] by (simp_all add: u)
  have kv: "keeps_views guest view backed held (cache s) (platform p) m2 (platform p2)"
    by (rule keeps_views_trans [OF k1 l(1)])
  have p': "p' = p2" using assms(2,8) by (auto simp: get_or_create_def full loop Let_def split: sum.splits)
  show "guest (platform p') = guest (platform p)" "backed (platform p') = backed (platform p)"
    "view (platform p) x \<noteq> None \<Longrightarrow> spared held (cache s) x \<Longrightarrow> view (platform p') x = view (platform p) x"
    using kv by (simp_all add: keeps_views_def p')
  have cs: "cache s' = (case q of Inl _ \<Rightarrow> m2 | Inr a \<Rightarrow>
      AList.update (base, len) \<lparr>ap = set_liveness alive a, last_used = clock s + 1\<rparr> m2)"
    and r: "r = (case q of Inl e \<Rightarrow> Inl (err_addr, ApertureFailed e) | Inr a \<Rightarrow> Inr (set_liveness alive a))"
    using assms(2,8) by (auto simp: get_or_create_def full loop Let_def split: sum.splits)
  have new: "new_view view held (cache s) (platform p) (platform p') a (base, len)" if "q = Inr a" for a
    using new_view_before [OF k1 l(2) [OF that]] by (simp add: p')
  then show "r = Inr a \<Longrightarrow> new_view view held (cache s) (platform p) (platform p') a (base, len)"
    by (cases q) (auto simp: r)
  have "map_of m2 \<subseteq>\<^sub>m map_of (cache s)" using kv by (simp add: keeps_views_def)
  then have old: "map_of m2 k = Some c \<Longrightarrow> map_of (cache s) k = Some c" for k c unfolding map_le_def by (metis domI)
  show "map_of (cache s') k = Some c \<Longrightarrow> map_of (cache s) k = Some c \<or> k = (base, len) \<and> r = Inr (ap c)"
    using old [of k c] unfolding cs r by (cases q) (auto simp: update_conv' split: if_splits)
  have "views_ok view (platform p') m2" using kv by (simp add: keeps_views_def p')
  then show "views_ok view (platform p') (cache s')"
    using new unfolding views_ok_def cs new_view_def
    by (cases q) (auto simp: update_conv' set_liveness_def p' simp del: split_paired_All)
qed

lemma acquire_views:
  assumes "coherent_platform api hm guest view backed" "cache_coherent view g (platform p)" "clocks_ok g"
    "unat span < 2 ^ 32" "\<forall>i < unat span. backed (platform p) (base + of_nat i)"
    "acquire api held d base span addr g p = (r, g', p')"
  shows "guest (platform p') = guest (platform p)" "cache_coherent view g' (platform p')"
    "r = Inr a \<Longrightarrow> view (platform p') (ap_ptr a) = Some (base, span)"
proof -
  let ?i = "shard_index base" let ?s = "shards g ! ?i"
  have i: "?i < SHARDS" by (rule shard_index_less)
  have g: "mem_inv g" and v: "\<And>j. j < SHARDS \<Longrightarrow> views_ok view (platform p) (cache (shards g ! j))"
    using assms(2) by (simp_all add: cache_coherent_def)
  have len: "length (shards g) = SHARDS" using g by (simp add: mem_inv_def)
  have ok: "shard_ok (mem_alive g) j (shards g ! j)" if "j < SHARDS" for j
    using g that by (simp add: mem_inv_def)
  have clk: "clock ?s \<noteq> - 1" using assms(3) i len by (simp add: clocks_ok_def)
  have g': "mem_inv g'" by (rule acquire_spec(1) [OF g assms(3,6)])
  have "guest (platform p') = guest (platform p) \<and> (\<forall>j < SHARDS. views_ok view (platform p') (cache (shards g' ! j))) \<and>
    (r = Inr a \<longrightarrow> view (platform p') (ap_ptr a) = Some (base, span))"
  proof (cases "map_of (cache ?s) (base, span)")
    case (Some c)
    have p': "p' = p" "r = Inr (ap c)" and sh: "shards g' = (shards g)[?i := snd (lookup (base, span) ?s)]"
      using assms(6) Some by (auto simp: acquire_def lookup_hit Let_def put_shard_def)
    have at: "view (platform p) (ap_ptr (ap c)) = Some (base, span)"
      using v [OF i] Some unfolding views_ok_def by blast
    have "views_ok view (platform p) (cache (snd (lookup (base, span) ?s)))"
      using v [OF i] at Some unfolding views_ok_def
      by (auto simp: lookup_hit update_conv' simp del: split_paired_All)
    then show ?thesis using v at len i by (auto simp: p' sh nth_list_update)
  next
    case None
    obtain q s' st' p1 where goc: "get_or_create api held d base span addr (mem_alive g) ?s (mem_stats g) p = (q, s', st', p1)"
      by (metis prod_cases4)
    have l: "lookup (base, span) ?s = (None, ?s)" using None by (simp add: lookup_def)
    have eqs: "r = q" "p' = p1" and sh: "shards g' = (shards g)[?i := s']"
      using assms(6) l goc by (auto simp: acquire_def Let_def put_shard_def)
    have inv: "shard_inv ?s" using ok [OF i] by (simp add: shard_ok_def)
    note goc_ok = get_or_create_views [OF assms(1) None inv clk v [OF i] assms(4,5) goc]
    have "views_ok view (platform p1) (cache (shards g ! j))" if j: "j < SHARDS" "j \<noteq> ?i" for j
      unfolding views_ok_def
    proof (intro allI impI)
      fix k c assume kc: "map_of (cache (shards g ! j)) k = Some c"
      then have vk: "view (platform p) (ap_ptr (ap c)) = Some k" using v [OF j(1)] unfolding views_ok_def by blast
      have "spared held (cache ?s) (ap_ptr (ap c))" unfolding spared_def
      proof (intro allI impI)
        fix k' c' assume k': "map_of (cache ?s) k' = Some c'" "ap_ptr (ap c') = ap_ptr (ap c)"
        then have "k' = k" using v [OF i] vk unfolding views_ok_def by (metis option.inject)
        then show "held (ap c')"
          using ok [OF i] ok [OF j(1)] kc k'(1) j(2) unfolding shard_ok_def entry_ok_def by metis
      qed
      then show "view (platform p1) (ap_ptr (ap c)) = Some k" using goc_ok(4) vk by simp
    qed
    then show ?thesis using goc_ok(1,3,5) len i by (auto simp: eqs sh nth_list_update new_view_def)
  qed
  then show "guest (platform p') = guest (platform p)" "cache_coherent view g' (platform p')"
    "r = Inr a \<Longrightarrow> view (platform p') (ap_ptr a) = Some (base, span)"
    using g' by (simp_all add: cache_coherent_def)
qed

section \<open>Accesses are accesses of guest memory\<close>

lemma cache_coherent_frame [simp]:
  "cache_coherent view (snd (maybe_emit_stats elapsed g)) w = cache_coherent view g w"
  "cache_coherent view (count_in not_bound_update g) w = cache_coherent view g w"
  "cache_coherent view (count_in bad_range_update g) w = cache_coherent view g w"
  by (simp_all add: cache_coherent_def mem_inv_count_in) (simp_all add: count_in_def)

text \<open>The mapping under a copy: its offset from the aperture's base and the room after it.\<close>

definition span_of :: "hdv_aperture_mem \<Rightarrow> u64 \<Rightarrow> usize \<Rightarrow> u64" where
  "span_of g addr len = page_span (max_address g) (page_base addr) (addr + len)"

definition pages_backed :: "('w \<Rightarrow> u64 \<Rightarrow> bool) \<Rightarrow> 'w \<Rightarrow> hdv_aperture_mem \<Rightarrow> u64 \<Rightarrow> usize \<Rightarrow> bool" where
  "pages_backed backed w g addr len \<longleftrightarrow>
     (\<forall>i < unat (span_of g addr len). backed w (page_base addr + of_nat i))"

lemma with_mapping_views:
  assumes "coherent_platform api hm guest view backed" "cache_coherent view g (platform p)" "clocks_ok g"
    "unat (max_address g) \<le> 2 ^ 64 - 4096" "unat (span_of g addr len) < 2 ^ 32"
    "pages_backed backed (platform p) g addr len"
    "with_mapping api held elapsed addr len f g p = (r, g', p')"
  shows "(\<exists>e. r = Inl e \<and> guest (platform p') = guest (platform p) \<and> cache_coherent view g' (platform p')) \<or>
    (\<exists>va off g1 p1 x. view (platform p1) va = Some (page_base addr, span_of g addr len) \<and>
       page_base addr + of_nat off = addr \<and> off + unat len \<le> unat (span_of g addr len) \<and>
       guest (platform p1) = guest (platform p) \<and> cache_coherent view g1 (platform p1) \<and>
       f (va + of_nat off) p1 = (x, p') \<and> r = Inr x \<and> g' = snd (maybe_emit_stats elapsed g1))"
proof (cases "mem_handle g = 0 \<or> 2 ^ 64 \<le> unat addr + unat len \<or> max_address g < addr + len")
  case True
  then show ?thesis
    using assms(2,7) by (auto simp: with_mapping_def Let_def checked_add_def split: if_splits)
next
  case False
  obtain q g1 p1 where ac: "acquire api held (mem_handle g) (page_base addr) (span_of g addr len) addr g p = (q, g1, p1)"
    by (metis prod_cases3)
  note av = acquire_views [OF assms(1-3,5) assms(6) [unfolded pages_backed_def] ac]
  show ?thesis
  proof (cases q)
    case (Inl e)
    with False ac assms(7) have "r = Inl e" "g' = g1" "p' = p1"
      by (auto simp: with_mapping_def Let_def checked_add_def span_of_def)
    with av show ?thesis by auto
  next
    case (Inr a)
    let ?off = "unat (addr - page_base addr)"
    obtain x p2 where f: "f (ap_ptr a + (addr - page_base addr)) p1 = (x, p2)" by force
    have "r = Inr x" "g' = snd (maybe_emit_stats elapsed g1)" "p' = p2"
      using False ac assms(7) Inr f by (auto simp: with_mapping_def Let_def checked_add_def span_of_def)
    moreover have "?off + unat len \<le> unat (span_of g addr len)"
      using page_span_covers(1) [of addr len "max_address g"] False assms(4)
      by (simp add: unat_page_offset span_of_def not_less not_le)
    ultimately show ?thesis
      using av Inr f by (intro disjI2 exI [of _ "ap_ptr a"] exI [of _ ?off] exI [of _ g1] exI [of _ p1] exI [of _ x]) simp
  qed
qed

text \<open>
  C1. A successful read returns the bytes of guest memory at the address asked for, whether the
  aperture was cached or mapped for this access and whatever was evicted on the way; no read changes
  guest memory, and the cache stays a set of live views.
\<close>

theorem read_fallback_reads_ram:
  assumes "coherent_platform api hm guest view backed" "cache_coherent view g (platform p)" "clocks_ok g"
    and "unat (max_address g) \<le> 2 ^ 64 - 4096" "unat (span_of g addr len) < 2 ^ 32"
    and "pages_backed backed (platform p) g addr len"
    and "read_fallback api hm held elapsed addr len g p = (r, g', p')"
  shows "cache_coherent view g' (platform p') \<and> guest (platform p') = guest (platform p) \<and>
    (\<forall>bytes. r = Inr bytes \<longrightarrow> bytes = ram_read (guest (platform p)) addr (unat len))"
  using with_mapping_views [OF assms(1-6) assms(7) [unfolded read_fallback_def]]
    assms(1) [unfolded coherent_platform_def, THEN conjunct2, THEN conjunct2, THEN conjunct1]
  by (elim disjE exE conjE) auto

text \<open>
  C2. A successful write stores exactly its bytes at the address asked for and nothing else; a failed
  one leaves guest memory as it was. Either way the cache stays a set of live views.
\<close>

theorem write_fallback_writes_ram:
  assumes "coherent_platform api hm guest view backed" "cache_coherent view g (platform p)" "clocks_ok g"
    and "unat (max_address g) \<le> 2 ^ 64 - 4096" "unat (span_of g addr (of_nat (length src))) < 2 ^ 32"
    and "length src < 2 ^ 64" "pages_backed backed (platform p) g addr (of_nat (length src))"
    and "write_fallback api hm held elapsed addr src g p = (r, g', p')"
  shows "cache_coherent view g' (platform p') \<and>
    guest (platform p') = (case r of Inr _ \<Rightarrow> ram_write addr src (guest (platform p))
                                   | Inl _ \<Rightarrow> guest (platform p))"
proof -
  have len: "unat (of_nat (length src) :: usize) = length src" using assms(6) by (intro unat_of_nat_small) simp
  note store = assms(1) [unfolded coherent_platform_def Let_def, THEN conjunct2, THEN conjunct2, THEN conjunct2]
  show ?thesis
    using with_mapping_views [OF assms(1-5,7) assms(8) [unfolded write_fallback_def]] store
    by (elim disjE exE conjE) (auto simp: len cache_coherent_def views_ok_def)
qed

section \<open>Concrete runs\<close>

definition sim_process :: "sim process" where
  "sim_process = \<lparr>flags = (\<lambda>_. True), next_flag = 1,
     platform = \<lparr>sim_ram = (\<lambda>_. 7), sim_views = [], sim_next = 1, sim_quota = 8\<rparr>\<rparr>"

definition sim_mem :: hdv_aperture_mem where
  "sim_mem = into_guest_memory 5 0x10000000 0 True"

lemma sim_geometry:
  "page_base 0x1234 = 0x1000" "page_span (max_address sim_mem) 0x1000 (0x1234 + 4) = 0x1000"
  "max_address sim_mem = 0x110000000" "shard_index 0x1000 = 1" "span_of sim_mem 0x1234 4 = 0x1000"
  "page_span 0x110000000 0x1000 0x1238 = 0x1000" "mem_handle sim_mem = 5"
  by (simp_all add: page_base_def PAGE_def page_span_def sim_mem_def into_guest_memory_def
      ram_size_to_max_gpa_def HIGH_RAM_BASE_def saturating_add_def div_ceil_def Let_def min_def
      shard_index_def SHARDS_def span_of_def)

lemma sim_acquire:
  "\<exists>a g' p'. acquire sim_api held 5 0x1000 0x1000 0x1234 sim_mem sim_process = (Inr a, g', p')"
  by (simp add: acquire_def sim_geometry Let_def lookup_def sim_mem_def into_guest_memory_def SHARDS_def
      Shard_default_def get_or_create_def evict_if_full_def create_loop.simps create_aperture_eq
      sim_api_def sim_process_def)

lemma sim_with_mapping:
  "\<exists>r g' p'. with_mapping sim_api held 0 0x1234 4 f sim_mem sim_process = (Inr r, g', p')"
proof -
  obtain a g' p' where "acquire sim_api held 5 0x1000 0x1000 0x1234 sim_mem sim_process = (Inr a, g', p')"
    using sim_acquire by blast
  then show ?thesis
    by (simp add: with_mapping_def sim_geometry checked_add_def Let_def split: prod.split)
qed

lemma sim_mem_ok: "mem_inv sim_mem" "clocks_ok sim_mem" "unat (max_address sim_mem) \<le> 2 ^ 64 - 4096"
  "cache_coherent sim_view sim_mem (platform sim_process)"
  "pages_backed (\<lambda>_ _. True) (platform sim_process) sim_mem addr len"
proof -
  show inv: "mem_inv sim_mem" unfolding sim_mem_def by (rule mem_inv_into_guest_memory)
  have "shards sim_mem = replicate SHARDS Shard_default" by (simp add: sim_mem_def into_guest_memory_def)
  then show "clocks_ok sim_mem" "cache_coherent sim_view sim_mem (platform sim_process)"
    using inv by (simp_all add: clocks_ok_def cache_coherent_def views_ok_def Shard_default_def)
  show "unat (max_address sim_mem) \<le> 2 ^ 64 - 4096" by (simp add: sim_geometry)
  show "pages_backed (\<lambda>_ _. True) (platform sim_process) sim_mem addr len" by (simp add: pages_backed_def)
qed

theorem get_or_create_correct_witness:
  "\<exists>r s' st' p'.
     get_or_create sim_api (\<lambda>_. False) 5 0x1000 0x1000 0x1234 0 Shard_default (Stats_new True) sim_process =
       (r, s', st', p') \<and> shard_inv s' \<and> clock s' = (1 :: u64)"
proof -
  obtain r s' st' p' where run:
    "get_or_create sim_api (\<lambda>_. False) 5 0x1000 0x1000 0x1234 0 Shard_default (Stats_new True) sim_process = (r, s', st', p')"
    by (metis prod_cases4)
  have "shard_inv Shard_default" "clock Shard_default \<noteq> (- 1 :: u64)"
    by (simp_all add: shard_inv_def Shard_default_def)
  from get_or_create_correct [OF this run] run show ?thesis by (auto simp: Shard_default_def)
qed

lemma with_mapping_invariant_example:
  "\<exists>r g' p'. with_mapping sim_api (\<lambda>_. False) 0 0x1234 4 (\<lambda>va p. (va, p)) sim_mem sim_process = (r, g', p') \<and>
     mem_inv g' \<and> entries g' \<le> 1024"
proof -
  obtain r g' p' where run:
    "with_mapping sim_api (\<lambda>_. False) 0 0x1234 4 (\<lambda>va p. (va, p)) sim_mem sim_process = (r, g', p')"
    by (metis prod_cases3)
  from with_mapping_invariant [OF sim_mem_ok(1,2) run, of 0 0 0 True] run show ?thesis
    by (auto simp: MAX_ENTRIES_def)
qed

theorem with_mapping_in_bounds_witness:
  "\<exists>a g1 p1. acquire sim_api (\<lambda>_. False) 5 0x1000 0x1000 0x1234 sim_mem sim_process = (Inr a, g1, p1) \<and>
     0x234 + 4 \<le> unat (ap_len a)"
proof -
  obtain r g' p' where run:
    "with_mapping sim_api (\<lambda>_. False) 0 0x1234 4 (\<lambda>va p. (va, p)) sim_mem sim_process = (Inr r, g', p')"
    using sim_with_mapping by metis
  from with_mapping_in_bounds [OF sim_mem_ok(1-3) run] show ?thesis by (auto simp: sim_geometry)
qed

lemma ram_admitted_example:
  "fst (with_mapping sim_api (\<lambda>_. False) 0 0x1234 4 (\<lambda>va p. (va, p)) sim_mem sim_process) \<noteq> Inl (0x1234, BadRange)"
proof -
  have "max_address sim_mem = ram_size_to_max_gpa 0x10000000" by (simp add: sim_mem_def into_guest_memory_def)
  from ram_admitted [OF _ _ _ this sim_mem_ok(1,2), where low = "0x8000000 :: nat" and addr = "0x1234" and len = 4
    and api = sim_api and held = "\<lambda>_. False" and elapsed = 0 and f = "\<lambda>va p. (va, p)"
    and p = sim_process and e = "0x1234"]
  show ?thesis by (simp add: sim_geometry)
qed

theorem read_fallback_reads_ram_witness:
  "fst (read_fallback sim_api sim_memory (\<lambda>_. False) 0 0x1234 4 sim_mem sim_process) = Inr [7, 7, 7, 7]"
proof -
  obtain bytes g' p' where run:
    "read_fallback sim_api sim_memory (\<lambda>_. False) 0 0x1234 4 sim_mem sim_process = (Inr bytes, g', p')"
    using sim_with_mapping [of "\<lambda>_. False" "\<lambda>src p. (load_bytes sim_memory src 4 (platform p), p)"]
    by (auto simp: read_fallback_def)
  from read_fallback_reads_ram [OF sim_coherent sim_mem_ok(4,2,3) _ sim_mem_ok(5) run]
  have "bytes = ram_read (sim_ram (platform sim_process)) 0x1234 4" by (simp add: sim_geometry)
  then show ?thesis unfolding run by (simp add: ram_read_def sim_process_def upt_rec)
qed

theorem write_fallback_writes_ram_witness:
  "\<exists>g' p'. write_fallback sim_api sim_memory (\<lambda>_. False) 0 0x1234 [1, 2, 3, 4] sim_mem sim_process = (Inr (), g', p') \<and>
     sim_ram (platform p') 0x1236 = 3"
proof -
  obtain g' p' where run:
    "write_fallback sim_api sim_memory (\<lambda>_. False) 0 0x1234 [1, 2, 3, 4] sim_mem sim_process = (Inr (), g', p')"
    using sim_with_mapping [of "\<lambda>_. False"
        "\<lambda>dest p. ((), p\<lparr>platform := store_bytes sim_memory dest [1, 2, 3, 4] (platform p)\<rparr>)"]
    by (auto simp: write_fallback_def)
  from write_fallback_writes_ram [OF sim_coherent sim_mem_ok(4,2,3) _ _ _ run]
  show ?thesis by (simp add: run sim_geometry sim_mem_ok)
qed

end
