(* ===== verification/Aperture_Lifetime.thy ===== *)
theory Aperture_Lifetime
  imports Guest_Memory
begin

text \<open>
  Who unmaps an aperture and when. First in sequence: the cache finalised after its device host is
  dropped. Then interleaved: the copies in flight, the cache and the host run on different threads,
  and both \<open>Drop\<close> bodies are split at their atomic accesses. What holds: the mapping lives as long as
  any clone, it is unmapped at most once, and never once the flag was seen cleared; what does not:
  an unmap that read the flag before it was cleared can still reach the device after the teardown.
\<close>

section \<open>In sequence\<close>

text \<open>Finalising the cache drops the clone of every entry of every shard.\<close>

definition cached :: "hdv_aperture_mem \<Rightarrow> aperture list" where
  "cached g = concat (map (\<lambda>s. map (\<lambda>(_, c). ap c) (cache s)) (shards g))"

definition cache_drop :: "'w hdv_api \<Rightarrow> (aperture \<Rightarrow> bool) \<Rightarrow> hdv_aperture_mem \<Rightarrow> 'w process \<Rightarrow> 'w process" where
  "cache_drop api held g p = fold (\<lambda>a. drop_arc api held (Some a)) (cached g) p"

lemma cached_stamped:
  assumes "mem_inv g" "a \<in> set (cached g)"
  shows "ap_alive a = Some (mem_alive g)"
proof -
  from assms(2) obtain s k c where s: "s \<in> set (shards g)" "(k, c) \<in> set (cache s)" "a = ap c"
    by (auto simp: cached_def)
  then obtain i where i: "i < SHARDS" "s = shards g ! i"
    using assms(1) by (auto simp: mem_inv_def in_set_conv_nth)
  then have ok: "shard_ok (mem_alive g) i s" using assms(1) by (simp add: mem_inv_def)
  then have "map_of (cache s) k = Some c" using s(2) by (simp add: shard_ok_def shard_inv_def)
  then have "entry_ok (mem_alive g) i k c" using ok unfolding shard_ok_def by blast
  then show ?thesis by (simp add: entry_ok_def s(3))
qed

lemma dead_drop: "ap_alive a = Some f \<Longrightarrow> \<not> flags p f \<Longrightarrow> drop_arc api held (Some a) p = p"
  by (simp add: drop_arc_def Aperture_drop_def known_dead_def)

lemma fold_dead_drop:
  "(\<And>a. a \<in> set as \<Longrightarrow> ap_alive a = Some f) \<Longrightarrow> \<not> flags p f \<Longrightarrow>
   fold (\<lambda>a. drop_arc api held (Some a)) as p = p"
  by (induction as) (simp_all add: dead_drop)

text \<open>
  Once the flag is cleared, finalising the aperture cache makes no platform call at all, whichever
  copies still hold a clone: every cached aperture carries the flag, and each unmap is skipped.
\<close>

lemma cache_drop_dead:
  assumes "mem_inv g" "\<not> flags p (mem_alive g)"
  shows "cache_drop api held g p = p"
  unfolding cache_drop_def using cached_stamped [OF assms(1)] assms(2) by (intro fold_dead_drop) auto

section \<open>Interleaved\<close>

text \<open>
  One aperture, one host. \<open>Aperture::drop\<close> is run by whoever releases the last clone: it loads the
  flag and then either returns or calls the destroy. \<open>DeviceHost::drop\<close> stores the flag and then
  tears the device down.
\<close>

datatype drop_pc = Mapped | DropLoad | DropDestroy | Dropped
datatype host_pc = HostUp | HostMarked | HostDown

record lifetime =
  clones :: nat
  drop_at :: drop_pc
  host_at :: host_pc
  alive_bit :: bool
  destroys :: nat
  late_destroy :: bool
  copies :: nat

definition lifetime_init :: "lifetime \<Rightarrow> bool" where
  "lifetime_init t \<longleftrightarrow>
     t = \<lparr>clones = 1, drop_at = Mapped, host_at = HostUp, alive_bit = True, destroys = 0,
          late_destroy = False, copies = 0\<rparr>"

inductive lifetime_step :: "lifetime \<Rightarrow> lifetime \<Rightarrow> bool" where
  clone: "0 < clones t \<Longrightarrow> lifetime_step t (t\<lparr>clones := Suc (clones t)\<rparr>)"
| copy: "0 < clones t \<Longrightarrow> lifetime_step t (t\<lparr>copies := Suc (copies t)\<rparr>)"
| release: "1 < clones t \<Longrightarrow> lifetime_step t (t\<lparr>clones := clones t - 1\<rparr>)"
| release_last: "clones t = 1 \<Longrightarrow> lifetime_step t (t\<lparr>clones := 0, drop_at := DropLoad\<rparr>)"
| load_flag: "drop_at t = DropLoad \<Longrightarrow>
    lifetime_step t (t\<lparr>drop_at := (if alive_bit t then DropDestroy else Dropped)\<rparr>)"
| destroy: "drop_at t = DropDestroy \<Longrightarrow>
    lifetime_step t (t\<lparr>drop_at := Dropped, destroys := Suc (destroys t),
                       late_destroy := (host_at t = HostDown)\<rparr>)"
| mark_dead: "host_at t = HostUp \<Longrightarrow> lifetime_step t (t\<lparr>host_at := HostMarked, alive_bit := False\<rparr>)"
| teardown: "host_at t = HostMarked \<Longrightarrow> lifetime_step t (t\<lparr>host_at := HostDown\<rparr>)"

definition lifetime_inv :: "lifetime \<Rightarrow> bool" where
  "lifetime_inv t \<longleftrightarrow>
     (0 < clones t \<longleftrightarrow> drop_at t = Mapped) \<and> (drop_at t \<noteq> Dropped \<longrightarrow> destroys t = 0) \<and>
     destroys t \<le> 1 \<and> (alive_bit t \<longleftrightarrow> host_at t = HostUp)"

interpretation lifetime: safe_machine lifetime_init lifetime_step lifetime_inv
proof unfold_locales
  show "lifetime_init t \<Longrightarrow> lifetime_inv t" for t
    by (simp add: lifetime_init_def lifetime_inv_def)
  show "lifetime_inv t \<Longrightarrow> lifetime_step t u \<Longrightarrow> lifetime_inv u" for t u
    by (erule lifetime_step.cases) (auto simp: lifetime_inv_def split: if_splits)
qed

text \<open>A drop that has not read the flag yet, after the flag was cleared: its unmap is skipped.\<close>

definition drop_is_late :: "lifetime \<Rightarrow> bool" where
  "drop_is_late t \<longleftrightarrow> \<not> alive_bit t \<and> drop_at t \<noteq> DropDestroy \<and> destroys t = 0"

lemma drop_is_late_steps: "lifetime_step\<^sup>*\<^sup>* t u \<Longrightarrow> drop_is_late t \<Longrightarrow> drop_is_late u"
  by (induction rule: rtranclp_induct)
    (auto elim!: lifetime_step.cases simp: drop_is_late_def split: if_splits)



text \<open>
  C40. The flag does not close the race with the teardown: a drop that loads the flag just before the
  host clears it goes on to call the destroy on a device that is already torn down.
\<close>

theorem aperture_teardown_race:
  "\<exists>t. reach lifetime_init lifetime_step t \<and> late_destroy t"
proof -
  let ?t0 = "\<lparr>clones = 1, drop_at = Mapped, host_at = HostUp, alive_bit = True, destroys = 0,
     late_destroy = False, copies = 0\<rparr>"
  let ?t1 = "?t0\<lparr>clones := 0, drop_at := DropLoad\<rparr>"
  let ?t2 = "?t1\<lparr>drop_at := (if alive_bit ?t1 then DropDestroy else Dropped)\<rparr>"
  let ?t3 = "?t2\<lparr>host_at := HostMarked, alive_bit := False\<rparr>"
  let ?t4 = "?t3\<lparr>host_at := HostDown\<rparr>"
  let ?t5 = "?t4\<lparr>drop_at := Dropped, destroys := Suc (destroys ?t4), late_destroy := (host_at ?t4 = HostDown)\<rparr>"
  have "reach lifetime_init lifetime_step ?t0" by (simp add: reach_init lifetime_init_def)
  then have "reach lifetime_init lifetime_step ?t1" by (rule reach_step) (rule release_last, simp)
  then have "reach lifetime_init lifetime_step ?t2" by (rule reach_step) (rule load_flag, simp)
  then have "reach lifetime_init lifetime_step ?t3" by (rule reach_step) (rule mark_dead, simp)
  then have "reach lifetime_init lifetime_step ?t4" by (rule reach_step) (rule teardown, simp)
  then have "reach lifetime_init lifetime_step ?t5" by (rule reach_step) (rule destroy, simp)
  moreover have "late_destroy ?t5" by simp
  ultimately show ?thesis by blast
qed

end
