(* ===== verification/Aperture_Threads.thy ===== *)
theory Aperture_Threads
  imports Aperture_Lifetime
begin

text \<open>
  Any number of threads on the one aperture cache of a device (\<open>virtio-hdv/src/mem.rs\<close>): the executor
  and the threads of the worker pool all read and write guest memory through \<open>HdvApertureMem\<close>. Each
  critical section of a shard's lock is one step (the shared one of a hit with its restamp, the
  exclusive one of a miss), and so is every byte that is copied, because the copy runs without the
  lock. Who holds a clone of an \<open>Arc<Aperture>\<close> is read off the threads, so an eviction unmaps
  exactly the apertures nobody copies through, and the last of the others is unmapped when its copy
  lets go of it. The guest and the platform may change the memory and back more pages between any two
  steps. Shown: a copy never touches an address that is not mapped, whatever is evicted meanwhile;
  every byte is the guest's byte at its address; the cache keeps its invariant; and the number of
  mapped apertures is bounded by the size of the cache and the number of threads.
\<close>

section \<open>The machine\<close>

datatype access = Rd usize | Wr "u8 list"

fun access_len :: "access \<Rightarrow> usize" where
  "access_len (Rd n) = n"
| "access_len (Wr bs) = of_nat (length bs)"

fun access_bytes :: "access \<Rightarrow> nat" where
  "access_bytes (Rd n) = unat n"
| "access_bytes (Wr bs) = length bs"

text \<open>
  Where a thread is in \<open>with_mapping\<close>: before the look-up, between the look-up that missed and the
  exclusive lock, in the copy with the bytes done so far, and before the drop of its clone.
\<close>

datatype phase =
    Resting
  | Looking access u64
  | Missed access u64
  | Copying access u64 aperture "u8 list"
  | Releasing aperture

fun holding :: "phase \<Rightarrow> aperture option" where
  "holding (Copying op addr a bs) = Some a"
| "holding (Releasing a) = Some a"
| "holding _ = None"

definition clone_held :: "phase list \<Rightarrow> aperture \<Rightarrow> bool" where
  "clone_held ts a \<longleftrightarrow> Some a \<in> set (map holding ts)"

record 'w accesses =
  am :: hdv_aperture_mem
  ac_proc :: "'w process"
  threads :: "phase list"

definition access_key :: "hdv_aperture_mem \<Rightarrow> access \<Rightarrow> u64 \<Rightarrow> page_key" where
  "access_key g op addr = (page_base addr, span_of g addr (access_len op))"

text \<open>The checks before the look-up.\<close>

definition admitted :: "hdv_aperture_mem \<Rightarrow> access \<Rightarrow> u64 \<Rightarrow> bool" where
  "admitted g op addr \<longleftrightarrow>
     mem_handle g \<noteq> 0 \<and> (case checked_add addr (access_len op) of None \<Rightarrow> False | Some end \<Rightarrow> end \<le> max_address g)"

text \<open>The address of the next byte of a copy.\<close>

definition copy_ptr :: "u64 \<Rightarrow> aperture \<Rightarrow> nat \<Rightarrow> PVOID" where
  "copy_ptr addr a k = ap_ptr a + (addr - page_base addr) + of_nat k"

text \<open>The shard of an access.\<close>

definition home :: "hdv_aperture_mem \<Rightarrow> u64 \<Rightarrow> aperture shard" where
  "home g addr = shards g ! shard_index (page_base addr)"

definition put_home :: "u64 \<Rightarrow> aperture shard \<Rightarrow> stats \<Rightarrow> hdv_aperture_mem \<Rightarrow> hdv_aperture_mem" where
  "put_home addr s st g = put_shard (shard_index (page_base addr)) s st g"

text \<open>
  The drop of a thread's clone unmaps the aperture when it was the last: no other thread holds one
  and the cache has none.
\<close>

definition drop_clone :: "'w hdv_api \<Rightarrow> phase list \<Rightarrow> hdv_aperture_mem \<Rightarrow> aperture \<Rightarrow> 'w process \<Rightarrow> 'w process" where
  "drop_clone api others g a p = drop_arc api (\<lambda>x. clone_held others x \<or> x \<in> set (cached g)) (Some a) p"

text \<open>
  An access that the checks refuse ends at once. The accesses that are served are of backed pages and
  span less than 4 GiB, as virtqueue buffers do, a slice has fewer than \<open>2 ^ 64\<close> bytes, and no shard's
  clock is at its last tick.
\<close>

inductive access_step ::
  "'w hdv_api \<Rightarrow> 'w host_memory \<Rightarrow> ('w \<Rightarrow> PVOID \<rightharpoonup> u64 \<times> u64) \<Rightarrow> ('w \<Rightarrow> u64 \<Rightarrow> bool) \<Rightarrow> 'w accesses \<Rightarrow> 'w accesses \<Rightarrow> bool"
  for api hm view backed
where
  refuse: "i < length (threads s) \<Longrightarrow> threads s ! i = Resting \<Longrightarrow> \<not> admitted (am s) op addr \<Longrightarrow>
    g = (if mem_handle (am s) = 0 then count_in not_bound_update (am s) else count_in bad_range_update (am s)) \<Longrightarrow>
    access_step api hm view backed s (s\<lparr>am := g\<rparr>)"
| ask: "i < length (threads s) \<Longrightarrow> threads s ! i = Resting \<Longrightarrow> admitted (am s) op addr \<Longrightarrow>
    access_bytes op < 2 ^ 64 \<Longrightarrow> unat (span_of (am s) addr (access_len op)) < 2 ^ 32 \<Longrightarrow>
    pages_backed backed (platform (ac_proc s)) (am s) addr (access_len op) \<Longrightarrow>
    access_step api hm view backed s (s\<lparr>threads := (threads s)[i := Looking op addr]\<rparr>)"
| hit: "i < length (threads s) \<Longrightarrow> threads s ! i = Looking op addr \<Longrightarrow> clocks_ok (am s) \<Longrightarrow>
    lookup (access_key (am s) op addr) (home (am s) addr) = (Some a, sh) \<Longrightarrow>
    access_step api hm view backed s
      (s\<lparr>am := put_home addr sh (count hits_update (mem_stats (am s))) (am s), threads := (threads s)[i := Copying op addr a []]\<rparr>)"
| miss: "i < length (threads s) \<Longrightarrow> threads s ! i = Looking op addr \<Longrightarrow>
    lookup (access_key (am s) op addr) (home (am s) addr) = (None, sh) \<Longrightarrow>
    access_step api hm view backed s (s\<lparr>threads := (threads s)[i := Missed op addr]\<rparr>)"
| map_in: "i < length (threads s) \<Longrightarrow> threads s ! i = Missed op addr \<Longrightarrow> clocks_ok (am s) \<Longrightarrow>
    get_or_create api (clone_held (threads s)) (mem_handle (am s)) (page_base addr) (span_of (am s) addr (access_len op)) addr
      (mem_alive (am s)) (home (am s) addr) (mem_stats (am s)) (ac_proc s) = (r, sh, st, p) \<Longrightarrow>
    access_step api hm view backed s
      \<lparr>am = put_home addr sh st (am s), ac_proc = p,
       threads = (threads s)[i := (case r of Inl e \<Rightarrow> Resting | Inr a \<Rightarrow> Copying op addr a [])]\<rparr>"
| load: "i < length (threads s) \<Longrightarrow> threads s ! i = Copying (Rd n) addr a bs \<Longrightarrow> length bs < unat n \<Longrightarrow>
    load_bytes hm (copy_ptr addr a (length bs)) 1 (platform (ac_proc s)) = [b] \<Longrightarrow>
    access_step api hm view backed s (s\<lparr>threads := (threads s)[i := Copying (Rd n) addr a (bs @ [b])]\<rparr>)"
| store: "i < length (threads s) \<Longrightarrow> threads s ! i = Copying (Wr src) addr a bs \<Longrightarrow> length bs < length src \<Longrightarrow>
    p = (ac_proc s)\<lparr>platform := store_bytes hm (copy_ptr addr a (length bs)) [src ! length bs] (platform (ac_proc s))\<rparr> \<Longrightarrow>
    access_step api hm view backed s
      (s\<lparr>ac_proc := p, threads := (threads s)[i := Copying (Wr src) addr a (bs @ [src ! length bs])]\<rparr>)"
| copied: "i < length (threads s) \<Longrightarrow> threads s ! i = Copying op addr a bs \<Longrightarrow> length bs = access_bytes op \<Longrightarrow>
    access_step api hm view backed s
      (s\<lparr>am := snd (maybe_emit_stats elapsed (am s)), threads := (threads s)[i := Releasing a]\<rparr>)"
| let_go: "i < length (threads s) \<Longrightarrow> threads s ! i = Releasing a \<Longrightarrow> ts = (threads s)[i := Resting] \<Longrightarrow>
    access_step api hm view backed s (s\<lparr>ac_proc := drop_clone api ts (am s) a (ac_proc s), threads := ts\<rparr>)"
| world: "view w = view (platform (ac_proc s)) \<Longrightarrow> (\<And>x. backed (platform (ac_proc s)) x \<Longrightarrow> backed w x) \<Longrightarrow>
    access_step api hm view backed s (s\<lparr>ac_proc := (ac_proc s)\<lparr>platform := w\<rparr>\<rparr>)"

definition access_init :: "('w \<Rightarrow> PVOID \<rightharpoonup> u64 \<times> u64) \<Rightarrow> 'w accesses \<Rightarrow> bool" where
  "access_init view s \<longleftrightarrow>
     (\<exists>handle ram alive stats_on. am s = into_guest_memory handle ram alive stats_on \<and> flags (ac_proc s) alive \<and>
        unat (max_address (am s)) \<le> 2 ^ 64 - 4096) \<and>
     view (platform (ac_proc s)) = Map.empty \<and> set (threads s) \<subseteq> {Resting}"

section \<open>The cached apertures\<close>

lemma cached_iff:
  assumes "mem_inv g"
  shows "a \<in> set (cached g) \<longleftrightarrow> (\<exists>i < SHARDS. \<exists>k c. map_of (cache (shards g ! i)) k = Some c \<and> a = ap c)"
proof
  have len: "length (shards g) = SHARDS" and dist: "\<And>i. i < SHARDS \<Longrightarrow> distinct (keys (cache (shards g ! i)))"
    using assms by (auto simp: mem_inv_def shard_ok_def shard_inv_def)
  {
    assume "a \<in> set (cached g)"
    then obtain sh k c where c: "sh \<in> set (shards g)" "(k, c) \<in> set (cache sh)" "a = ap c" by (auto simp: cached_def)
    then obtain i where "i < SHARDS" "shards g ! i = sh" using len by (auto simp: in_set_conv_nth)
    then show "\<exists>i < SHARDS. \<exists>k c. map_of (cache (shards g ! i)) k = Some c \<and> a = ap c"
      using c dist [of i] by (intro exI [of _ i] conjI exI [of _ k] exI [of _ c]) auto
  next
    assume "\<exists>i < SHARDS. \<exists>k c. map_of (cache (shards g ! i)) k = Some c \<and> a = ap c"
    then obtain i k c where c: "i < SHARDS" "map_of (cache (shards g ! i)) k = Some c" "a = ap c" by blast
    then have "(k, c) \<in> set (cache (shards g ! i))" "shards g ! i \<in> set (shards g)" using len map_of_SomeD by auto
    then show "a \<in> set (cached g)" using c(3) by (force simp: cached_def)
  }
qed

lemma cached_viewed:
  assumes "cache_coherent view g w" "a \<in> set (cached g)"
  obtains k where "view w (ap_ptr a) = Some k"
  using assms unfolding cache_coherent_def views_ok_def by (metis cached_iff)

lemma cached_unique:
  assumes "cache_coherent view g w" "a \<in> set (cached g)" "b \<in> set (cached g)" "ap_ptr a = ap_ptr b"
  shows "a = b"
proof -
  have g: "mem_inv g" using assms(1) by (simp add: cache_coherent_def)
  obtain i k c where a: "i < SHARDS" "map_of (cache (shards g ! i)) k = Some c" "a = ap c"
    using assms(2) by (auto simp: cached_iff [OF g])
  obtain j l d where b: "j < SHARDS" "map_of (cache (shards g ! j)) l = Some d" "b = ap d"
    using assms(3) by (auto simp: cached_iff [OF g])
  have "view w (ap_ptr a) = Some k" "view w (ap_ptr b) = Some l"
    using assms(1) a b unfolding cache_coherent_def views_ok_def by blast+
  then have kl: "k = l" using assms(4) by simp
  have "shard_index (fst k) = i" "shard_index (fst l) = j"
    using g a b unfolding mem_inv_def shard_ok_def entry_ok_def by blast+
  then show ?thesis using a b kl by simp
qed

section \<open>What the miss path unmaps\<close>

text \<open>The platform hands out no null mapping.\<close>

definition nonnull_platform :: "'w hdv_api \<Rightarrow> bool" where
  "nonnull_platform api \<longleftrightarrow>
     (\<forall>d gpa len wp w code va w'. HdvCreateGuestMemoryAperture api d gpa len wp w = ((code, va), w') \<longrightarrow> \<not> failed code \<longrightarrow> va \<noteq> 0)"

definition droppable :: "'w process \<Rightarrow> aperture shard_map \<Rightarrow> bool" where
  "droppable p m \<longleftrightarrow> (\<forall>k c. map_of m k = Some c \<longrightarrow> \<not> known_dead p (ap c) \<and> ap_ptr (ap c) \<noteq> 0)"

text \<open>
  Whatever is mapped after a step is the aperture \<open>r\<close> it made, or was mapped before and was not evicted
  unless somebody holds it.
\<close>

definition exact ::
  "('w \<Rightarrow> PVOID \<rightharpoonup> u64 \<times> u64) \<Rightarrow> (aperture \<Rightarrow> bool) \<Rightarrow> aperture shard_map \<Rightarrow> 'w \<Rightarrow> ('e + aperture) \<Rightarrow> aperture shard_map \<Rightarrow> 'w \<Rightarrow> bool" where
  "exact view held m w r m' w' \<longleftrightarrow>
     (\<forall>x. view w' x \<noteq> None \<longrightarrow> (\<exists>a. r = Inr a \<and> ap_ptr a = x) \<or>
        view w x \<noteq> None \<and> (\<forall>k c. map_of m k = Some c \<longrightarrow> ap_ptr (ap c) = x \<longrightarrow> held (ap c) \<or> map_of m' k = Some c))"

lemma exact_trans:
  assumes "exact view held m w (Inl e) m' w'" "exact view held m' w' r m'' w''"
  shows "exact view held m w r m'' w''"
  unfolding exact_def
proof (intro allI impI)
  fix x assume "view w'' x \<noteq> None"
  then consider "\<exists>a. r = Inr a \<and> ap_ptr a = x"
    | "view w' x \<noteq> None" "\<And>k c. map_of m' k = Some c \<Longrightarrow> ap_ptr (ap c) = x \<Longrightarrow> held (ap c) \<or> map_of m'' k = Some c"
    using assms(2) unfolding exact_def by blast
  then show "(\<exists>a. r = Inr a \<and> ap_ptr a = x) \<or>
    view w x \<noteq> None \<and> (\<forall>k c. map_of m k = Some c \<longrightarrow> ap_ptr (ap c) = x \<longrightarrow> held (ap c) \<or> map_of m'' k = Some c)"
  proof cases
    case 2
    have "view w x \<noteq> None \<and> (\<forall>k c. map_of m k = Some c \<longrightarrow> ap_ptr (ap c) = x \<longrightarrow> held (ap c) \<or> map_of m' k = Some c)"
      using assms(1) 2(1) unfolding exact_def by blast
    then show ?thesis using 2(2) by blast
  qed blast
qed

lemma exact_result:
  assumes "exact view held m w q m' w'" "\<And>a. q = Inr a \<Longrightarrow> \<exists>b. r = Inr b \<and> ap_ptr b = ap_ptr a"
    "\<And>k c. map_of m' k = Some c \<Longrightarrow> map_of m k = Some c \<Longrightarrow> map_of m'' k = Some c"
  shows "exact view held m w r m'' w'"
  unfolding exact_def
proof (intro allI impI)
  fix x assume "view w' x \<noteq> None"
  with assms(1) have "(\<exists>a. q = Inr a \<and> ap_ptr a = x) \<or>
      view w x \<noteq> None \<and> (\<forall>k c. map_of m k = Some c \<longrightarrow> ap_ptr (ap c) = x \<longrightarrow> held (ap c) \<or> map_of m' k = Some c)"
    unfolding exact_def by simp
  then show "(\<exists>a. r = Inr a \<and> ap_ptr a = x) \<or>
      view w x \<noteq> None \<and> (\<forall>k c. map_of m k = Some c \<longrightarrow> ap_ptr (ap c) = x \<longrightarrow> held (ap c) \<or> map_of m'' k = Some c)"
    using assms(2,3) by (elim disjE exE conjE) (fastforce, blast)
qed

lemma call_flags [simp]:
  "flags (drop_arc api held dropped p) = flags p" "create_aperture api d gpa len wp p = (r, q) \<Longrightarrow> flags q = flags p"
  by (auto simp: drop_arc_def Aperture_drop_def on_platform_eq split: option.splits)
    (metis flags_create_aperture snd_conv)

lemma droppable_mono:
  "droppable p m \<Longrightarrow> map_of m' \<subseteq>\<^sub>m map_of m \<Longrightarrow> flags q = flags p \<Longrightarrow> droppable q m'"
  unfolding droppable_def known_dead_def map_le_def by (metis domI)

lemma evict_one_cases:
  assumes "map_inv now m" "m \<noteq> []" "evict_one m st = (m', st', dropped)"
  obtains k c where "map_of m k = Some c" "dropped = Some (ap c)" "m' = AList.delete k m"
proof (rule evict_one_spec [OF assms(1,2), of st])
  fix k and c :: "'a cached_entry"
  assume "evict_one m st = (AList.delete k m, dec_live (count evicts_update st), Some (ap c))" "(k, c) \<in> set m"
  then show thesis using that [of k c] assms(1,3) by (auto simp: map_inv_def)
qed

lemma exact_evict:
  assumes "coherent_platform api hm guest view backed" "map_inv now m" "m \<noteq> []" "droppable p m"
    "evict_one m st = (m', st', dropped)"
  shows "exact view held m (platform p) (Inl e) m' (platform (drop_arc api held dropped p))"
proof (rule evict_one_cases [OF assms(2,3,5)])
  fix k c
  assume c: "map_of m k = Some c" "dropped = Some (ap c)" "m' = AList.delete k m"
  have gone: "view (platform (drop_arc api held dropped p)) = (view (platform p))(ap_ptr (ap c) := None)" if "\<not> held (ap c)"
    using that c(1,2) assms(4) assms(1) [unfolded coherent_platform_def, THEN conjunct2, THEN conjunct1]
    unfolding droppable_def by (auto simp: drop_arc_def Aperture_drop_def on_platform_eq Let_def simp del: split_paired_All)
  have kept: "drop_arc api held dropped p = p" if "held (ap c)" using that c(2) by (simp add: drop_arc_def)
  have same: "map_of m' j = Some d" if "map_of m j = Some d" "j \<noteq> k" for j d using that c(3) by (simp add: delete_conv')
  show ?thesis unfolding exact_def
  proof (rule allI, rule impI, rule disjI2, intro conjI allI impI)
    fix x assume x: "view (platform (drop_arc api held dropped p)) x \<noteq> None"
    show "view (platform p) x \<noteq> None" using x gone kept by (cases "held (ap c)") (auto split: if_splits)
    fix j d assume d: "map_of m j = Some d" "ap_ptr (ap d) = x"
    show "held (ap d) \<or> map_of m' j = Some d"
    proof (cases "j = k")
      case True
      then show ?thesis using x gone c(1) d by (cases "held (ap c)") auto
    qed (use same d in blast)
  qed
qed

lemma create_loop_exact:
  assumes "coherent_platform api hm guest view backed"
    and "create_loop api held d base len evictions m st p = (r, m', st', p')" "map_inv now m"
    and "droppable p m" "views_ok view (platform p) m"
    and "\<forall>i < unat (ucast len :: u32). backed (platform p) (base + of_nat i)"
  shows "exact view held m (platform p) r m' (platform p') \<and> flags p' = flags p"
  using assms
proof (induction api held d base len evictions m st p rule: create_loop.induct)
  case (1 api held d base len evictions m st p)
  obtain c q where cr: "create_aperture api d base (ucast len) False p = (c, q)" by force
  note law = coherent_create [OF 1(2) cr]
  have fl: "flags q = flags p" using cr by simp
  show ?case
  proof (cases c)
    case (Inr a)
    with 1 cr have "r = Inr a" "m' = m" "p' = q" by (auto simp: create_loop.simps)
    with law(4) [OF Inr] 1 fl show ?thesis by (auto simp: exact_def)
  next
    case (Inl e)
    have pq: "exact view held m (platform p) (Inl e) m (platform q)" using law(3) [OF Inl] by (simp add: exact_def)
    show ?thesis
    proof (cases "e \<noteq> ERROR_NOT_ENOUGH_QUOTA \<or> m = [] \<or> PER_SHARD_MAX \<le> evictions")
      case True
      with 1 cr Inl have "r = Inl e" "m' = m" "p' = q" by (auto simp: create_loop.simps)
      with pq fl show ?thesis by simp
    next
      case False
      obtain m1 st1 dropped where ev: "evict_one m (count quota_retries_update st) = (m1, st1, dropped)"
        by (metis prod_cases3)
      let ?p1 = "drop_arc api held dropped q"
      have dq: "droppable q m" by (rule droppable_mono [OF 1(5) _ fl]) simp
      have vq: "views_ok view (platform q) m" using law(3) [OF Inl] 1(6) by (simp add: views_ok_def)
      have ne: "m \<noteq> []" using False by blast
      have x1: "exact view held m (platform q) (Inl e) m1 (platform ?p1)" by (rule exact_evict [OF 1(2,4) ne dq ev])
      have kv: "keeps_views guest view backed held m (platform q) m1 (platform ?p1)" by (rule keeps_views_evict [OF 1(2,4) ne vq ev])
      have "map_inv now m1" using evict_one_evicted [OF 1(4), of "count quota_retries_update st"] False ev by auto
      moreover have "create_loop api held d base len (evictions + 1) m1 st1 ?p1 = (r, m', st', p')"
        using 1(3) False by (simp add: create_loop.simps [of _ _ _ _ _ evictions] cr Inl ev)
      moreover have "droppable ?p1 m1" using kv by (intro droppable_mono [OF dq]) (simp_all add: keeps_views_def)
      moreover have "views_ok view (platform ?p1) m1" "\<forall>i < unat (ucast len :: u32). backed (platform ?p1) (base + of_nat i)"
        using kv 1(7) law(2) by (simp_all add: keeps_views_def)
      ultimately have "exact view held m1 (platform ?p1) r m' (platform p') \<and> flags p' = flags ?p1"
        using 1(1) [OF cr [symmetric] Inl False ev [symmetric] refl 1(2)] by blast
      then have "exact view held m (platform p) r m' (platform p')" "flags p' = flags p"
        using exact_trans [OF pq exact_trans [OF x1]] fl by (blast, simp)
      then show ?thesis by blast
    qed
  qed
qed

lemma create_loop_nonnull:
  "nonnull_platform api \<Longrightarrow> create_loop api held d base len evictions m st p = (Inr a, m', st', p') \<Longrightarrow> ap_ptr a \<noteq> 0"
proof (induction api held d base len evictions m st p rule: create_loop.induct)
  case (1 api held d base len evictions m st p)
  obtain c q where cr: "create_aperture api d base (ucast len) False p = (c, q)" by force
  show ?case
  proof (cases c)
    case (Inr b)
    then have "a = b" using 1(3) cr by (simp add: create_loop.simps)
    moreover obtain code va w where call: "HdvCreateGuestMemoryAperture api d base (ucast len) False (platform p) = ((code, va), w)"
      by (metis prod.exhaust)
    then have "\<not> failed code" "ap_ptr b = va" using cr Inr by (auto simp: create_aperture_eq Let_def split: if_splits)
    ultimately show ?thesis using 1(2) call unfolding nonnull_platform_def by blast
  next
    case (Inl e)
    show ?thesis
    proof (cases "e \<noteq> ERROR_NOT_ENOUGH_QUOTA \<or> m = [] \<or> PER_SHARD_MAX \<le> evictions")
      case True
      then show ?thesis using 1(3) cr Inl by (simp add: create_loop.simps)
    next
      case False
      obtain m1 st1 dropped where ev: "evict_one m (count quota_retries_update st) = (m1, st1, dropped)" by (metis prod_cases3)
      have "create_loop api held d base len (evictions + 1) m1 st1 (drop_arc api held dropped q) = (Inr a, m', st', p')"
        using 1(3) False by (simp add: create_loop.simps [of _ _ _ _ _ evictions] cr Inl ev)
      then show ?thesis using 1(1) [OF cr [symmetric] Inl False ev [symmetric] refl 1(2)] by blast
    qed
  qed
qed

lemma get_or_create_entry:
  assumes "map_of (cache s) (base, len) = None"
    "get_or_create api held d base len err_addr alive s st p = (r, s', st', p')" "r = Inr a"
  shows "map_of (cache s') (base, len) = Some \<lparr>ap = a, last_used = clock s + 1\<rparr>"
  using assms by (auto simp: get_or_create_def Let_def update_conv' split: prod.splits sum.splits)

lemma get_or_create_exact:
  assumes "coherent_platform api hm guest view backed" "map_of (cache s) (base, len) = None"
    "shard_inv s" "clock s \<noteq> - 1" "views_ok view (platform p) (cache s)" "unat len < 2 ^ 32"
    "\<forall>i < unat len. backed (platform p) (base + of_nat i)" "droppable p (cache s)"
    "get_or_create api held d base len err_addr alive s st p = (r, s', st', p')"
  shows "exact view held (cache s) (platform p) r (cache s') (platform p')" "flags p' = flags p"
    "nonnull_platform api \<Longrightarrow> r = Inr a \<Longrightarrow> ap_ptr a \<noteq> 0"
proof -
  obtain m1 st1 p1 where full: "evict_if_full api held (cache s) st p = (m1, st1, p1)" by (metis prod_cases3)
  note mi = shard_inv_map_inv [OF assms(3,4)]
  have k1: "keeps_views guest view backed held (cache s) (platform p) m1 (platform p1)"
    by (rule evict_if_full_views [OF assms(1) full mi assms(5)])
  have e1: "exact view held (cache s) (platform p) (Inl (0 :: HRESULT)) m1 (platform p1)" "flags p1 = flags p"
  proof -
    have "exact view held (cache s) (platform p) (Inl (0 :: HRESULT)) m1 (platform p1) \<and> flags p1 = flags p"
    proof (cases "PER_SHARD_MAX \<le> length (cache s)")
      case True
      then have "cache s \<noteq> []" by auto
      obtain m st2 dropped where ev: "evict_one (cache s) st = (m, st2, dropped)" by (metis prod_cases3)
      with full True have "m1 = m" "p1 = drop_arc api held dropped p" by (auto simp: evict_if_full_def)
      then show ?thesis using exact_evict [OF assms(1) mi \<open>cache s \<noteq> []\<close> assms(8) ev] by simp
    next
      case False
      then have "m1 = cache s" "p1 = p" using full by (auto simp: evict_if_full_def)
      then show ?thesis by (simp add: exact_def)
    qed
    then show "exact view held (cache s) (platform p) (Inl (0 :: HRESULT)) m1 (platform p1)" "flags p1 = flags p" by auto
  qed
  obtain q m2 st2 p2 where loop: "create_loop api held d base len 0 m1 st1 p1 = (q, m2, st2, p2)" by (metis prod_cases4)
  have u: "unat (ucast len :: u32) = unat len" using assms(6) by (simp add: unat_ucast_mod)
  have "map_inv (clock s + 1) m1" using evict_if_full_spec [OF full mi] by blast
  moreover have "droppable p1 m1" using k1 e1(2) by (intro droppable_mono [OF assms(8)]) (simp_all add: keeps_views_def)
  moreover have "views_ok view (platform p1) m1" "\<forall>i < unat (ucast len :: u32). backed (platform p1) (base + of_nat i)"
    using k1 assms(7) by (simp_all add: keeps_views_def u)
  ultimately have l: "exact view held m1 (platform p1) q m2 (platform p2)" "flags p2 = flags p1"
    using create_loop_exact [OF assms(1) loop] by blast+
  have p': "p' = p2" and cs: "cache s' = (case q of Inl _ \<Rightarrow> m2 | Inr a \<Rightarrow>
      AList.update (base, len) \<lparr>ap = set_liveness alive a, last_used = clock s + 1\<rparr> m2)"
    and r: "r = (case q of Inl e \<Rightarrow> Inl (err_addr, ApertureFailed e) | Inr a \<Rightarrow> Inr (set_liveness alive a))"
    using assms(2,9) by (auto simp: get_or_create_def full loop Let_def split: sum.splits)
  show "flags p' = flags p" using l(2) e1(2) p' by simp
  have "nonnull_platform api \<Longrightarrow> q = Inr b \<Longrightarrow> ap_ptr b \<noteq> 0" for b using create_loop_nonnull loop by blast
  then show "nonnull_platform api \<Longrightarrow> r = Inr a \<Longrightarrow> ap_ptr a \<noteq> 0" using r by (cases q) (auto simp: set_liveness_def)
  have still: "map_of (cache s') k = Some c" if "map_of m2 k = Some c" "map_of (cache s) k = Some c" for k c
    using that assms(2) by (cases q) (auto simp: cs update_conv')
  have made: "\<exists>b. r = Inr b \<and> ap_ptr b = ap_ptr a" if "q = Inr a" for a using that by (simp add: r set_liveness_def)
  show "exact view held (cache s) (platform p) r (cache s') (platform p')"
    unfolding p' by (rule exact_result [OF exact_trans [OF e1(1) l(1)] made still])
qed

section \<open>What an acquisition does to the mappings\<close>

text \<open>The two ways to an aperture are one: the miss path on a key that came in meanwhile is a hit.\<close>

lemma goc_is_acquire:
  assumes "get_or_create api held (mem_handle g) (page_base addr) span addr (mem_alive g) (home g addr) (mem_stats g) p = (r, sh, st, q)"
  shows "acquire api held (mem_handle g) (page_base addr) span addr g p = (r, put_home addr sh st g, q)"
proof (cases "map_of (cache (home g addr)) (page_base addr, span)")
  case None
  then show ?thesis using assms by (simp add: acquire_def lookup_def home_def put_home_def Let_def)
next
  case (Some c)
  have swap: "s\<lparr>clock := n, cache := m\<rparr> = s\<lparr>cache := m, clock := n\<rparr>" for s :: "aperture shard" and n m by simp
  show ?thesis using assms Some
    by (auto simp: acquire_def lookup_def get_or_create_def home_def put_home_def Let_def swap)
qed

lemma hit_is_acquire:
  assumes "lookup (page_base addr, span) (home g addr) = (Some a, sh)"
  shows "acquire api held d (page_base addr) span addr g p = (Inr a, put_home addr sh (count hits_update (mem_stats g)) g, p)"
  using assms by (simp add: acquire_def home_def put_home_def Let_def)

text \<open>A copy in flight keeps the mapping at \<open>x\<close>.\<close>

definition shielded :: "(aperture \<Rightarrow> bool) \<Rightarrow> hdv_aperture_mem \<Rightarrow> PVOID \<Rightarrow> bool" where
  "shielded held g x \<longleftrightarrow> (\<forall>c \<in> set (cached g). ap_ptr c = x \<longrightarrow> held c)"

lemma cached_at: "mem_inv g \<Longrightarrow> i < SHARDS \<Longrightarrow> map_of (cache (shards g ! i)) k = Some c \<Longrightarrow> ap c \<in> set (cached g)"
  by (auto simp: cached_iff simp del: split_paired_Ex)

lemma acquire_hit_cached:
  assumes "mem_inv g" "mem_inv g'" "map_of (cache (shards g ! shard_index base)) (base, span) = Some c"
    "acquire api held d base span addr g p = (r, g', p')"
  shows "r = Inr (ap c)" "p' = p" "set (cached g') = set (cached g)"
proof -
  let ?i = "shard_index base" let ?s = "shards g ! ?i"
  have i: "?i < SHARDS" by (rule shard_index_less)
  have len: "length (shards g) = SHARDS" using assms(1) by (simp add: mem_inv_def)
  have eq: "r = Inr (ap c) \<and> p' = p \<and> shards g' = (shards g)[?i := snd (lookup (base, span) ?s)]"
    using assms(3,4) by (auto simp: acquire_def lookup_hit Let_def put_shard_def)
  then show "r = Inr (ap c)" "p' = p" by auto
  have at: "map_option ap (map_of (cache (shards g' ! j)) k) = map_option ap (map_of (cache (shards g ! j)) k)" if "j < SHARDS" for j k
    using eq that i len assms(3) by (auto simp: nth_list_update lookup_hit update_conv')
  have iff: "a \<in> set (cached h) \<longleftrightarrow> (\<exists>i < SHARDS. \<exists>k. map_option ap (map_of (cache (shards h ! i)) k) = Some a)" if "mem_inv h" for a h
    unfolding cached_iff [OF that] map_option_eq_Some by blast
  have "(\<exists>i < SHARDS. \<exists>k. map_option ap (map_of (cache (shards g' ! i)) k) = Some a) \<longleftrightarrow>
      (\<exists>i < SHARDS. \<exists>k. map_option ap (map_of (cache (shards g ! i)) k) = Some a)" for a
    using at by (metis (no_types))
  then show "set (cached g') = set (cached g)" using iff [OF assms(1)] iff [OF assms(2)] by blast
qed

lemma shielded_spared: "mem_inv g \<Longrightarrow> i < SHARDS \<Longrightarrow> shielded held g x \<Longrightarrow> spared held (cache (shards g ! i)) x"
  unfolding shielded_def spared_def using cached_at by blast

lemma acquire_miss_cached:
  assumes "mem_inv g" "mem_inv g'" "map_of (cache (shards g ! shard_index base)) (base, span) = None"
    "acquire api held d base span addr g p = (r, g', p')"
  obtains sh st where
    "get_or_create api held d base span addr (mem_alive g) (shards g ! shard_index base) (mem_stats g) p = (r, sh, st, p')"
    "shards g' = (shards g)[shard_index base := sh]"
proof -
  let ?s = "shards g ! shard_index base"
  obtain q sh st p1 where goc: "get_or_create api held d base span addr (mem_alive g) ?s (mem_stats g) p = (q, sh, st, p1)"
    by (metis prod_cases4)
  have l: "lookup (base, span) ?s = (None, ?s)" using assms(3) by (simp add: lookup_def)
  show thesis using assms(4) l goc by (intro that [of sh st]) (auto simp: acquire_def Let_def put_shard_def)
qed

lemma acquire_tracks:
  assumes "coherent_platform api hm guest view backed" "cache_coherent view g (platform p)" "clocks_ok g"
    "unat span < 2 ^ 32" "\<forall>i < unat span. backed (platform p) (base + of_nat i)"
    "acquire api held d base span addr g p = (r, g', p')"
  shows "backed (platform p') = backed (platform p)"
    "view (platform p) x \<noteq> None \<Longrightarrow> shielded held g x \<Longrightarrow> view (platform p') x = view (platform p) x"
    "r = Inr a \<Longrightarrow> a \<notin> set (cached g) \<Longrightarrow> view (platform p) x \<noteq> None \<Longrightarrow> shielded held g x \<Longrightarrow> x \<noteq> ap_ptr a"
    "b \<in> set (cached g') \<Longrightarrow> b \<in> set (cached g) \<or> r = Inr b"
    "r = Inr a \<Longrightarrow> a \<in> set (cached g')"
proof -
  let ?i = "shard_index base" let ?s = "shards g ! ?i"
  have i: "?i < SHARDS" by (rule shard_index_less)
  have g: "mem_inv g" and v: "views_ok view (platform p) (cache ?s)" using assms(2) i by (simp_all add: cache_coherent_def)
  have g': "mem_inv g'" by (rule acquire_spec(1) [OF g assms(3,6)])
  have s: "shard_inv ?s" "clock ?s \<noteq> - 1" and len: "length (shards g) = SHARDS"
    using g assms(3) i by (simp_all add: mem_inv_def shard_ok_def clocks_ok_def)
  have "backed (platform p') = backed (platform p) \<and>
    (view (platform p) x \<noteq> None \<longrightarrow> shielded held g x \<longrightarrow> view (platform p') x = view (platform p) x) \<and>
    (r = Inr a \<longrightarrow> a \<notin> set (cached g) \<longrightarrow> view (platform p) x \<noteq> None \<longrightarrow> shielded held g x \<longrightarrow> x \<noteq> ap_ptr a) \<and>
    (b \<in> set (cached g') \<longrightarrow> b \<in> set (cached g) \<or> r = Inr b) \<and> (r = Inr a \<longrightarrow> a \<in> set (cached g'))"
  proof (cases "map_of (cache ?s) (base, span)")
    case (Some c)
    then show ?thesis using acquire_hit_cached [OF g g' Some assms(6)] cached_at [OF g i Some] by auto
  next
    case None
    obtain sh st where goc: "get_or_create api held d base span addr (mem_alive g) ?s (mem_stats g) p = (r, sh, st, p')"
      and sh: "shards g' = (shards g)[?i := sh]" by (rule acquire_miss_cached [OF g g' None assms(6)])
    note ok = get_or_create_views [OF assms(1) None s v assms(4,5) goc]
    have new: "b \<in> set (cached g) \<or> r = Inr b" if b: "b \<in> set (cached g')"
    proof -
      obtain j k c where c: "j < SHARDS" "map_of (cache (shards g' ! j)) k = Some c" "b = ap c"
        using b by (auto simp: cached_iff [OF g'] simp del: split_paired_Ex)
      then show ?thesis using ok(6) [of k c] cached_at [OF g, of j k c] len sh i by (cases "j = ?i") auto
    qed
    have made: "a \<in> set (cached g')" if "r = Inr a"
    proof -
      have "map_of (cache (shards g' ! ?i)) (base, span) = Some \<lparr>ap = a, last_used = clock ?s + 1\<rparr>"
        using get_or_create_entry [OF None goc that] len i sh by simp
      from cached_at [OF g' i this] show ?thesis by simp
    qed
    show ?thesis using ok(2,4) ok(5) [of a] new made shielded_spared [OF g i, of held x] by (auto simp: new_view_def)
  qed
  then show "backed (platform p') = backed (platform p)"
    "view (platform p) x \<noteq> None \<Longrightarrow> shielded held g x \<Longrightarrow> view (platform p') x = view (platform p) x"
    "r = Inr a \<Longrightarrow> a \<notin> set (cached g) \<Longrightarrow> view (platform p) x \<noteq> None \<Longrightarrow> shielded held g x \<Longrightarrow> x \<noteq> ap_ptr a"
    "b \<in> set (cached g') \<Longrightarrow> b \<in> set (cached g) \<or> r = Inr b" "r = Inr a \<Longrightarrow> a \<in> set (cached g')"
    by blast+
qed

text \<open>The mappings after an acquisition, when nothing cached is dead: no evicted one is left behind.\<close>

lemma acquire_exact:
  assumes "coherent_platform api hm guest view backed" "cache_coherent view g (platform p)" "clocks_ok g"
    "unat span < 2 ^ 32" "\<forall>i < unat span. backed (platform p) (base + of_nat i)"
    "acquire api held d base span addr g p = (r, g', p')" "nonnull_platform api"
    "flags p (mem_alive g)" "\<forall>c \<in> set (cached g). ap_ptr c \<noteq> 0"
  shows "flags p' = flags p" "r = Inr a \<Longrightarrow> ap_ptr a \<noteq> 0"
    "view (platform p') x \<noteq> None \<Longrightarrow> (\<exists>a. r = Inr a \<and> ap_ptr a = x) \<or>
       view (platform p) x \<noteq> None \<and> (\<forall>c \<in> set (cached g). ap_ptr c = x \<longrightarrow> held c \<or> c \<in> set (cached g'))"
proof -
  let ?i = "shard_index base" let ?s = "shards g ! ?i"
  have i: "?i < SHARDS" by (rule shard_index_less)
  have g: "mem_inv g" and v: "views_ok view (platform p) (cache ?s)" using assms(2) i by (simp_all add: cache_coherent_def)
  have g': "mem_inv g'" by (rule acquire_spec(1) [OF g assms(3,6)])
  have s: "shard_inv ?s" "clock ?s \<noteq> - 1" and len: "length (shards g) = SHARDS"
    using g assms(3) i by (simp_all add: mem_inv_def shard_ok_def clocks_ok_def)
  have drop: "droppable p (cache ?s)" unfolding droppable_def
    using cached_at [OF g i] cached_stamped [OF g] assms(8,9) by (auto simp: known_dead_def)
  have "flags p' = flags p \<and> (r = Inr a \<longrightarrow> ap_ptr a \<noteq> 0) \<and>
    (view (platform p') x \<noteq> None \<longrightarrow> (\<exists>a. r = Inr a \<and> ap_ptr a = x) \<or>
       view (platform p) x \<noteq> None \<and> (\<forall>c \<in> set (cached g). ap_ptr c = x \<longrightarrow> held c \<or> c \<in> set (cached g')))"
  proof (cases "map_of (cache ?s) (base, span)")
    case (Some c)
    then show ?thesis using acquire_hit_cached [OF g g' Some assms(6)] cached_at [OF g i Some] assms(9) by auto
  next
    case None
    obtain sh st where goc: "get_or_create api held d base span addr (mem_alive g) ?s (mem_stats g) p = (r, sh, st, p')"
      and sh: "shards g' = (shards g)[?i := sh]" by (rule acquire_miss_cached [OF g g' None assms(6)])
    note ok = get_or_create_exact [OF assms(1) None s v assms(4,5) drop goc]
    have kept: "held c \<or> c \<in> set (cached g')" if c: "c \<in> set (cached g)" "ap_ptr c = x"
      "\<And>k c. map_of (cache ?s) k = Some c \<Longrightarrow> ap_ptr (ap c) = x \<Longrightarrow> held (ap c) \<or> map_of (cache sh) k = Some c" for c
    proof -
      obtain j k e where e: "j < SHARDS" "map_of (cache (shards g ! j)) k = Some e" "c = ap e"
        using c(1) by (auto simp: cached_iff [OF g] simp del: split_paired_Ex)
      then show ?thesis using c(2) c(3) [of k e] cached_at [OF g', of j k e] len sh i by (cases "j = ?i") auto
    qed
    show ?thesis using ok(1,2) ok(3) [OF assms(7), of a] kept unfolding exact_def by blast
  qed
  then show "flags p' = flags p" "r = Inr a \<Longrightarrow> ap_ptr a \<noteq> 0"
    "view (platform p') x \<noteq> None \<Longrightarrow> (\<exists>a. r = Inr a \<and> ap_ptr a = x) \<or>
       view (platform p) x \<noteq> None \<and> (\<forall>c \<in> set (cached g). ap_ptr c = x \<longrightarrow> held c \<or> c \<in> set (cached g'))"
    by blast+
qed

section \<open>The invariant\<close>

definition fits :: "('w \<Rightarrow> u64 \<Rightarrow> bool) \<Rightarrow> 'w \<Rightarrow> hdv_aperture_mem \<Rightarrow> access \<Rightarrow> u64 \<Rightarrow> bool" where
  "fits backed w g op addr \<longleftrightarrow>
     admitted g op addr \<and> access_bytes op < 2 ^ 64 \<and> unat (span_of g addr (access_len op)) < 2 ^ 32 \<and>
     pages_backed backed w g addr (access_len op)"

fun phase_ok :: "('w \<Rightarrow> PVOID \<rightharpoonup> u64 \<times> u64) \<Rightarrow> ('w \<Rightarrow> u64 \<Rightarrow> bool) \<Rightarrow> 'w \<Rightarrow> hdv_aperture_mem \<Rightarrow> phase \<Rightarrow> bool" where
  "phase_ok view backed w g Resting = True"
| "phase_ok view backed w g (Looking op addr) = fits backed w g op addr"
| "phase_ok view backed w g (Missed op addr) = fits backed w g op addr"
| "phase_ok view backed w g (Copying op addr a bs) =
     (view w (ap_ptr a) = Some (access_key g op addr) \<and> length bs \<le> access_bytes op \<and>
      unat (addr - page_base addr) + access_bytes op \<le> unat (snd (access_key g op addr)))"
| "phase_ok view backed w g (Releasing a) = (view w (ap_ptr a) \<noteq> None)"

text \<open>The apertures somebody still has a clone of: the cache or a thread.\<close>

definition tracked :: "hdv_aperture_mem \<Rightarrow> phase list \<Rightarrow> aperture set" where
  "tracked g ts = {a. a \<in> set (cached g) \<or> clone_held ts a}"

definition access_inv :: "('w \<Rightarrow> PVOID \<rightharpoonup> u64 \<times> u64) \<Rightarrow> ('w \<Rightarrow> u64 \<Rightarrow> bool) \<Rightarrow> 'w accesses \<Rightarrow> bool" where
  "access_inv view backed s \<longleftrightarrow>
     (let g = am s; p = ac_proc s; w = platform p; T = tracked g (threads s)
      in cache_coherent view g w \<and> unat (max_address g) \<le> 2 ^ 64 - 4096 \<and> flags p (mem_alive g) \<and>
         (\<forall>ph \<in> set (threads s). phase_ok view backed w g ph) \<and>
         inj_on ap_ptr T \<and> dom (view w) = ap_ptr ` T \<and>
         (\<forall>a \<in> T. ap_alive a = Some (mem_alive g) \<and> ap_ptr a \<noteq> 0))"

lemma access_invD:
  assumes "access_inv view backed s"
  shows "cache_coherent view (am s) (platform (ac_proc s))" "unat (max_address (am s)) \<le> 2 ^ 64 - 4096"
    "flags (ac_proc s) (mem_alive (am s))"
    "ph \<in> set (threads s) \<Longrightarrow> phase_ok view backed (platform (ac_proc s)) (am s) ph"
    "inj_on ap_ptr (tracked (am s) (threads s))"
    "dom (view (platform (ac_proc s))) = ap_ptr ` tracked (am s) (threads s)"
    "a \<in> tracked (am s) (threads s) \<Longrightarrow> ap_alive a = Some (mem_alive (am s)) \<and> ap_ptr a \<noteq> 0"
  using assms by (auto simp: access_inv_def Let_def)

lemma phase_ok_frame:
  assumes "phase_ok view backed w g ph" "max_address g' = max_address g" "mem_handle g' = mem_handle g"
    "\<And>x. backed w x \<Longrightarrow> backed w' x" "\<And>a. holding ph = Some a \<Longrightarrow> view w' (ap_ptr a) = view w (ap_ptr a)"
  shows "phase_ok view backed w' g' ph"
proof -
  have "fits backed w g op addr \<Longrightarrow> fits backed w' g' op addr" for op addr
    using assms(2-4) by (auto simp: fits_def admitted_def pages_backed_def span_of_def split: option.splits)
  then show ?thesis using assms by (cases ph) (auto simp: access_key_def span_of_def)
qed

lemma holding_same:
  "i < length ts \<Longrightarrow> holding ph = holding (ts ! i) \<Longrightarrow> clone_held (ts[i := ph]) = clone_held ts"
  unfolding clone_held_def map_update by (metis length_map list_update_id nth_map)

lemma holding_more:
  assumes "i < length ts"
  shows "clone_held ts a \<longleftrightarrow> clone_held (ts[i := Resting]) a \<or> holding (ts ! i) = Some a"
    "holding (ts ! i) = None \<Longrightarrow> clone_held (ts[i := ph]) a \<longleftrightarrow> clone_held ts a \<or> holding ph = Some a"
proof -
  have "clone_held (ts[i := q]) a \<longleftrightarrow> (\<exists>j < length ts. j \<noteq> i \<and> holding (ts ! j) = Some a) \<or> holding q = Some a" for q
    using assms unfolding clone_held_def in_set_conv_nth by (auto simp: nth_list_update) metis+
  note this [of "ts ! i"] this [of Resting] this [of ph]
  then show "clone_held ts a \<longleftrightarrow> clone_held (ts[i := Resting]) a \<or> holding (ts ! i) = Some a"
    "holding (ts ! i) = None \<Longrightarrow> clone_held (ts[i := ph]) a \<longleftrightarrow> clone_held ts a \<or> holding ph = Some a"
    by simp_all
qed

lemma clone_heldI: "ph \<in> set ts \<Longrightarrow> holding ph = Some a \<Longrightarrow> clone_held ts a"
  unfolding clone_held_def by force

text \<open>A step that changes no mapping and no clone keeps the invariant.\<close>

lemma quiet_step:
  assumes "access_inv view backed s"
    "shards (am s') = shards (am s)" "mem_inv (am s')" "max_address (am s') = max_address (am s)"
    "mem_handle (am s') = mem_handle (am s)" "mem_alive (am s') = mem_alive (am s)"
    "view (platform (ac_proc s')) = view (platform (ac_proc s))" "flags (ac_proc s') = flags (ac_proc s)"
    "\<And>x. backed (platform (ac_proc s)) x \<Longrightarrow> backed (platform (ac_proc s')) x"
    "clone_held (threads s') = clone_held (threads s)"
    "\<And>ph. ph \<in> set (threads s') \<Longrightarrow> ph \<in> set (threads s) \<or> phase_ok view backed (platform (ac_proc s')) (am s') ph"
  shows "access_inv view backed s'"
proof -
  note I = access_invD [OF assms(1)]
  have c: "cached (am s') = cached (am s)" using assms(2) by (simp add: cached_def)
  have t: "tracked (am s') (threads s') = tracked (am s) (threads s)" using c assms(10) by (simp add: tracked_def)
  have "cache_coherent view (am s') (platform (ac_proc s'))"
    using I(1) assms(2,3,7) by (simp add: cache_coherent_def views_ok_def)
  moreover have "phase_ok view backed (platform (ac_proc s')) (am s') ph" if "ph \<in> set (threads s')" for ph
    using assms(11) [OF that] phase_ok_frame [OF I(4), of ph, OF _ assms(4,5,9)] assms(7) by auto
  ultimately show ?thesis using I(2,3,5,6,7) assms(4,6-8) t by (simp add: access_inv_def Let_def)
qed

lemma access_len_bytes: "access_bytes op < 2 ^ 64 \<Longrightarrow> unat (access_len op) = access_bytes op"
  by (cases op) (simp_all add: unat_of_nat_small)

lemma fits_covered:
  assumes "fits backed w g op addr" "unat (max_address g) \<le> 2 ^ 64 - 4096"
  shows "unat (addr - page_base addr) + access_bytes op \<le> unat (span_of g addr (access_len op))"
proof -
  have "unat addr + unat (access_len op) < 2 ^ 64" "addr + access_len op \<le> max_address g"
    using assms(1) by (auto simp: fits_def admitted_def checked_add_def not_le split: if_splits)
  from page_span_covers(1) [OF this assms(2)] show ?thesis
    using assms(1) by (simp add: unat_page_offset span_of_def fits_def access_len_bytes)
qed

lemma held_shielded:
  assumes "access_inv view backed s" "clone_held (threads s) a"
  shows "view (platform (ac_proc s)) (ap_ptr a) \<noteq> None" "shielded (clone_held (threads s)) (am s) (ap_ptr a)"
proof -
  note I = access_invD [OF assms(1)]
  have a: "a \<in> tracked (am s) (threads s)" using assms(2) by (simp add: tracked_def)
  then show "view (platform (ac_proc s)) (ap_ptr a) \<noteq> None" using I(6) by blast
  show "shielded (clone_held (threads s)) (am s) (ap_ptr a)"
    using inj_onD [OF I(5) _ _ a] assms(2) unfolding shielded_def by (auto simp: tracked_def)
qed

text \<open>The clones after an acquisition, and that the addresses still tell the apertures apart.\<close>

lemma acquire_tracked:
  assumes "coherent_platform api hm guest view backed" "access_inv view backed s" "clocks_ok (am s)"
    "unat span < 2 ^ 32" "\<forall>i < unat span. backed (platform (ac_proc s)) (base + of_nat i)"
    "acquire api (clone_held (threads s)) d base span addr (am s) (ac_proc s) = (r, g', p')"
    and T': "\<And>b. b \<in> T' \<longleftrightarrow> b \<in> set (cached g') \<or> clone_held (threads s) b"
  shows "b \<in> T' \<Longrightarrow> b \<in> tracked (am s) (threads s) \<or> r = Inr b" "inj_on ap_ptr T'"
proof -
  note I = access_invD [OF assms(2)]
  note at = acquire_tracks [OF assms(1) I(1) assms(3-6)]
  have coh: "cache_coherent view g' (platform p')" by (rule acquire_views(2) [OF assms(1) I(1) assms(3-6)])
  show old: "b \<in> tracked (am s) (threads s) \<or> r = Inr b" if "b \<in> T'" for b
    using that at(4) by (auto simp: T' tracked_def)
  have mixed: "b = c" if b: "b \<in> set (cached g')" and c: "clone_held (threads s) c" and eq: "ap_ptr b = ap_ptr c" for b c
  proof (cases "b \<in> tracked (am s) (threads s)")
    case True
    then show ?thesis using inj_onD [OF I(5) eq True] c by (simp add: tracked_def)
  next
    case False
    then have "r = Inr b" "b \<notin> set (cached (am s))" using at(4) [OF b] by (auto simp: tracked_def)
    from at(3) [OF this held_shielded [OF assms(2) c]] eq show ?thesis by simp
  qed
  show "inj_on ap_ptr T'"
  proof (rule inj_onI)
    fix b c assume bc: "b \<in> T'" "c \<in> T'" "ap_ptr b = ap_ptr c"
    then consider "b \<in> set (cached g')" "c \<in> set (cached g')" | "b \<in> set (cached g')" "clone_held (threads s) c"
      | "clone_held (threads s) b" "c \<in> set (cached g')" | "clone_held (threads s) b" "clone_held (threads s) c"
      unfolding T' by blast
    then show "b = c"
    proof cases
      case 1 then show ?thesis using cached_unique [OF coh] bc(3) by blast
    next
      case 2 then show ?thesis using mixed bc(3) by blast
    next
      case 3 then show ?thesis using mixed [of c b] bc(3) by simp
    next
      case 4 then show ?thesis using inj_onD [OF I(5) bc(3)] by (simp add: tracked_def)
    qed
  qed
qed

lemma acquire_dom:
  assumes "coherent_platform api hm guest view backed" "nonnull_platform api" "access_inv view backed s" "clocks_ok (am s)"
    "unat span < 2 ^ 32" "\<forall>i < unat span. backed (platform (ac_proc s)) (base + of_nat i)"
    "acquire api (clone_held (threads s)) d base span addr (am s) (ac_proc s) = (r, g', p')"
    and T': "\<And>b. b \<in> T' \<longleftrightarrow> b \<in> set (cached g') \<or> clone_held (threads s) b"
  shows "dom (view (platform p')) = ap_ptr ` T'" "flags p' = flags (ac_proc s)"
    "b \<in> T' \<Longrightarrow> ap_alive b = Some (mem_alive (am s)) \<and> ap_ptr b \<noteq> 0"
proof -
  note I = access_invD [OF assms(3)]
  note at = acquire_tracks [OF assms(1) I(1) assms(4-7)]
  have nz: "\<forall>c \<in> set (cached (am s)). ap_ptr c \<noteq> 0" using I(7) by (simp add: tracked_def)
  note ax = acquire_exact [OF assms(1) I(1) assms(4-7,2) I(3) nz]
  show "flags p' = flags (ac_proc s)" by (rule ax(1))
  have coh: "cache_coherent view g' (platform p')" by (rule acquire_views(2) [OF assms(1) I(1) assms(4-7)])
  have g: "mem_inv (am s)" "mem_inv g'" using I(1) coh by (simp_all add: cache_coherent_def)
  have al: "mem_alive g' = mem_alive (am s)" by (rule acquire_spec(2) [OF g(1) assms(4,7)])
  show "ap_alive b = Some (mem_alive (am s)) \<and> ap_ptr b \<noteq> 0" if "b \<in> T'" for b
    using that acquire_tracked(1) [OF assms(1,3-7) T' that] I(7) [of b] ax(2) [of b] cached_stamped [OF g(2), of b] al
    unfolding T' tracked_def by auto
  have "view (platform p') (ap_ptr b) \<noteq> None" if "b \<in> T'" for b
  proof (cases "b \<in> set (cached g')")
    case True
    then show ?thesis using cached_viewed [OF coh] by blast
  next
    case False
    then have h: "clone_held (threads s) b" using that T' by blast
    show ?thesis using at(2) [OF held_shielded [OF assms(3) h]] held_shielded(1) [OF assms(3) h] by simp
  qed
  moreover have "x \<in> ap_ptr ` T'" if x: "view (platform p') x \<noteq> None" for x
    using ax(3) [OF x]
  proof (elim disjE exE conjE)
    fix a assume "r = Inr a" "ap_ptr a = x"
    then show ?thesis using at(5) T' by blast
  next
    assume kept: "\<forall>c \<in> set (cached (am s)). ap_ptr c = x \<longrightarrow> clone_held (threads s) c \<or> c \<in> set (cached g')"
    assume "view (platform (ac_proc s)) x \<noteq> None"
    then obtain a where a: "a \<in> tracked (am s) (threads s)" "x = ap_ptr a" using I(6) by blast
    then have "a \<in> T'" using kept T' [of a] unfolding tracked_def by blast
    then show ?thesis using a(2) by blast
  qed
  ultimately show "dom (view (platform p')) = ap_ptr ` T'" by blast
qed

lemma acquire_step:
  assumes "coherent_platform api hm guest view backed" "nonnull_platform api" "access_inv view backed s" "clocks_ok (am s)"
    "i < length (threads s)" "threads s ! i \<in> {Looking op addr, Missed op addr}"
    "acquire api (clone_held (threads s)) (mem_handle (am s)) (page_base addr) (span_of (am s) addr (access_len op)) addr
       (am s) (ac_proc s) = (r, g', p')"
  shows "access_inv view backed
    \<lparr>am = g', ac_proc = p', threads = (threads s)[i := (case r of Inl e \<Rightarrow> Resting | Inr a \<Rightarrow> Copying op addr a [])]\<rparr>"
    (is "access_inv view backed \<lparr>am = g', ac_proc = p', threads = ?ts\<rparr>")
proof -
  note I = access_invD [OF assms(3)]
  have f: "fits backed (platform (ac_proc s)) (am s) op addr" using I(4) [OF nth_mem [OF assms(5)]] assms(6) by auto
  then have span: "unat (span_of (am s) addr (access_len op)) < 2 ^ 32"
    "\<forall>i < unat (span_of (am s) addr (access_len op)). backed (platform (ac_proc s)) (page_base addr + of_nat i)"
    by (simp_all add: fits_def pages_backed_def)
  note run = assms(1) I(1) assms(4) span assms(7)
  note av = acquire_views [OF run] and at = acquire_tracks [OF run]
  have g: "mem_inv (am s)" using I(1) by (simp add: cache_coherent_def)
  note fr = acquire_spec(2-4) [OF g assms(4,7)]
  have ch: "clone_held ?ts b \<longleftrightarrow> clone_held (threads s) b \<or> r = Inr b" for b
    using holding_more(2) [OF assms(5), of _ b] assms(6) by (cases r) auto
  have T': "b \<in> tracked g' ?ts \<longleftrightarrow> b \<in> set (cached g') \<or> clone_held (threads s) b" for b
    using at(5) [of b] ch by (auto simp: tracked_def)
  note dm = acquire_dom [OF assms(1-4) span assms(7) T'] and tr = acquire_tracked [OF assms(1,3,4) span assms(7) T']
  have "phase_ok view backed (platform p') g' ph" if ph: "ph \<in> set ?ts" for ph
  proof (cases "ph \<in> set (threads s)")
    case True
    have "view (platform p') (ap_ptr a) = view (platform (ac_proc s)) (ap_ptr a)" if "holding ph = Some a" for a
      using at(2) [OF held_shielded [OF assms(3) clone_heldI [OF True that]]] .
    then show ?thesis using phase_ok_frame [OF I(4) [OF True] fr(2,3)] at(1) by auto
  next
    case False
    then have ph': "ph = (case r of Inl e \<Rightarrow> Resting | Inr a \<Rightarrow> Copying op addr a [])"
      using ph set_update_subset_insert [of "threads s" i] by blast
    show ?thesis using av(3) fits_covered [OF f I(2)] fr(2) by (cases r) (auto simp: ph' access_key_def span_of_def)
  qed
  then show ?thesis using av(2) I(2,3) dm tr(2) fr by (simp add: access_inv_def Let_def)
qed

text \<open>The last clone gone, the mapping goes with it, and no other.\<close>

lemma drop_clone_view:
  assumes "coherent_platform api hm guest view backed" "ap_alive a = Some f" "flags p f" "ap_ptr a \<noteq> 0"
  shows "view (platform (drop_clone api ts g a p)) =
      (if a \<in> tracked g ts then view (platform p) else (view (platform p))(ap_ptr a := None))"
    "flags (drop_clone api ts g a p) = flags p" "backed (platform (drop_clone api ts g a p)) = backed (platform p)"
  using assms(2-) assms(1) [unfolded coherent_platform_def, THEN conjunct2, THEN conjunct1]
  by (auto simp: drop_clone_def tracked_def drop_arc_def Aperture_drop_def known_dead_def on_platform_eq Let_def)

lemma release_step:
  assumes "coherent_platform api hm guest view backed" "access_inv view backed s"
    "i < length (threads s)" "threads s ! i = Releasing a" "ts = (threads s)[i := Resting]"
  shows "access_inv view backed (s\<lparr>ac_proc := drop_clone api ts (am s) a (ac_proc s), threads := ts\<rparr>)"
proof -
  note I = access_invD [OF assms(2)]
  let ?T = "tracked (am s) (threads s)" and ?T' = "tracked (am s) ts"
  let ?p' = "drop_clone api ts (am s) a (ac_proc s)"
  have T: "b \<in> ?T \<longleftrightarrow> b \<in> ?T' \<or> b = a" for b
    using holding_more(1) [OF assms(3), of b] assms(4,5) by (auto simp: tracked_def)
  have a: "a \<in> ?T" using T by blast
  have live: "ap_alive a = Some (mem_alive (am s))" "ap_ptr a \<noteq> 0" using I(7) [OF a] by auto
  note dc = drop_clone_view [OF assms(1) live(1) I(3) live(2), where ts = ts and g = "am s"]
  have same: "b = a" if "b \<in> ?T'" "ap_ptr b = ap_ptr a" for b using inj_onD [OF I(5) that(2)] that(1) T a by blast
  have kept: "view (platform ?p') (ap_ptr b) = view (platform (ac_proc s)) (ap_ptr b)" if "b \<in> ?T'" for b
    using same [OF that] that by (auto simp: dc(1))
  have g: "mem_inv (am s)" using I(1) by (simp add: cache_coherent_def)
  have "ap c \<in> ?T'" if "j < SHARDS" "map_of (cache (shards (am s) ! j)) k = Some c" for j k c
    using cached_at [OF g that] by (simp add: tracked_def)
  then have "cache_coherent view (am s) (platform ?p')"
    using I(1) kept unfolding cache_coherent_def views_ok_def by metis
  moreover have "phase_ok view backed (platform ?p') (am s) ph" if ph: "ph \<in> set ts" for ph
  proof (cases "ph = Resting")
    case False
    then have "ph \<in> set (threads s)" using ph assms(5) set_update_subset_insert [of "threads s" i] by blast
    moreover have "view (platform ?p') (ap_ptr b) = view (platform (ac_proc s)) (ap_ptr b)" if "holding ph = Some b" for b
      using kept clone_heldI [OF ph that] by (simp add: tracked_def)
    ultimately show ?thesis using phase_ok_frame [OF I(4)] dc(3) by simp
  qed simp
  moreover have "inj_on ap_ptr ?T'" by (rule inj_on_subset [OF I(5)]) (use T in blast)
  moreover have "dom (view (platform ?p')) = ap_ptr ` ?T'"
  proof (cases "a \<in> ?T'")
    case True
    then have "?T' = ?T" using T by blast
    then show ?thesis using I(6) True by (simp add: dc(1))
  next
    case False
    have "?T = insert a ?T'" using T by blast
    moreover have "ap_ptr a \<notin> ap_ptr ` ?T'" using same False by force
    ultimately show ?thesis using I(6) False by (auto simp: dc(1))
  qed
  ultimately show ?thesis using I(2,3,7) T dc(2) by (auto simp: access_inv_def Let_def)
qed

text \<open>One byte of a copy is one byte of guest memory, and storing it changes no mapping.\<close>

lemma copy_byte:
  assumes "coherent_platform api hm guest view backed" "phase_ok view backed w g (Copying op addr a bs)" "k < access_bytes op"
  shows "load_bytes hm (copy_ptr addr a k) 1 w = [guest w (addr + of_nat k)]"
    "guest (store_bytes hm (copy_ptr addr a k) [b] w) = (guest w)(addr + of_nat k := b)"
    "view (store_bytes hm (copy_ptr addr a k) [b] w) = view w"
    "backed (store_bytes hm (copy_ptr addr a k) [b] w) = backed w"
proof -
  let ?off = "unat (addr - page_base addr) + k"
  have v: "view w (ap_ptr a) = Some (page_base addr, span_of g addr (access_len op))"
    and le: "?off + 1 \<le> unat (span_of g addr (access_len op))"
    using assms(2,3) by (simp_all add: access_key_def)
  have at: "copy_ptr addr a k = ap_ptr a + of_nat ?off" by (simp add: copy_ptr_def add.assoc)
  have gpa: "page_base addr + of_nat ?off = addr + of_nat k" by (simp flip: add.assoc)
  note law = assms(1) [unfolded coherent_platform_def Let_def, THEN conjunct2, THEN conjunct2]
  have "load_bytes hm (copy_ptr addr a k) 1 w = ram_read (guest w) (page_base addr + of_nat ?off) 1"
    unfolding at using law [THEN conjunct1] v le by blast
  then show "load_bytes hm (copy_ptr addr a k) 1 w = [guest w (addr + of_nat k)]" unfolding gpa by (simp add: ram_read_def)
  have "guest (store_bytes hm (copy_ptr addr a k) [b] w) = ram_write (page_base addr + of_nat ?off) [b] (guest w) \<and>
     view (store_bytes hm (copy_ptr addr a k) [b] w) = view w \<and> backed (store_bytes hm (copy_ptr addr a k) [b] w) = backed w"
    unfolding at using law [THEN conjunct2, rule_format, OF v, of ?off "[b]"] le by simp
  then show "guest (store_bytes hm (copy_ptr addr a k) [b] w) = (guest w)(addr + of_nat k := b)"
    "view (store_bytes hm (copy_ptr addr a k) [b] w) = view w" "backed (store_bytes hm (copy_ptr addr a k) [b] w) = backed w"
    unfolding gpa by simp_all
qed

text \<open>A step of one thread that leaves its clone and the mappings alone.\<close>

lemma thread_step:
  assumes "access_inv view backed s" "i < length (threads s)" "holding ph = holding (threads s ! i)"
    "threads s' = (threads s)[i := ph]" "shards (am s') = shards (am s)" "mem_inv (am s')"
    "max_address (am s') = max_address (am s)" "mem_handle (am s') = mem_handle (am s)" "mem_alive (am s') = mem_alive (am s)"
    "view (platform (ac_proc s')) = view (platform (ac_proc s))" "flags (ac_proc s') = flags (ac_proc s)"
    "backed (platform (ac_proc s')) = backed (platform (ac_proc s))"
    "phase_ok view backed (platform (ac_proc s')) (am s') ph"
  shows "access_inv view backed s'"
  by (rule quiet_step [OF assms(1,5-11)])
    (use assms(2-4,12,13) set_update_subset_insert [of "threads s" i ph] in \<open>auto simp: holding_same\<close>)

lemma access_step_inv:
  assumes "coherent_platform api hm guest view backed" "nonnull_platform api" "access_inv view backed s"
    "access_step api hm view backed s t"
  shows "access_inv view backed t"
proof -
  note I = access_invD [OF assms(3)]
  have g: "mem_inv (am s)" using I(1) by (simp add: cache_coherent_def)
  have now: "phase_ok view backed (platform (ac_proc s)) (am s) (threads s ! i)" if "i < length (threads s)" for i
    using I(4) nth_mem [OF that] by blast
  from assms(4) show ?thesis
  proof (cases rule: access_step.cases)
    case (refuse i op addr g')
    then show ?thesis
      by (intro quiet_step [OF assms(3)]) (simp_all add: g mem_inv_count_in, simp_all add: count_in_def)
  next
    case (ask i op addr)
    then show ?thesis
      by (intro thread_step [OF assms(3) ask(2), where ph = "Looking op addr"]) (simp_all add: g fits_def)
  next
    case (hit i op addr a sh)
    show ?thesis using acquire_step [OF assms(1-3) hit(4,2) _ hit_is_acquire [OF hit(5) [unfolded access_key_def]]] hit(3)
      by (cases s) (simp add: hit(1))
  next
    case (miss i op addr sh)
    then show ?thesis using now [of i]
      by (intro thread_step [OF assms(3) miss(2), where ph = "Missed op addr"]) (simp_all add: g)
  next
    case (map_in i op addr r sh st p)
    show ?thesis using acquire_step [OF assms(1-3) map_in(4,2) _ goc_is_acquire [OF map_in(5)]] map_in(3) by (simp add: map_in(1))
  next
    case (load i n addr a bs b)
    then show ?thesis using now [of i]
      by (intro thread_step [OF assms(3) load(2), where ph = "Copying (Rd n) addr a (bs @ [b])"]) (simp_all add: g)
  next
    case (store i src addr a bs p)
    have "phase_ok view backed (platform (ac_proc s)) (am s) (Copying (Wr src) addr a bs)" using now store(2,3) by metis
    note st = this copy_byte [OF assms(1) this, of "length bs"]
    show ?thesis using st store(4)
      by (intro thread_step [OF assms(3) store(2), where ph = "Copying (Wr src) addr a (bs @ [src ! length bs])"])
        (simp_all add: g store(1,3,5) access_key_def)
  next
    case (copied i op addr a bs elapsed)
    then show ?thesis using now [of i]
      by (intro thread_step [OF assms(3) copied(2), where ph = "Releasing a"]) (simp_all add: g)
  next
    case (let_go i a ts)
    show ?thesis unfolding let_go(1) by (rule release_step [OF assms(1,3) let_go(2-4)])
  next
    case (world w)
    then show ?thesis by (intro quiet_step [OF assms(3)]) (simp_all add: g)
  qed
qed

lemma access_init_inv:
  assumes "access_init view s"
  shows "access_inv view backed s"
proof -
  from assms obtain handle ram alive stats_on where g: "am s = into_guest_memory handle ram alive stats_on"
    and p: "flags (ac_proc s) alive" "unat (max_address (am s)) \<le> 2 ^ 64 - 4096" "view (platform (ac_proc s)) = Map.empty"
    "set (threads s) \<subseteq> {Resting}" unfolding access_init_def by blast
  have "cached (am s) = []" by (simp add: g into_guest_memory_def cached_def Shard_default_def)
  moreover have "\<not> clone_held (threads s) a" for a using p(4) by (auto simp: clone_held_def)
  ultimately have T: "tracked (am s) (threads s) = {}" by (simp add: tracked_def)
  have "cache_coherent view (am s) (platform (ac_proc s))"
    using mem_inv_into_guest_memory [of handle ram alive stats_on]
    by (simp add: g cache_coherent_def views_ok_def into_guest_memory_def Shard_default_def)
  moreover have "mem_alive (am s) = alive" by (simp add: g into_guest_memory_def)
  moreover have "phase_ok view backed (platform (ac_proc s)) (am s) ph" if "ph \<in> set (threads s)" for ph
    using that p(4) by auto
  ultimately show ?thesis using p T by (simp add: access_inv_def Let_def)
qed

interpretation accesses: safe_machine "access_init view" "access_step api hm view backed"
  "\<lambda>s. coherent_platform api hm guest view backed \<longrightarrow> nonnull_platform api \<longrightarrow> access_inv view backed s"
  for api hm guest view backed
  by unfold_locales (use access_init_inv access_step_inv in blast)+

section \<open>What every interleaving keeps\<close>

text \<open>
  C3. However the threads' look-ups, evictions, mappings, copies and releases interleave, and whatever
  the guest does meanwhile: a thread inside a copy has its aperture mapped, at the range the access
  asked for; each byte it loads is the guest's byte at that address at that moment and each byte it
  stores changes that byte of guest memory only, unmapping nothing; and the cache keeps its invariant
  with every entry mapped at its key.
\<close>

theorem copies_stay_mapped:
  assumes "coherent_platform api hm guest view backed" "nonnull_platform api"
    and "reach (access_init view) (access_step api hm view backed) s"
  shows "cache_coherent view (am s) (platform (ac_proc s)) \<and>
    (\<forall>i op addr a bs. i < length (threads s) \<longrightarrow> threads s ! i = Copying op addr a bs \<longrightarrow>
       view (platform (ac_proc s)) (ap_ptr a) = Some (access_key (am s) op addr) \<and>
       (\<forall>k < access_bytes op.
          load_bytes hm (copy_ptr addr a k) 1 (platform (ac_proc s)) = [guest (platform (ac_proc s)) (addr + of_nat k)] \<and>
          (\<forall>b. guest (store_bytes hm (copy_ptr addr a k) [b] (platform (ac_proc s))) =
                 (guest (platform (ac_proc s)))(addr + of_nat k := b) \<and>
               view (store_bytes hm (copy_ptr addr a k) [b] (platform (ac_proc s))) = view (platform (ac_proc s)))))"
proof -
  have inv: "access_inv view backed s" using accesses.reach_inv [OF assms(3), of guest] assms(1,2) by blast
  note I = access_invD [OF inv]
  have "phase_ok view backed (platform (ac_proc s)) (am s) (Copying op addr a bs)"
    if "i < length (threads s)" "threads s ! i = Copying op addr a bs" for i op addr a bs
    using I(4) nth_mem [OF that(1)] that(2) by metis
  then show ?thesis using I(1) copy_byte [OF assms(1)] by fastforce
qed

lemma length_cached: "length (cached g) = entries g"
  by (simp add: cached_def entries_def length_concat comp_def)

text \<open>
  C13. No mapping is leaked: at every moment the mapped apertures are exactly those the cache or a copy
  has a clone of, so there are at most \<open>MAX_ENTRIES\<close> of them and one more for each thread, and when no
  thread is inside an access exactly the cached ones are mapped.
\<close>

theorem mappings_bounded:
  assumes "coherent_platform api hm guest view backed" "nonnull_platform api"
    and "reach (access_init view) (access_step api hm view backed) s"
  shows "finite (dom (view (platform (ac_proc s)))) \<and>
    card (dom (view (platform (ac_proc s)))) \<le> MAX_ENTRIES + length (threads s) \<and>
    (set (threads s) \<subseteq> {Resting} \<longrightarrow> dom (view (platform (ac_proc s))) = ap_ptr ` set (cached (am s)))"
proof -
  have inv: "access_inv view backed s" using accesses.reach_inv [OF assms(3), of guest] assms(1,2) by blast
  note I = access_invD [OF inv]
  have g: "mem_inv (am s)" using I(1) by (simp add: cache_coherent_def)
  let ?H = "{a. clone_held (threads s) a}"
  have T: "tracked (am s) (threads s) = set (cached (am s)) \<union> ?H" by (auto simp: tracked_def)
  have "Some ` ?H \<subseteq> set (map holding (threads s))" by (auto simp: clone_held_def)
  then have H: "finite ?H" "card ?H \<le> length (threads s)"
    using finite_imageD [OF finite_subset [of "Some ` ?H"]] card_mono [of "set (map holding (threads s))" "Some ` ?H"]
      card_image [of Some ?H] card_length [of "map holding (threads s)"] by auto
  have "card (set (cached (am s))) \<le> MAX_ENTRIES"
    using card_length [of "cached (am s)"] length_cached [of "am s"] entries_bound [OF g] by simp
  then have "card (tracked (am s) (threads s)) \<le> MAX_ENTRIES + length (threads s)"
    unfolding T using card_Un_le [of "set (cached (am s))" ?H] H(2) by linarith
  moreover have fin: "finite (tracked (am s) (threads s))" using H(1) by (simp add: T)
  moreover have "?H = {}" if "set (threads s) \<subseteq> {Resting}" using that by (auto simp: clone_held_def)
  ultimately show ?thesis unfolding I(6) using card_image_le [OF fin, of ap_ptr] T by fastforce
qed

section \<open>A concrete run\<close>

lemma sim_nonnull: "nonnull_platform sim_api"
  unfolding nonnull_platform_def
proof (intro allI impI)
  fix d gpa len wp w code va w'
  assume call: "HdvCreateGuestMemoryAperture sim_api d gpa len wp w = ((code, va), w')" "\<not> failed code"
  then have "va = of_nat (sim_next w * 2 ^ 32)" "0 < sim_next w" "sim_next w < 2 ^ 32"
    by (auto simp: sim_api_def ERROR_NOT_ENOUGH_QUOTA_def failed_def split: if_splits)
  then show "va \<noteq> 0" using sim_va(1) [of "sim_next w"] by (auto simp: sim_slot_def)
qed

definition sim_accesses :: "sim accesses" where
  "sim_accesses = \<lparr>am = sim_mem, ac_proc = sim_process, threads = [Resting, Resting]\<rparr>"

abbreviation sim_run :: "sim accesses \<Rightarrow> bool" where
  "sim_run \<equiv> reach (access_init sim_view) (access_step sim_api sim_memory sim_view (\<lambda>_ _. True))"

lemma home_sim: "home sim_mem addr = Shard_default"
  using shard_index_less [of "page_base addr"] by (simp add: home_def sim_mem_def into_guest_memory_def)

text \<open>One thread asks for four bytes, misses and maps the page; it is then inside its copy.\<close>

lemma sim_copying:
  obtains s a where "sim_run s" "threads s = [Copying (Rd 4) 0x1234 a [], Resting]"
    "access_key (am s) (Rd 4) 0x1234 = (0x1000, 0x1000)"
proof -
  have 0: "sim_run sim_accesses"
    by (rule reach_init) (use sim_mem_ok(3) in \<open>auto simp: access_init_def sim_accesses_def sim_mem_def sim_process_def
        sim_view_def fun_eq_iff split: if_splits\<close>)
  let ?s1 = "sim_accesses\<lparr>threads := (threads sim_accesses)[0 := Looking (Rd 4) 0x1234]\<rparr>"
  let ?s2 = "?s1\<lparr>threads := (threads ?s1)[0 := Missed (Rd 4) 0x1234]\<rparr>"
  have "sim_run ?s1"
    by (rule reach_step [OF 0], rule ask)
      (simp_all add: sim_accesses_def admitted_def checked_add_def sim_geometry sim_mem_ok)
  then have 2: "sim_run ?s2"
    by (rule reach_step) (rule miss, simp_all add: sim_accesses_def lookup_def home_sim Shard_default_def)
  obtain a sh st p where goc: "get_or_create sim_api (clone_held (threads ?s2)) (mem_handle (am ?s2)) (page_base 0x1234)
      (span_of (am ?s2) 0x1234 (access_len (Rd 4))) 0x1234 (mem_alive (am ?s2)) (home (am ?s2) 0x1234) (mem_stats (am ?s2)) (ac_proc ?s2) =
      (Inr a, sh, st, p)"
    by (simp add: sim_accesses_def home_sim sim_geometry get_or_create_def evict_if_full_def create_loop.simps create_aperture_eq
        sim_api_def sim_process_def Shard_default_def Let_def)
  let ?s3 = "\<lparr>am = put_home 0x1234 sh st (am ?s2), ac_proc = p,
    threads = (threads ?s2)[0 := (case Inr a :: u64 \<times> backing_error + aperture of Inl e \<Rightarrow> Resting | Inr a \<Rightarrow> Copying (Rd 4) 0x1234 a [])]\<rparr>"
  have 3: "sim_run ?s3" by (rule reach_step [OF 2], rule map_in [OF _ _ _ goc]) (simp_all add: sim_accesses_def sim_mem_ok)
  have "span_of (put_home 0x1234 sh st sim_mem) 0x1234 4 = span_of sim_mem 0x1234 4"
    by (simp add: span_of_def put_home_def put_shard_def)
  then show thesis using that [OF 3] by (simp add: sim_accesses_def access_key_def sim_geometry)
qed

theorem copies_stay_mapped_witness:
  "\<exists>s a. sim_run s \<and> threads s ! 0 = Copying (Rd 4) 0x1234 a [] \<and>
     sim_view (platform (ac_proc s)) (ap_ptr a) = Some (0x1000, 0x1000) \<and>
     load_bytes sim_memory (copy_ptr 0x1234 a 3) 1 (platform (ac_proc s)) = [sim_ram (platform (ac_proc s)) 0x1237]"
proof -
  obtain s a where s: "sim_run s" "threads s = [Copying (Rd 4) 0x1234 a [], Resting]"
    "access_key (am s) (Rd 4) 0x1234 = (0x1000, 0x1000)" by (rule sim_copying)
  have "threads s ! 0 = Copying (Rd 4) 0x1234 a []" "0 < length (threads s)" "3 < access_bytes (Rd 4)" using s(2) by simp_all
  with copies_stay_mapped [OF sim_coherent sim_nonnull s(1)] s(3) show ?thesis
    by (intro exI [of _ s] exI [of _ a]) (fastforce intro: s(1))
qed

theorem mappings_bounded_witness:
  "\<exists>s. sim_run s \<and> threads s ! 1 = Resting \<and> card (dom (sim_view (platform (ac_proc s)))) \<le> 1026"
proof -
  obtain s a where s: "sim_run s" "threads s = [Copying (Rd 4) 0x1234 a [], Resting]" by (rule sim_copying)
  from mappings_bounded [OF sim_coherent sim_nonnull s(1)] s show ?thesis
    by (intro exI [of _ s]) (simp add: MAX_ENTRIES_def)
qed

end
