(* ===== verification/Payload.thy ===== *)
theory Payload
  imports Guest_Memory
begin

text \<open>
  The descriptor-chain adapters of \<open>virtio-hdv/src/payload.rs\<close>: the reader that parses a FUSE
  request out of the readable buffers of a chain, the writer that puts a reply into its writable
  ones, and the reply sender. \<open>GuestMemory\<close>, the payload structure and \<open>get_payload_length\<close> belong to
  OpenVMM: the accesses are parameters, a work item carries the length it reports. The lemmas relate
  the reader to the byte stream of the readable buffers and the writer to the scatter of a byte
  string over the writable ones.
\<close>

section \<open>Chains\<close>

record payload_buf =
  writeable :: bool
  address :: u64
  plength :: u32

record work_item =
  payload :: "payload_buf list"
  payload_length :: "bool \<Rightarrow> u64"

type_synonym 'e reader_mem = "u64 \<Rightarrow> nat \<Rightarrow> 'e + u8 list"
type_synonym ('e, 'w) writer_mem = "u64 \<Rightarrow> u8 list \<Rightarrow> 'w \<Rightarrow> ('e + unit) \<times> 'w"

section \<open>PayloadReader\<close>

text \<open>
  \<open>offset\<close> never exceeds the 32-bit length of the current buffer; \<open>position\<close> and \<open>len\<close> are kept at
  their width, because their difference is taken.
\<close>

record payload_reader =
  r_rest :: "payload_buf list"
  r_current :: "payload_buf option"
  r_offset :: nat
  r_position :: usize
  r_len :: usize

text \<open>\<open>Iterator::find\<close>: the first element that satisfies the predicate, and the iterator after it.\<close>

fun iter_find :: "('a \<Rightarrow> bool) \<Rightarrow> 'a list \<Rightarrow> 'a option \<times> 'a list" where
  "iter_find P [] = (None, [])"
| "iter_find P (x # xs) = (if P x then (Some x, xs) else iter_find P xs)"

definition reader_next :: "payload_reader \<Rightarrow> payload_reader" where
  "reader_next r =
     (case iter_find (\<lambda>p. \<not> writeable p) (r_rest r) of
        (c, rest) \<Rightarrow> r\<lparr>r_current := c, r_rest := rest\<rparr>)"

definition PayloadReader_new :: "work_item \<Rightarrow> payload_reader" where
  "PayloadReader_new work =
     reader_next \<lparr>r_rest = payload work, r_current = None, r_offset = 0, r_position = 0,
       r_len = payload_length work False\<rparr>"

definition reader_get_payload :: "payload_reader \<Rightarrow> payload_buf option \<times> payload_reader" where
  "reader_get_payload r =
     (case r_current r of
        None \<Rightarrow> (None, r)
      | Some p \<Rightarrow>
          let r = (if r_offset r = unat (plength p) then (reader_next r)\<lparr>r_offset := 0\<rparr> else r)
          in (r_current r, r))"

definition get_current_remaining_len :: "payload_reader \<Rightarrow> nat \<times> payload_reader" where
  "get_current_remaining_len r =
     (case reader_get_payload r of
        (Some p, r) \<Rightarrow> (unat (plength p) - r_offset r, r)
      | (None, r) \<Rightarrow> (0, r))"

text \<open>\<open>read\<close> into a buffer of \<open>n\<close> bytes returns the bytes it put there.\<close>

definition reader_read ::
  "'e reader_mem \<Rightarrow> nat \<Rightarrow> payload_reader \<Rightarrow> ('e + u8 list) \<times> payload_reader" where
  "reader_read read_at n r =
     (case reader_get_payload r of
        (None, r) \<Rightarrow> (Inr [], r)
      | (Some p, r) \<Rightarrow>
          let remaining = unat (plength p) - r_offset r; size = min remaining n
          in case read_at (address p + of_nat (r_offset r)) size of
               Inl e \<Rightarrow> (Inl e, r)
             | Inr bytes \<Rightarrow>
                 (Inr bytes, r\<lparr>r_offset := r_offset r + size, r_position := r_position r + of_nat size\<rparr>))"

datatype 'e until_error = EINVAL | Io 'e

text \<open>\<open>Iterator::position\<close>.\<close>

fun iter_position :: "('a \<Rightarrow> bool) \<Rightarrow> 'a list \<Rightarrow> nat option" where
  "iter_position P [] = None"
| "iter_position P (x # xs) = (if P x then Some 0 else map_option Suc (iter_position P xs))"

text \<open>The bytes a reader has still to deliver, the measure of the loop below.\<close>

definition reader_left :: "payload_reader \<Rightarrow> nat" where
  "reader_left r =
     (case r_current r of None \<Rightarrow> 0 | Some p \<Rightarrow> unat (plength p) - r_offset r) +
     sum_list (map (\<lambda>p. unat (plength p)) (r_rest r))"

lemma iter_find_sum:
  "iter_find P ps = (c, rest) \<Longrightarrow>
   (case c of None \<Rightarrow> 0 | Some p \<Rightarrow> unat (plength p)) + sum_list (map (\<lambda>p. unat (plength p)) rest) \<le>
   sum_list (map (\<lambda>p. unat (plength p)) ps)"
  by (induction ps) (auto split: if_splits option.splits)

lemma reader_next_left: "reader_left ((reader_next r)\<lparr>r_offset := 0\<rparr>) \<le> reader_left r"
  using iter_find_sum [of "\<lambda>p. \<not> writeable p" "r_rest r"]
  by (cases "iter_find (\<lambda>p. \<not> writeable p) (r_rest r)") (fastforce simp: reader_left_def reader_next_def split: option.splits)

lemma reader_get_payload_left:
  "reader_get_payload r = (c, s) \<Longrightarrow> reader_left s \<le> reader_left r \<and> c = r_current s"
  using reader_next_left [of r] by (auto simp: reader_get_payload_def Let_def split: option.splits if_splits)

lemma reader_read_left:
  assumes "get_current_remaining_len r = (n, s)" "n \<noteq> 0" "reader_read read_at n s = (x, t)" "x = Inr bytes"
  shows "reader_left t < reader_left r"
proof -
  obtain c where g: "reader_get_payload r = (c, s)" "n = (case c of None \<Rightarrow> 0 | Some p \<Rightarrow> unat (plength p) - r_offset s)"
    using assms(1) by (auto simp: get_current_remaining_len_def split: prod.splits option.splits)
  then obtain p where p: "r_current s = Some p" "n = unat (plength p) - r_offset s"
    using assms(2) reader_get_payload_left [OF g(1)] by (auto split: option.splits)
  then have "reader_get_payload s = (Some p, s)" using assms(2) by (auto simp: reader_get_payload_def)
  with p assms(3,4) have "t = s\<lparr>r_offset := r_offset s + n, r_position := r_position s + of_nat n\<rparr>"
    by (auto simp: reader_read_def Let_def split: sum.splits)
  with p assms(2) have "reader_left t < reader_left s" by (simp add: reader_left_def)
  with reader_get_payload_left [OF g(1)] show ?thesis by simp
qed

text \<open>The loop of \<open>read_until\<close>, with the buffer gathered so far; the assertion is a panic.\<close>

function read_until_loop ::
  "'e reader_mem \<Rightarrow> u8 \<Rightarrow> u8 list \<Rightarrow> payload_reader \<Rightarrow>
     ('e until_error + u8 list) outcome \<times> payload_reader" where
  "read_until_loop read_at byte buffer r =
     (case get_current_remaining_len r of
        (len, s) \<Rightarrow>
          if len = 0 then (Return (Inl EINVAL), s)
          else case reader_read read_at len s of
                 (Inl e, t) \<Rightarrow> (Return (Inl (Io e)), t)
               | (Inr bytes, t) \<Rightarrow>
                   if length bytes \<noteq> len then (Panic, t)
                   else case iter_position (\<lambda>c. c = byte) bytes of
                          Some i \<Rightarrow> (Return (Inr (buffer @ take i bytes)), t\<lparr>r_offset := r_offset s + i + 1\<rparr>)
                        | None \<Rightarrow> read_until_loop read_at byte (buffer @ bytes) t)"
  by pat_completeness auto
termination
  by (relation "measure (\<lambda>(_, _, _, r). reader_left r)") (auto dest: reader_read_left [OF sym _ sym])

declare read_until_loop.simps [simp del]

definition read_until ::
  "'e reader_mem \<Rightarrow> u8 \<Rightarrow> payload_reader \<Rightarrow> ('e until_error + u8 list) outcome \<times> payload_reader" where
  "read_until read_at byte r = read_until_loop read_at byte [] r"

definition remaining_len :: "payload_reader \<Rightarrow> usize" where
  "remaining_len r = r_len r - r_position r"

section \<open>PayloadWriter\<close>

record payload_writer =
  w_rest :: "payload_buf list"
  w_current :: "payload_buf option"
  w_offset :: nat

definition writer_next :: "payload_writer \<Rightarrow> payload_writer" where
  "writer_next x =
     (case iter_find writeable (w_rest x) of (c, rest) \<Rightarrow> x\<lparr>w_current := c, w_rest := rest\<rparr>)"

definition PayloadWriter_new :: "work_item \<Rightarrow> payload_writer" where
  "PayloadWriter_new work = writer_next \<lparr>w_rest = payload work, w_current = None, w_offset = 0\<rparr>"

definition writer_get_payload :: "payload_writer \<Rightarrow> payload_buf option \<times> payload_writer" where
  "writer_get_payload x =
     (case w_current x of
        None \<Rightarrow> (None, x)
      | Some p \<Rightarrow>
          let x = (if w_offset x = unat (plength p) then (writer_next x)\<lparr>w_offset := 0\<rparr> else x)
          in (w_current x, x))"

definition writer_write ::
  "('e, 'w) writer_mem \<Rightarrow> u8 list \<Rightarrow> payload_writer \<Rightarrow> 'w \<Rightarrow> ('e + nat) \<times> payload_writer \<times> 'w" where
  "writer_write write_at buf x w =
     (case writer_get_payload x of
        (None, x) \<Rightarrow> (Inr 0, x, w)
      | (Some p, x) \<Rightarrow>
          let remaining = unat (plength p) - w_offset x; size = min remaining (length buf)
          in case write_at (address p + of_nat (w_offset x)) (take size buf) w of
               (Inl e, w) \<Rightarrow> (Inl e, x, w)
             | (Inr _, w) \<Rightarrow> (Inr size, x\<lparr>w_offset := w_offset x + size\<rparr>, w))"

datatype 'e write_error = WriteZero | WriteIo 'e

text \<open>
  \<open>Write::write_all\<close> of the standard library: write until nothing is left, a write of no bytes is an
  error. (The errors of \<open>write\<close> are never \<open>Interrupted\<close>, the one kind it would retry.)
\<close>

function write_all ::
  "('e, 'w) writer_mem \<Rightarrow> u8 list \<Rightarrow> payload_writer \<Rightarrow> 'w \<Rightarrow>
     ('e write_error + unit) \<times> payload_writer \<times> 'w" where
  "write_all write_at buf x w =
     (if buf = [] then (Inr (), x, w)
      else case writer_write write_at buf x w of
             (Inl e, x, w) \<Rightarrow> (Inl (WriteIo e), x, w)
           | (Inr n, x, w) \<Rightarrow>
               if n = 0 then (Inl WriteZero, x, w) else write_all write_at (drop n buf) x w)"
  by pat_completeness auto
termination
  by (relation "measure (\<lambda>(_, buf, _). length buf)") auto

declare write_all.simps [simp del]

section \<open>PayloadReplySender\<close>

fun send_bufs ::
  "('e, 'w) writer_mem \<Rightarrow> u8 list list \<Rightarrow> nat \<Rightarrow> payload_writer \<Rightarrow> 'w \<Rightarrow> ('e write_error + nat) \<times> 'w" where
  "send_bufs write_at [] n x w = (Inr n, w)"
| "send_bufs write_at (buf # bufs) n x w =
     (case write_all write_at buf x w of
        (Inl e, x, w) \<Rightarrow> (Inl e, w)
      | (Inr _, x, w) \<Rightarrow> send_bufs write_at bufs (n + length buf) x w)"

record reply_sender =
  rs_work :: work_item
  bytes_written :: u32

definition PayloadReplySender_new :: "work_item \<Rightarrow> reply_sender" where
  "PayloadReplySender_new work = \<lparr>rs_work = work, bytes_written = 0\<rparr>"

definition send ::
  "('e, 'w) writer_mem \<Rightarrow> u8 list list \<Rightarrow> reply_sender \<Rightarrow> 'w \<Rightarrow>
     ('e write_error + unit) \<times> reply_sender \<times> 'w" where
  "send write_at bufs rs w =
     (case send_bufs write_at bufs 0 (PayloadWriter_new (rs_work rs)) w of
        (Inl e, w) \<Rightarrow> (Inl e, rs, w)
      | (Inr n, w) \<Rightarrow> (Inr (), rs\<lparr>bytes_written := of_nat n\<rparr>, w))"

section \<open>The stream of a reader\<close>

lemma ram_read_length [simp]: "length (ram_read m a n) = n"
  by (simp add: ram_read_def)

lemma drop_ram_read: "drop k (ram_read m a n) = ram_read m (a + of_nat k) (n - k)"
  by (rule nth_equalityI) (auto simp: ram_read_def algebra_simps)

lemma take_ram_read: "take k (ram_read m a n) = ram_read m a (min k n)"
  by (rule nth_equalityI) (auto simp: ram_read_def)

definition buf_bytes :: "guest_ram \<Rightarrow> payload_buf \<Rightarrow> u8 list" where
  "buf_bytes m p = ram_read m (address p) (unat (plength p))"

definition readable_bytes :: "guest_ram \<Rightarrow> payload_buf list \<Rightarrow> u8 list" where
  "readable_bytes m ps = concat (map (buf_bytes m) (filter (\<lambda>p. \<not> writeable p) ps))"

definition reader_stream :: "guest_ram \<Rightarrow> payload_reader \<Rightarrow> u8 list" where
  "reader_stream m r =
     (case r_current r of None \<Rightarrow> [] | Some p \<Rightarrow> drop (r_offset r) (buf_bytes m p)) @
     readable_bytes m (r_rest r)"

text \<open>No readable buffer is empty; the current one, if any, is readable and not overrun.\<close>

definition no_empty :: "(payload_buf \<Rightarrow> bool) \<Rightarrow> payload_buf list \<Rightarrow> bool" where
  "no_empty P ps \<longleftrightarrow> (\<forall>p \<in> set ps. P p \<longrightarrow> plength p \<noteq> 0)"

definition reader_ok :: "payload_reader \<Rightarrow> bool" where
  "reader_ok r \<longleftrightarrow>
     no_empty (\<lambda>p. \<not> writeable p) (r_rest r) \<and>
     (case r_current r of
        None \<Rightarrow> r_rest r = []
      | Some p \<Rightarrow> plength p \<noteq> 0 \<and> r_offset r \<le> unat (plength p))"

definition reads_ram :: "'e reader_mem \<Rightarrow> guest_ram \<Rightarrow> bool" where
  "reads_ram read_at m \<longleftrightarrow> (\<forall>a n. read_at a n = Inr (ram_read m a n))"

lemma iter_find_spec:
  assumes "iter_find P ps = (c, rest)"
  shows "filter P ps = (case c of None \<Rightarrow> [] | Some p \<Rightarrow> [p]) @ filter P rest"
    "c = None \<Longrightarrow> rest = []" "c = Some p \<Longrightarrow> P p \<and> p \<in> set ps" "set rest \<subseteq> set ps"
  using assms by (induction ps) (auto split: if_splits)

lemma reader_next_spec:
  assumes "no_empty (\<lambda>p. \<not> writeable p) (r_rest r)"
  shows "reader_ok ((reader_next r)\<lparr>r_offset := 0\<rparr>)"
    "reader_stream m ((reader_next r)\<lparr>r_offset := 0\<rparr>) = readable_bytes m (r_rest r)"
proof -
  obtain c rest where f: "iter_find (\<lambda>p. \<not> writeable p) (r_rest r) = (c, rest)" by force
  note s = iter_find_spec [OF f]
  have ne: "no_empty (\<lambda>p. \<not> writeable p) rest" using assms s(4) by (auto simp: no_empty_def)
  have cn: "c = Some p \<Longrightarrow> plength p \<noteq> 0" for p using assms s(3) by (auto simp: no_empty_def)
  show "reader_ok ((reader_next r)\<lparr>r_offset := 0\<rparr>)"
    using ne cn s(2) by (cases c) (auto simp: reader_ok_def reader_next_def f)
  show "reader_stream m ((reader_next r)\<lparr>r_offset := 0\<rparr>) = readable_bytes m (r_rest r)"
    using s(1) by (cases c) (auto simp: reader_stream_def reader_next_def f readable_bytes_def)
qed

lemma reader_new_ok:
  assumes "no_empty (\<lambda>p. \<not> writeable p) (payload work)"
  shows "reader_ok (PayloadReader_new work)" "reader_stream m (PayloadReader_new work) = readable_bytes m (payload work)"
proof -
  let ?r = "\<lparr>r_rest = payload work, r_current = None, r_offset = 0, r_position = 0, r_len = payload_length work False\<rparr>"
  have "PayloadReader_new work = (reader_next ?r)\<lparr>r_offset := 0\<rparr>"
    by (simp add: PayloadReader_new_def reader_next_def split: prod.split)
  then show "reader_ok (PayloadReader_new work)" "reader_stream m (PayloadReader_new work) = readable_bytes m (payload work)"
    using reader_next_spec [of ?r] assms by simp_all
qed

text \<open>After \<open>get_payload\<close> there is a current buffer with something left, or the stream has ended.\<close>

lemma reader_get_payload_spec:
  assumes "reader_ok r" "reader_get_payload r = (c, s)"
  shows "reader_ok s" "reader_stream m s = reader_stream m r" "c = r_current s"
    "r_position s = r_position r" "r_len s = r_len r"
    "c = None \<Longrightarrow> reader_stream m s = []" "c = Some p \<Longrightarrow> r_offset s < unat (plength p)"
proof -
  have "reader_ok s \<and> reader_stream m s = reader_stream m r \<and> c = r_current s \<and>
    r_position s = r_position r \<and> r_len s = r_len r \<and> (c = Some p \<longrightarrow> r_offset s < unat (plength p))"
  proof (cases "r_current r")
    case None
    then show ?thesis using assms by (auto simp: reader_get_payload_def)
  next
    case (Some q)
    show ?thesis
    proof (cases "r_offset r = unat (plength q)")
      case True
      then have s: "s = (reader_next r)\<lparr>r_offset := 0\<rparr>" "c = r_current s"
        using assms(2) Some by (auto simp: reader_get_payload_def Let_def)
      have ne: "no_empty (\<lambda>p. \<not> writeable p) (r_rest r)" using assms(1) by (simp add: reader_ok_def)
      have "r_position s = r_position r" "r_len s = r_len r" "r_offset s = 0"
        by (simp_all add: s reader_next_def split: prod.split)
      then show ?thesis
        using reader_next_spec(1) [OF ne] reader_next_spec(2) [OF ne, of m] s Some True
        by (auto simp: reader_stream_def [of m r] buf_bytes_def reader_ok_def unat_gt_0)
    next
      case False
      then show ?thesis
        using assms Some by (auto simp: reader_get_payload_def Let_def reader_ok_def split: option.splits)
    qed
  qed
  then show "reader_ok s" "reader_stream m s = reader_stream m r" "c = r_current s"
    "r_position s = r_position r" "r_len s = r_len r" "c = Some p \<Longrightarrow> r_offset s < unat (plength p)" by auto
  then show "c = None \<Longrightarrow> reader_stream m s = []"
    by (auto simp: reader_stream_def reader_ok_def readable_bytes_def)
qed

lemma reader_read_spec:
  assumes "reader_ok r" "reads_ram read_at m"
  obtains k s where "reader_read read_at n r = (Inr (take k (reader_stream m r)), s)"
    "reader_ok s" "reader_stream m s = drop k (reader_stream m r)" "k \<le> n"
    "k \<le> length (reader_stream m r)" "0 < n \<Longrightarrow> reader_stream m r \<noteq> [] \<Longrightarrow> 0 < k"
    "r_position s = r_position r + of_nat k"
proof -
  obtain c t where g: "reader_get_payload r = (c, t)" by force
  note gs = reader_get_payload_spec [OF assms(1) g]
  show thesis
  proof (cases c)
    case None
    then have "reader_read read_at n r = (Inr [], t)" by (simp add: reader_read_def g)
    with that [of 0 t] gs(1-4) gs(6) [OF None] show ?thesis by simp
  next
    case (Some p)
    let ?k = "min (unat (plength p) - r_offset t) n"
    let ?s = "t\<lparr>r_offset := r_offset t + ?k, r_position := r_position t + of_nat ?k\<rparr>"
    have cur: "r_current t = Some p" using gs(3) Some by simp
    have st: "reader_stream m r = ram_read m (address p + of_nat (r_offset t)) (unat (plength p) - r_offset t) @
        readable_bytes m (r_rest t)"
      using gs(2) cur by (simp add: reader_stream_def buf_bytes_def drop_ram_read)
    have "reader_read read_at n r = (Inr (ram_read m (address p + of_nat (r_offset t)) ?k), ?s)"
      using assms(2) by (simp add: reader_read_def g Some Let_def reads_ram_def)
    moreover have "ram_read m (address p + of_nat (r_offset t)) ?k = take ?k (reader_stream m r)"
      by (simp add: st take_ram_read min.commute)
    moreover have "reader_ok ?s" using gs(1) gs(7) [OF Some] cur by (auto simp: reader_ok_def)
    moreover have "reader_stream m ?s = drop ?k (reader_stream m r)"
      unfolding st reader_stream_def [of m ?s] by (simp add: cur buf_bytes_def drop_ram_read algebra_simps)
    moreover have "?k \<le> length (reader_stream m r)" "0 < n \<Longrightarrow> 0 < ?k" using gs(7) [OF Some] by (simp_all add: st)
    ultimately show ?thesis using that [of ?k ?s] gs(4) by simp
  qed
qed

lemma remaining_len_spec:
  assumes "reader_ok r" "get_current_remaining_len r = (n, s)"
  shows "reader_ok s" "reader_stream m s = reader_stream m r" "n = 0 \<longleftrightarrow> reader_stream m r = []"
    "0 < n \<Longrightarrow> \<exists>p. r_current s = Some p \<and> n = unat (plength p) - r_offset s \<and> r_offset s < unat (plength p)"
proof -
  obtain c where g: "reader_get_payload r = (c, s)" "n = (case c of None \<Rightarrow> 0 | Some p \<Rightarrow> unat (plength p) - r_offset s)"
    using assms(2) by (auto simp: get_current_remaining_len_def split: prod.splits option.splits)
  note gs = reader_get_payload_spec [OF assms(1) g(1)]
  show "reader_ok s" "reader_stream m s = reader_stream m r" using gs(1,2) by auto
  show "0 < n \<Longrightarrow> \<exists>p. r_current s = Some p \<and> n = unat (plength p) - r_offset s \<and> r_offset s < unat (plength p)"
    using g(2) gs(3,7) by (auto split: option.splits)
  show "n = 0 \<longleftrightarrow> reader_stream m r = []"
  proof (cases c)
    case None
    then show ?thesis using g(2) gs(2) [of m] gs(6) [of m] by simp
  next
    case (Some p)
    then have "length (reader_stream m s) \<ge> unat (plength p) - r_offset s"
      using gs(3) by (simp add: reader_stream_def buf_bytes_def)
    then show ?thesis using g(2) gs(2) [of m] gs(7) [OF Some] Some by auto
  qed
qed

lemma iter_position_None: "iter_position P xs = None \<longleftrightarrow> (\<forall>x \<in> set xs. \<not> P x)"
  by (induction xs) auto

lemma iter_position_Some:
  "iter_position (\<lambda>c. c = b) xs = Some i \<Longrightarrow> \<exists>ys. xs = take i xs @ b # ys \<and> b \<notin> set (take i xs) \<and> ys = drop (Suc i) xs \<and> i < length xs"
  by (induction xs arbitrary: i) (auto split: if_splits)

lemma iter_position_append:
  "iter_position P (xs @ ys) =
     (case iter_position P xs of
        Some i \<Rightarrow> Some i
      | None \<Rightarrow> map_option (\<lambda>i. length xs + i) (iter_position P ys))"
  by (induction xs; cases "iter_position P ys") (auto split: option.splits)

text \<open>The whole rest of the current buffer is read, exactly.\<close>

lemma read_current:
  assumes "reader_ok s" "reads_ram read_at m" "r_current s = Some p" "r_offset s < unat (plength p)"
  defines "n \<equiv> unat (plength p) - r_offset s"
  obtains t where "reader_read read_at n s = (Inr (take n (reader_stream m s)), t)"
    "reader_ok t" "reader_stream m t = drop n (reader_stream m s)" "n \<le> length (reader_stream m s)"
    "\<And>i. i \<le> n \<Longrightarrow> reader_ok (t\<lparr>r_offset := r_offset s + i\<rparr>) \<and>
       reader_stream m (t\<lparr>r_offset := r_offset s + i\<rparr>) = drop i (reader_stream m s)"
proof -
  let ?t = "s\<lparr>r_offset := r_offset s + n, r_position := r_position s + of_nat n\<rparr>"
  have g: "reader_get_payload s = (Some p, s)" using assms(3,4) by (simp add: reader_get_payload_def)
  have st: "reader_stream m s = ram_read m (address p + of_nat (r_offset s)) n @ readable_bytes m (r_rest s)"
    using assms(3) by (simp add: reader_stream_def buf_bytes_def drop_ram_read n_def)
  have rd: "reader_read read_at n s = (Inr (take n (reader_stream m s)), ?t)"
    using assms(2) by (simp add: reader_read_def g Let_def reads_ram_def n_def st take_ram_read)
  have part: "reader_ok (?t\<lparr>r_offset := r_offset s + i\<rparr>) \<and>
       reader_stream m (?t\<lparr>r_offset := r_offset s + i\<rparr>) = drop i (reader_stream m s)" if "i \<le> n" for i
  proof
    show "reader_ok (?t\<lparr>r_offset := r_offset s + i\<rparr>)"
      using assms(1,3,4) that by (auto simp: reader_ok_def n_def)
    show "reader_stream m (?t\<lparr>r_offset := r_offset s + i\<rparr>) = drop i (reader_stream m s)"
      unfolding st reader_stream_def [of m "?t\<lparr>r_offset := r_offset s + i\<rparr>"]
      using that by (simp add: assms(3) buf_bytes_def drop_ram_read n_def algebra_simps)
  qed
  have "?t\<lparr>r_offset := r_offset s + n\<rparr> = ?t" by (cases s) simp
  with part [of n] have "reader_ok ?t" "reader_stream m ?t = drop n (reader_stream m s)" by auto
  with that rd part show thesis by (simp add: st)
qed

lemma read_until_loop_spec:
  assumes "reader_ok r" "reads_ram read_at m"
  shows "case iter_position (\<lambda>c. c = byte) (reader_stream m r) of
      Some i \<Rightarrow> \<exists>s. read_until_loop read_at byte buffer r = (Return (Inr (buffer @ take i (reader_stream m r))), s) \<and>
        reader_ok s \<and> reader_stream m s = drop (Suc i) (reader_stream m r)
    | None \<Rightarrow> \<exists>s. read_until_loop read_at byte buffer r = (Return (Inl EINVAL), s)"
  using assms
proof (induction read_at byte buffer r rule: read_until_loop.induct)
  case (1 read_at byte buffer r)
  obtain n s where gn: "get_current_remaining_len r = (n, s)" by force
  note gs = remaining_len_spec [OF 1(2) gn]
  show ?case
  proof (cases "n = 0")
    case True
    then show ?thesis using gs(3) [of m] gn by (simp add: read_until_loop.simps)
  next
    case False
    then obtain p where p: "r_current s = Some p" "n = unat (plength p) - r_offset s" "r_offset s < unat (plength p)"
      using gs(4) by auto
    let ?S = "reader_stream m r"
    have S: "reader_stream m s = ?S" by (rule gs(2))
    obtain t where t: "reader_read read_at n s = (Inr (take n ?S), t)" "reader_ok t"
      "reader_stream m t = drop n ?S" "n \<le> length ?S"
      "\<And>i. i \<le> n \<Longrightarrow> reader_ok (t\<lparr>r_offset := r_offset s + i\<rparr>) \<and>
         reader_stream m (t\<lparr>r_offset := r_offset s + i\<rparr>) = drop i ?S"
      using read_current [OF gs(1) 1(3) p(1,3)] p(2) S by metis
    have split: "iter_position (\<lambda>c. c = byte) ?S = (case iter_position (\<lambda>c. c = byte) (take n ?S) of Some i \<Rightarrow> Some i
        | None \<Rightarrow> map_option (\<lambda>i. n + i) (iter_position (\<lambda>c. c = byte) (drop n ?S)))"
      using iter_position_append [of "\<lambda>c. c = byte" "take n ?S" "drop n ?S"]
      unfolding append_take_drop_id length_take min.absorb2 [OF t(4)] .
    show ?thesis
    proof (cases "iter_position (\<lambda>c. c = byte) (take n ?S)")
      case (Some i)
      then have i: "i < n" using iter_position_Some [OF Some] t(4) by auto
      have "read_until_loop read_at byte buffer r = (Return (Inr (buffer @ take i (take n ?S))), t\<lparr>r_offset := r_offset s + i + 1\<rparr>)"
        using False gn t(1,4) Some by (simp add: read_until_loop.simps [of _ _ _ r])
      then show ?thesis using split Some i t(5) [of "Suc i"] by (simp add: min.absorb1)
    next
      case None
      have step: "read_until_loop read_at byte buffer r = read_until_loop read_at byte (buffer @ take n ?S) t"
        using False gn t(1,4) None by (simp add: read_until_loop.simps [of _ _ _ r])
      have len: "\<not> length (take n ?S) \<noteq> n" using t(4) by simp
      note IH = 1(1) [OF gn [symmetric] False t(1) [symmetric] refl len None t(2) 1(3), unfolded t(3)]
      have "drop (Suc i) (drop n ?S) = drop (Suc (n + i)) ?S" for i by (simp add: add.commute)
      then show ?thesis
        using IH unfolding step split None by (auto simp: take_add simp del: drop_drop split: option.splits)
    qed
  qed
qed



text \<open>
  A plain \<open>read\<close> delivers the next bytes of the stream, never more than asked for and at least
  one while there are any, and keeps \<open>remaining_len\<close> exact.
\<close>

lemma reader_read_delivers:
  assumes "reader_ok r" "reads_ram read_at m" "remaining_len r = of_nat (length (reader_stream m r))"
  shows "\<exists>k s. reader_read read_at n r = (Inr (take k (reader_stream m r)), s) \<and>
    reader_ok s \<and> reader_stream m s = drop k (reader_stream m r) \<and> k \<le> n \<and>
    (0 < n \<and> reader_stream m r \<noteq> [] \<longrightarrow> 0 < k) \<and> r_len s - r_position s = of_nat (length (reader_stream m s))"
proof -
  obtain k s where s: "reader_read read_at n r = (Inr (take k (reader_stream m r)), s)"
    "reader_ok s" "reader_stream m s = drop k (reader_stream m r)" "k \<le> n"
    "k \<le> length (reader_stream m r)" "0 < n \<Longrightarrow> reader_stream m r \<noteq> [] \<Longrightarrow> 0 < k"
    "r_position s = r_position r + of_nat k"
    using reader_read_spec [OF assms(1,2)] by metis
  have "r_len s = r_len r"
    using s(1) by (auto simp: reader_read_def reader_get_payload_def reader_next_def Let_def
        split: option.splits prod.splits sum.splits if_splits)
  then have "r_len s - r_position s = of_nat (length (reader_stream m s))"
    using assms(3) s(3,5,7) by (simp add: remaining_len_def of_nat_diff algebra_simps)
  with s show ?thesis by blast
qed

lemma reader_read_delivers_example:
  "\<exists>k s. reader_read (\<lambda>a n. Inr (ram_read (\<lambda>_. 9) a n) :: unit + u8 list) 3
     (PayloadReader_new \<lparr>payload = [\<lparr>writeable = False, address = 1, plength = 2\<rparr>], payload_length = (\<lambda>_. 2)\<rparr>) =
       (Inr (take k [9, 9]), s) \<and> 0 < k"
proof -
  let ?work = "\<lparr>payload = [\<lparr>writeable = False, address = 1, plength = 2\<rparr>], payload_length = (\<lambda>_. 2)\<rparr> :: work_item"
  let ?m = "\<lambda>_. 9 :: u8"
  have ne: "no_empty (\<lambda>p. \<not> writeable p) (payload ?work)" by (simp add: no_empty_def)
  have rr: "reads_ram (\<lambda>a n. Inr (ram_read ?m a n) :: unit + u8 list) ?m" by (simp add: reads_ram_def)
  have st: "reader_stream ?m (PayloadReader_new ?work) = [9, 9]"
    using reader_new_ok(2) [OF ne] by (simp add: readable_bytes_def buf_bytes_def ram_read_def upt_rec)
  have "remaining_len (PayloadReader_new ?work) = of_nat (length (reader_stream ?m (PayloadReader_new ?work)))"
    by (simp add: st) (simp add: remaining_len_def PayloadReader_new_def reader_next_def)
  from reader_read_delivers [OF reader_new_ok(1) [OF ne] rr this, of 3] show ?thesis by (auto simp: st)
qed

text \<open>
  \<open>read_until\<close> does not take back the \<open>position\<close> of the bytes it read past the match. On a chain of
  one four-byte buffer holding two terminated strings, the first scan leaves two bytes to read and
  reports none, the second leaves none and \<open>remaining_len\<close> wraps below zero.
\<close>

lemma read_until_position_drift:
  "let m = (\<lambda>a. if a = 0 then 0x61 else if a = 2 then 0x62 else 0) :: guest_ram;
       rd = (\<lambda>a n. Inr (ram_read m a n) :: unit + u8 list);
       r0 = PayloadReader_new \<lparr>payload = [\<lparr>writeable = False, address = 0, plength = 4\<rparr>], payload_length = (\<lambda>_. 4)\<rparr>;
       r1 = snd (read_until rd 0 r0); r2 = snd (read_until rd 0 r1)
   in fst (read_until rd 0 r0) = Return (Inr [0x61]) \<and> reader_stream m r1 = [0x62, 0] \<and> remaining_len r1 = 0 \<and>
      fst (read_until rd 0 r1) = Return (Inr [0x62]) \<and> reader_stream m r2 = [] \<and> remaining_len r2 = - 2"
proof -
  let ?p = "\<lparr>writeable = False, address = 0, plength = 4\<rparr> :: payload_buf"
  let ?m = "(\<lambda>a. if a = 0 then 0x61 else if a = 2 then 0x62 else 0) :: guest_ram"
  let ?rd = "\<lambda>a n. Inr (ram_read ?m a n) :: unit + u8 list"
  let ?at = "\<lambda>off pos. \<lparr>r_rest = [], r_current = Some ?p, r_offset = off, r_position = pos, r_len = 4\<rparr>"
  have r0: "PayloadReader_new \<lparr>payload = [?p], payload_length = (\<lambda>_. 4)\<rparr> = ?at 0 0"
    by (simp add: PayloadReader_new_def reader_next_def)
  have r1: "read_until ?rd 0 (?at 0 0) = (Return (Inr [0x61]), ?at 2 4)"
    unfolding read_until_def by (subst read_until_loop.simps)
      (simp add: get_current_remaining_len_def reader_get_payload_def reader_read_def ram_read_def upt_rec)
  have r2: "read_until ?rd 0 (?at 2 4) = (Return (Inr [0x62]), ?at 4 6)"
    unfolding read_until_def by (subst read_until_loop.simps)
      (simp add: get_current_remaining_len_def reader_get_payload_def reader_read_def ram_read_def upt_rec)
  show ?thesis
    unfolding Let_def r0 r1 r2 snd_conv fst_conv
    by (simp add: reader_stream_def buf_bytes_def ram_read_def upt_rec readable_bytes_def remaining_len_def)
qed

section \<open>The slots of a writer\<close>

text \<open>The guest addresses a writer has still to fill, in order.\<close>

definition buf_slots :: "payload_buf \<Rightarrow> u64 list" where
  "buf_slots p = map (\<lambda>i. address p + of_nat i) [0..<unat (plength p)]"

definition writable_slots :: "payload_buf list \<Rightarrow> u64 list" where
  "writable_slots ps = concat (map buf_slots (filter writeable ps))"

definition writer_slots :: "payload_writer \<Rightarrow> u64 list" where
  "writer_slots x =
     (case w_current x of None \<Rightarrow> [] | Some p \<Rightarrow> drop (w_offset x) (buf_slots p)) @ writable_slots (w_rest x)"

fun scatter :: "u64 list \<Rightarrow> u8 list \<Rightarrow> guest_ram \<Rightarrow> guest_ram" where
  "scatter (a # as) (b # bs) m = scatter as bs (m(a := b))"
| "scatter _ _ m = m"

definition writes_ram :: "('e, 'w) writer_mem \<Rightarrow> ('w \<Rightarrow> guest_ram) \<Rightarrow> bool" where
  "writes_ram write_at mem \<longleftrightarrow>
     (\<forall>a bs w. fst (write_at a bs w) = Inr () \<and> mem (snd (write_at a bs w)) = ram_write a bs (mem w))"

definition writer_ok :: "payload_writer \<Rightarrow> bool" where
  "writer_ok x \<longleftrightarrow>
     no_empty writeable (w_rest x) \<and>
     (case w_current x of
        None \<Rightarrow> w_rest x = []
      | Some p \<Rightarrow> plength p \<noteq> 0 \<and> w_offset x \<le> unat (plength p))"

lemma scatter_Nil [simp]: "scatter as [] m = m"
  by (cases as) simp_all

lemma scatter_append: "length xs \<le> length as \<Longrightarrow>
    scatter as (xs @ ys) m = scatter (drop (length xs) as) ys (scatter as xs m)"
  by (induction as xs m rule: scatter.induct) (auto simp: Suc_le_length_iff)

lemma scatter_prefix: "length bs \<le> length as \<Longrightarrow> scatter (as @ cs) bs m = scatter as bs m"
  by (induction as bs m rule: scatter.induct) auto

lemma ram_write_scatter: "length bs \<le> n \<Longrightarrow> ram_write a bs m = scatter (map (\<lambda>i. a + of_nat i) [0..<n]) bs m"
proof (induction bs arbitrary: a m n)
  case (Cons b bs)
  then obtain k where n: "n = Suc k" "length bs \<le> k" by (cases n) auto
  have "map (\<lambda>i. a + of_nat i) [0..<n] = a # map (\<lambda>i. (a + 1) + of_nat i) [0..<k]"
    by (simp add: n upt_conv_Cons map_Suc_upt [symmetric] del: upt_Suc)
  then show ?case by (simp add: Cons.IH [OF n(2)] fun_upd_def)
qed simp

lemma drop_buf_slots: "drop k (buf_slots p) = map (\<lambda>i. address p + of_nat k + of_nat i) [0..<unat (plength p) - k]"
  by (rule nth_equalityI) (auto simp: buf_slots_def algebra_simps)

lemma length_buf_slots [simp]: "length (buf_slots p) = unat (plength p)"
  by (simp add: buf_slots_def)

lemma writer_next_spec:
  assumes "no_empty writeable (w_rest x)"
  shows "writer_ok ((writer_next x)\<lparr>w_offset := 0\<rparr>)"
    "writer_slots ((writer_next x)\<lparr>w_offset := 0\<rparr>) = writable_slots (w_rest x)"
proof -
  obtain c rest where f: "iter_find writeable (w_rest x) = (c, rest)" by force
  note s = iter_find_spec [OF f]
  have ne: "no_empty writeable rest" using assms s(4) by (auto simp: no_empty_def)
  have cn: "c = Some p \<Longrightarrow> plength p \<noteq> 0" for p using assms s(3) by (auto simp: no_empty_def)
  show "writer_ok ((writer_next x)\<lparr>w_offset := 0\<rparr>)"
    using ne cn s(2) by (cases c) (auto simp: writer_ok_def writer_next_def f)
  show "writer_slots ((writer_next x)\<lparr>w_offset := 0\<rparr>) = writable_slots (w_rest x)"
    using s(1) by (cases c) (auto simp: writer_slots_def writer_next_def f writable_slots_def)
qed

lemma writer_new_ok:
  assumes "no_empty writeable (payload work)"
  shows "writer_ok (PayloadWriter_new work)" "writer_slots (PayloadWriter_new work) = writable_slots (payload work)"
proof -
  let ?x = "\<lparr>w_rest = payload work, w_current = None, w_offset = 0\<rparr>"
  have "PayloadWriter_new work = (writer_next ?x)\<lparr>w_offset := 0\<rparr>"
    by (simp add: PayloadWriter_new_def writer_next_def split: prod.split)
  then show "writer_ok (PayloadWriter_new work)" "writer_slots (PayloadWriter_new work) = writable_slots (payload work)"
    using writer_next_spec [of ?x] assms by simp_all
qed

lemma writer_get_payload_spec:
  assumes "writer_ok x" "writer_get_payload x = (c, y)"
  shows "writer_ok y" "writer_slots y = writer_slots x" "c = w_current y"
    "c = None \<Longrightarrow> writer_slots y = []" "c = Some p \<Longrightarrow> w_offset y < unat (plength p)"
proof -
  have "writer_ok y \<and> writer_slots y = writer_slots x \<and> c = w_current y \<and>
    (c = Some p \<longrightarrow> w_offset y < unat (plength p))"
  proof (cases "w_current x")
    case None
    then show ?thesis using assms by (auto simp: writer_get_payload_def)
  next
    case (Some q)
    show ?thesis
    proof (cases "w_offset x = unat (plength q)")
      case True
      then have y: "y = (writer_next x)\<lparr>w_offset := 0\<rparr>" "c = w_current y"
        using assms(2) Some by (auto simp: writer_get_payload_def Let_def)
      have ne: "no_empty writeable (w_rest x)" using assms(1) by (simp add: writer_ok_def)
      have "w_offset y = 0" by (simp add: y)
      then show ?thesis
        using writer_next_spec [OF ne] y Some True
        by (auto simp: writer_slots_def [of x] writer_ok_def unat_gt_0)
    next
      case False
      then show ?thesis
        using assms Some by (auto simp: writer_get_payload_def Let_def writer_ok_def split: option.splits)
    qed
  qed
  then show "writer_ok y" "writer_slots y = writer_slots x" "c = w_current y"
    "c = Some p \<Longrightarrow> w_offset y < unat (plength p)" by auto
  then show "c = None \<Longrightarrow> writer_slots y = []"
    by (auto simp: writer_slots_def writer_ok_def writable_slots_def)
qed

text \<open>One \<open>write\<close> fills the next slots with a prefix of its bytes, at least one while there is room.\<close>

lemma writer_write_spec:
  assumes "writer_ok x" "writes_ram write_at mem"
  shows "\<exists>k y w'. writer_write write_at buf x w = (Inr k, y, w') \<and> writer_ok y \<and>
    writer_slots y = drop k (writer_slots x) \<and> k \<le> length buf \<and> k \<le> length (writer_slots x) \<and>
    (buf \<noteq> [] \<longrightarrow> writer_slots x \<noteq> [] \<longrightarrow> 0 < k) \<and> mem w' = scatter (writer_slots x) (take k buf) (mem w)"
proof -
  obtain c y where g: "writer_get_payload x = (c, y)" by force
  note gs = writer_get_payload_spec [OF assms(1) g]
  show ?thesis
  proof (cases c)
    case None
    then have "writer_write write_at buf x w = (Inr 0, y, w)" by (simp add: writer_write_def g)
    with gs(1,2) gs(4) [OF None] show ?thesis by simp
  next
    case (Some p)
    let ?room = "unat (plength p) - w_offset y" let ?k = "min ?room (length buf)"
    let ?a = "address p + of_nat (w_offset y)" let ?y = "y\<lparr>w_offset := w_offset y + ?k\<rparr>"
    have cur: "w_current y = Some p" using gs(3) Some by simp
    have sl: "writer_slots x = map (\<lambda>i. ?a + of_nat i) [0..<?room] @ writable_slots (w_rest y)"
      using gs(2) cur by (simp add: writer_slots_def drop_buf_slots)
    obtain w' where wr: "write_at ?a (take ?k buf) w = (Inr (), w')" "mem w' = ram_write ?a (take ?k buf) (mem w)"
      using assms(2) unfolding writes_ram_def by (metis prod.collapse)
    have "writer_write write_at buf x w = (Inr ?k, ?y, w')"
      using wr(1) by (simp add: writer_write_def g Some Let_def)
    moreover have "writer_ok ?y" using gs(1) gs(5) [OF Some] cur by (auto simp: writer_ok_def)
    moreover have "writer_slots ?y = drop ?k (writer_slots x)"
    proof -
      have "map (\<lambda>i. address p + of_nat (w_offset y + ?k) + of_nat i) [0..<unat (plength p) - (w_offset y + ?k)] =
          drop ?k (map (\<lambda>i. ?a + of_nat i) [0..<?room])"
        by (rule nth_equalityI) (auto simp: algebra_simps)
      then show ?thesis unfolding sl writer_slots_def [of ?y] by (simp add: cur drop_buf_slots)
    qed
    moreover have "ram_write ?a (take ?k buf) (mem w) = scatter (writer_slots x) (take ?k buf) (mem w)"
      unfolding sl by (subst scatter_prefix) (auto intro: ram_write_scatter)
    moreover have "0 < ?room" using gs(5) [OF Some] by simp
    ultimately show ?thesis using wr(2) by (intro exI [of _ ?k] exI [of _ ?y] exI [of _ w']) (auto simp: sl)
  qed
qed

lemma write_all_spec:
  assumes "writer_ok x" "writes_ram write_at mem"
  shows "if length buf \<le> length (writer_slots x)
    then \<exists>y w'. write_all write_at buf x w = (Inr (), y, w') \<and> writer_ok y \<and>
      writer_slots y = drop (length buf) (writer_slots x) \<and> mem w' = scatter (writer_slots x) buf (mem w)
    else fst (write_all write_at buf x w) = Inl WriteZero"
  using assms
proof (induction write_at buf x w rule: write_all.induct)
  case (1 write_at buf x w)
  show ?case
  proof (cases "buf = []")
    case True
    then show ?thesis using 1 by (simp add: write_all.simps)
  next
    case False
    obtain k y w' where wr: "writer_write write_at buf x w = (Inr k, y, w')" "writer_ok y"
      "writer_slots y = drop k (writer_slots x)" "k \<le> length buf" "k \<le> length (writer_slots x)"
      "writer_slots x \<noteq> [] \<Longrightarrow> 0 < k" "mem w' = scatter (writer_slots x) (take k buf) (mem w)"
      using writer_write_spec [OF 1(2,3), of buf w] False by blast
    show ?thesis
    proof (cases "k = 0")
      case True
      then have "writer_slots x = []" using wr(6) by auto
      with True False wr(1) show ?thesis by (simp add: write_all.simps)
    next
      case False
      have step: "write_all write_at buf x w = write_all write_at (drop k buf) y w'"
        using \<open>buf \<noteq> []\<close> False wr(1) by (simp add: write_all.simps [of _ buf])
      have sc: "scatter (writer_slots x) buf (mem w) = scatter (drop k (writer_slots x)) (drop k buf) (mem w')"
        using scatter_append [of "take k buf" "writer_slots x" "drop k buf" "mem w"] wr(4,5,7) by simp
      note IH = 1(1) [OF \<open>buf \<noteq> []\<close> wr(1) [symmetric] refl refl False wr(2) 1(3)]
      show ?thesis
        using IH wr(3-5) unfolding step sc
        by (cases "length buf \<le> length (writer_slots x)") (auto simp: le_diff_conv)
    qed
  qed
qed

lemma send_bufs_spec:
  assumes "writer_ok x" "writes_ram write_at mem"
  shows "if length (concat bufs) \<le> length (writer_slots x)
    then \<exists>w'. send_bufs write_at bufs n x w = (Inr (n + length (concat bufs)), w') \<and>
      mem w' = scatter (writer_slots x) (concat bufs) (mem w)
    else fst (send_bufs write_at bufs n x w) = Inl WriteZero"
  using assms(1)
proof (induction bufs arbitrary: n x w)
  case (Cons buf bufs)
  note wa = write_all_spec [OF Cons.prems assms(2), of buf w]
  show ?case
  proof (cases "length buf \<le> length (writer_slots x)")
    case True
    with wa obtain y w' where y: "write_all write_at buf x w = (Inr (), y, w')" "writer_ok y"
      "writer_slots y = drop (length buf) (writer_slots x)" "mem w' = scatter (writer_slots x) buf (mem w)" by auto
    have "scatter (writer_slots x) (buf @ concat bufs) (mem w) = scatter (writer_slots y) (concat bufs) (mem w')"
      using scatter_append [OF True] y(3,4) by simp
    then show ?thesis
      using Cons.IH [OF y(2), of "n + length buf" w'] y(1,3) True
      by (auto simp: add.assoc split: if_splits)
  next
    case False
    with wa show ?thesis by (auto split: prod.splits sum.splits)
  qed
qed simp

lemma send_reply:
  assumes "no_empty writeable (payload (rs_work rs))" "writes_ram write_at mem"
  shows "if length (concat bufs) \<le> length (writable_slots (payload (rs_work rs)))
    then \<exists>w'. send write_at bufs rs w = (Inr (), rs\<lparr>bytes_written := of_nat (length (concat bufs))\<rparr>, w') \<and>
      mem w' = scatter (writable_slots (payload (rs_work rs))) (concat bufs) (mem w)
    else \<exists>w'. send write_at bufs rs w = (Inl WriteZero, rs, w')"
proof -
  note s = send_bufs_spec [OF writer_new_ok(1) [OF assms(1)] assms(2), of bufs 0 w,
      unfolded writer_new_ok(2) [OF assms(1)]]
  show ?thesis
  proof (cases "length (concat bufs) \<le> length (writable_slots (payload (rs_work rs)))")
    case True
    with s show ?thesis by (auto simp: send_def)
  next
    case False
    with s have "fst (send_bufs write_at bufs 0 (PayloadWriter_new (rs_work rs)) w) = Inl WriteZero" by simp
    with False show ?thesis by (cases "send_bufs write_at bufs 0 (PayloadWriter_new (rs_work rs)) w") (simp add: send_def)
  qed
qed



end
