(* ===== verification/Worker_Pool.thy ===== *)
theory Worker_Pool
  imports Rust_Str
begin

text \<open>
  The blocking worker pool of \<open>virtio-hdv/src/pool.rs\<close> as a step relation over its queue, the
  shutdown bit and the control points of its threads. A step is one critical section of the queue
  lock, one condition-variable operation, or the end of a job; spurious wakeups are steps too. Shown:
  no job is lost or run twice, no job waits for a sleeping worker without a wakeup on its way, and
  dropping the pool always ends, with every job run. The sizing rule is modelled beside it.
\<close>

section \<open>Sizing\<close>

datatype env_var = EnvUnset | EnvNotUnicode | EnvStr rust_str

text \<open>\<open>str::parse::<usize>\<close> is \<open>from_str_radix\<close> to base 10.\<close>

definition clamp :: "nat \<Rightarrow> nat \<Rightarrow> nat \<Rightarrow> nat" where
  "clamp n lo hi = (if n < lo then lo else if hi < n then hi else n)"

definition parse_workers :: "rust_str option \<Rightarrow> nat \<Rightarrow> nat" where
  "parse_workers val cpus =
     (case val of
        None \<Rightarrow> 0
      | Some s \<Rightarrow> (case from_str_radix 10 (str_trim s) :: usize option of
                     Some n \<Rightarrow> unat n
                   | None \<Rightarrow> clamp cpus 4 16))"

definition configured_workers :: "env_var \<Rightarrow> nat option \<Rightarrow> nat" where
  "configured_workers env parallelism =
     parse_workers (case env of EnvStr s \<Rightarrow> Some s | _ \<Rightarrow> None)
       (case parallelism of None \<Rightarrow> 4 | Some n \<Rightarrow> n)"

section \<open>The pool\<close>

text \<open>
  A worker is about to look at the queue under the lock, running a job with the lock released, asleep
  in \<open>Condvar::wait\<close>, or gone.
\<close>

datatype 'j worker = Ready | Running 'j | Waiting | Exited

record 'j pool =
  jobs :: "'j list"
  shutdown :: bool
  workers :: "'j worker list"
  notifies :: nat
  notified_all :: bool
  submitted :: "'j list"
  ran :: "'j list"
  contained :: nat

text \<open>
  \<open>notifies\<close> counts the submitters between their push and their \<open>notify_one\<close>. The last three fields
  are the history the theorems speak about.
\<close>

definition WorkerPool_new :: "nat \<Rightarrow> 'j pool" where
  "WorkerPool_new n =
     \<lparr>jobs = [], shutdown = False, workers = replicate n Ready, notifies = 0, notified_all = False,
      submitted = [], ran = [], contained = 0\<rparr>"

text \<open>\<open>run_job\<close> says whether a panic was contained.\<close>

definition run_job :: "unit outcome \<Rightarrow> bool" where
  "run_job job = (case catch_unwind job of Inl _ \<Rightarrow> True | Inr _ \<Rightarrow> False)"

definition ran_job :: "('j \<Rightarrow> unit outcome) \<Rightarrow> 'j \<Rightarrow> 'j pool \<Rightarrow> 'j pool" where
  "ran_job body j s =
     s\<lparr>ran := ran s @ [j], contained := contained s + (if run_job (body j) then 1 else 0)\<rparr>"

inductive pool_step :: "('j \<Rightarrow> unit outcome) \<Rightarrow> 'j pool \<Rightarrow> 'j pool \<Rightarrow> bool" for body where
  submit_inline: "workers s = [] \<Longrightarrow> \<not> shutdown s \<Longrightarrow>
    pool_step body s (ran_job body j (s\<lparr>submitted := submitted s @ [j]\<rparr>))"
| submit_push: "workers s \<noteq> [] \<Longrightarrow> \<not> shutdown s \<Longrightarrow>
    pool_step body s (s\<lparr>jobs := jobs s @ [j], notifies := Suc (notifies s), submitted := submitted s @ [j]\<rparr>)"
| notify_wakes: "notifies s = Suc n \<Longrightarrow> i < length (workers s) \<Longrightarrow> workers s ! i = Waiting \<Longrightarrow>
    pool_step body s (s\<lparr>notifies := n, workers := (workers s)[i := Ready]\<rparr>)"
| notify_idle: "notifies s = Suc n \<Longrightarrow> Waiting \<notin> set (workers s) \<Longrightarrow>
    pool_step body s (s\<lparr>notifies := n\<rparr>)"
| take: "i < length (workers s) \<Longrightarrow> workers s ! i = Ready \<Longrightarrow> jobs s = j # js \<Longrightarrow>
    pool_step body s (s\<lparr>jobs := js, workers := (workers s)[i := Running j]\<rparr>)"
| finish: "i < length (workers s) \<Longrightarrow> workers s ! i = Running j \<Longrightarrow>
    pool_step body s (ran_job body j (s\<lparr>workers := (workers s)[i := Ready]\<rparr>))"
| exit: "i < length (workers s) \<Longrightarrow> workers s ! i = Ready \<Longrightarrow> jobs s = [] \<Longrightarrow> shutdown s \<Longrightarrow>
    pool_step body s (s\<lparr>workers := (workers s)[i := Exited]\<rparr>)"
| wait: "i < length (workers s) \<Longrightarrow> workers s ! i = Ready \<Longrightarrow> jobs s = [] \<Longrightarrow> \<not> shutdown s \<Longrightarrow>
    pool_step body s (s\<lparr>workers := (workers s)[i := Waiting]\<rparr>)"
| spurious: "i < length (workers s) \<Longrightarrow> workers s ! i = Waiting \<Longrightarrow>
    pool_step body s (s\<lparr>workers := (workers s)[i := Ready]\<rparr>)"
| drop_shutdown: "\<not> shutdown s \<Longrightarrow> notifies s = 0 \<Longrightarrow>
    pool_step body s (s\<lparr>shutdown := True\<rparr>)"
| drop_notify_all: "shutdown s \<Longrightarrow> \<not> notified_all s \<Longrightarrow>
    pool_step body s (s\<lparr>notified_all := True,
      workers := map (\<lambda>x. if x = Waiting then Ready else x) (workers s)\<rparr>)"

text \<open>\<open>Drop\<close> returns when its joins do.\<close>

definition joined :: "'j pool \<Rightarrow> bool" where
  "joined s \<longleftrightarrow> notified_all s \<and> (\<forall>x \<in> set (workers s). x = Exited)"

section \<open>Invariants\<close>

fun running :: "'j worker \<Rightarrow> 'j multiset" where
  "running (Running j) = {#j#}"
| "running _ = {#}"

definition in_flight :: "'j worker list \<Rightarrow> 'j multiset" where
  "in_flight ws = sum_list (map running ws)"

definition ready_count :: "'j worker list \<Rightarrow> nat" where
  "ready_count ws = sum_list (map (\<lambda>x. if x = Ready then 1 else 0) ws)"

definition pool_inv :: "'j pool \<Rightarrow> bool" where
  "pool_inv s \<longleftrightarrow>
     mset (submitted s) = mset (jobs s) + in_flight (workers s) + mset (ran s) \<and>
     (Waiting \<in> set (workers s) \<longrightarrow> length (jobs s) \<le> notifies s + ready_count (workers s) \<or> shutdown s) \<and>
     (Exited \<in> set (workers s) \<longrightarrow> shutdown s \<and> jobs s = []) \<and>
     (notified_all s \<longrightarrow> shutdown s \<and> Waiting \<notin> set (workers s)) \<and>
     (shutdown s \<longrightarrow> notifies s = 0) \<and> (workers s = [] \<longrightarrow> jobs s = [])"

lemma in_flight_update:
  "i < length ws \<Longrightarrow> in_flight (ws[i := x]) + running (ws ! i) = in_flight ws + running x"
  unfolding in_flight_def by (rule sum_list_list_update)

lemma ready_update:
  "i < length ws \<Longrightarrow> ready_count (ws[i := x]) + (if ws ! i = Ready then 1 else 0) =
     ready_count ws + (if x = Ready then 1 else 0)"
  unfolding ready_count_def by (rule sum_list_list_update)

lemma Waiting_update: "Waiting \<in> set (xs[i := x]) \<Longrightarrow> x \<noteq> Waiting \<Longrightarrow> Waiting \<in> set xs"
  using set_update_subset_insert [of xs i x] by auto

lemma Exited_update: "Exited \<in> set (xs[i := x]) \<Longrightarrow> x \<noteq> Exited \<Longrightarrow> Exited \<in> set xs"
  using set_update_subset_insert [of xs i x] by auto

lemma ran_job_frame [simp]:
  "jobs (ran_job body j s) = jobs s" "shutdown (ran_job body j s) = shutdown s"
  "workers (ran_job body j s) = workers s" "notifies (ran_job body j s) = notifies s"
  "notified_all (ran_job body j s) = notified_all s" "submitted (ran_job body j s) = submitted s"
  "ran (ran_job body j s) = ran s @ [j]"
  by (simp_all add: ran_job_def)

lemma in_flight_wake: "in_flight (map (\<lambda>x. if x = Waiting then Ready else x) ws) = in_flight ws"
  unfolding in_flight_def by (induction ws) auto

lemma in_flight_idle: "in_flight (replicate n Ready) = {#}"
  unfolding in_flight_def by (induction n) auto

lemma nth_in_workers: "i < length xs \<Longrightarrow> xs ! i = y \<Longrightarrow> y \<in> set xs"
  by auto

lemma pool_inv_step:
  assumes "pool_inv s" "pool_step body s t"
  shows "pool_inv t"
  using assms(2,1)
proof cases
  case (notify_wakes n i)
  then show ?thesis
    using assms(1) in_flight_update [of i "workers s" Ready] ready_update [of i "workers s" Ready]
    by (auto simp: pool_inv_def dest: Waiting_update Exited_update nth_in_workers)
next
  case (take i j js)
  then show ?thesis
    using assms(1) in_flight_update [of i "workers s" "Running j"] ready_update [of i "workers s" "Running j"]
    by (auto simp: pool_inv_def dest: Waiting_update Exited_update nth_in_workers)
next
  case (finish i j)
  then show ?thesis
    using assms(1) in_flight_update [of i "workers s" Ready] ready_update [of i "workers s" Ready]
    by (auto simp: pool_inv_def dest: Waiting_update Exited_update nth_in_workers)
next
  case (exit i)
  then show ?thesis
    using assms(1) in_flight_update [of i "workers s" Exited] ready_update [of i "workers s" Exited]
    by (auto simp: pool_inv_def dest: Waiting_update)
next
  case (wait i)
  then show ?thesis
    using assms(1) in_flight_update [of i "workers s" Waiting] ready_update [of i "workers s" Waiting]
    by (auto simp: pool_inv_def dest: Exited_update)
next
  case (spurious i)
  then show ?thesis
    using assms(1) in_flight_update [of i "workers s" Ready] ready_update [of i "workers s" Ready]
    by (auto simp: pool_inv_def dest: Waiting_update Exited_update nth_in_workers)
next
  case drop_notify_all
  then show ?thesis using assms(1) by (auto simp: pool_inv_def in_flight_wake)
qed (auto simp: pool_inv_def)

definition pool_init :: "'j pool \<Rightarrow> bool" where
  "pool_init s \<longleftrightarrow> (\<exists>n. s = WorkerPool_new n)"

interpretation pool: safe_machine pool_init "pool_step body" pool_inv for body
proof unfold_locales
  show "pool_init s \<Longrightarrow> pool_inv s" for s :: "'a pool"
    by (auto simp: pool_init_def pool_inv_def WorkerPool_new_def in_flight_idle)
  show "pool_inv s \<Longrightarrow> pool_step body s t \<Longrightarrow> pool_inv t" for s t
    by (rule pool_inv_step)
qed

section \<open>Dropping the pool\<close>

fun weight :: "'j worker \<Rightarrow> nat" where
  "weight Exited = 0"
| "weight Ready = 1"
| "weight (Running _) = 2"
| "weight Waiting = 2"

definition pool_weight :: "'j pool \<Rightarrow> nat" where
  "pool_weight s =
     2 * length (jobs s) + sum_list (map weight (workers s)) + (if notified_all s then 0 else 1)"

lemma weight_update:
  "i < length ws \<Longrightarrow> sum_list (map weight (ws[i := x])) + weight (ws ! i) = sum_list (map weight ws) + weight x"
  by (rule sum_list_list_update)

lemma weight_wake: "sum_list (map weight (map (\<lambda>x. if x = Waiting then Ready else x) ws)) \<le> sum_list (map weight ws)"
  by (induction ws) auto

text \<open>Once the shutdown bit is set, every step is progress.\<close>

lemma shutdown_progress:
  assumes "pool_inv s" "shutdown s" "pool_step body s t"
  shows "pool_weight t < pool_weight s \<and> shutdown t"
  using assms(3,2,1)
proof cases
  case (take i j js)
  then show ?thesis using weight_update [of i "workers s" "Running j"] assms(2) by (simp add: pool_weight_def)
next
  case (finish i j)
  then show ?thesis using weight_update [of i "workers s" Ready] assms(2) by (simp add: pool_weight_def)
next
  case (exit i)
  then show ?thesis using weight_update [of i "workers s" Exited] by (simp add: pool_weight_def)
next
  case (spurious i)
  then show ?thesis using weight_update [of i "workers s" Ready] assms(2) by (simp add: pool_weight_def)
next
  case drop_notify_all
  then show ?thesis using weight_wake [of "workers s"] by (simp add: pool_weight_def del: map_map)
qed (use assms in \<open>auto simp: pool_inv_def\<close>)

lemma shutdown_enabled:
  assumes "pool_inv s" "shutdown s" "\<not> joined s"
  shows "\<exists>t. pool_step body s t"
proof (cases "notified_all s")
  case False
  then show ?thesis using assms(2) pool_step.drop_notify_all by blast
next
  case True
  then obtain x where "x \<in> set (workers s)" "x \<noteq> Exited" using assms(3) by (auto simp: joined_def)
  then obtain i where i: "i < length (workers s)" "workers s ! i \<noteq> Exited" by (metis in_set_conv_nth)
  have "Waiting \<notin> set (workers s)" using True assms(1) by (simp add: pool_inv_def)
  then have "workers s ! i \<noteq> Waiting" using i(1) nth_mem by metis
  with i(2) consider "workers s ! i = Ready" | j where "workers s ! i = Running j"
    by (cases "workers s ! i") auto
  then show ?thesis
  proof cases
    case 1
    show ?thesis
    proof (cases "jobs s")
      case Nil
      then show ?thesis using pool_step.exit [OF i(1) 1 _ assms(2)] by blast
    next
      case (Cons j js)
      then show ?thesis using pool_step.take [OF i(1) 1] by blast
    qed
  next
    case 2
    from pool_step.finish [OF i(1) this] show ?thesis by blast
  qed
qed

lemma in_flight_exited: "\<forall>x \<in> set ws. x = Exited \<Longrightarrow> in_flight ws = {#}"
  unfolding in_flight_def by (induction ws) auto

lemma joined_drained:
  assumes "pool_inv s" "joined s"
  shows "mset (ran s) = mset (submitted s)"
proof -
  have ex: "\<forall>x \<in> set (workers s). x = Exited" using assms(2) by (simp add: joined_def)
  have "jobs s = []" using assms(1) ex by (cases "workers s") (auto simp: pool_inv_def)
  moreover have "in_flight (workers s) = {#}"
    using in_flight_exited [OF ex] .
  ultimately show ?thesis using assms(1) by (simp add: pool_inv_def)
qed



section \<open>Concrete runs\<close>



text \<open>
  The sizing rule: an unset variable gives the inline pool, a number gives that many threads, any
  other text gives between four and sixteen by the machine; a value that is not Unicode counts as
  unset, not as other text.
\<close>

lemma configured_workers_rules:
  "configured_workers EnvUnset cpus = 0 \<and> configured_workers EnvNotUnicode cpus = 0 \<and>
   configured_workers (EnvStr (lit ''0'')) cpus = 0 \<and> configured_workers (EnvStr (lit ''32'')) cpus = 32 \<and>
   configured_workers (EnvStr (lit ''auto'')) (Some 2) = 4 \<and> configured_workers (EnvStr (lit ''auto'')) (Some 64) = 16 \<and>
   (case from_str_radix 10 (str_trim s) :: usize option of
      Some n \<Rightarrow> configured_workers (EnvStr s) cpus = unat n
    | None \<Rightarrow> 4 \<le> configured_workers (EnvStr s) cpus \<and> configured_workers (EnvStr s) cpus \<le> 16)"
proof -
  have "from_str_radix 10 (str_trim (lit ''0'')) = Some (0 :: usize)"
    "from_str_radix 10 (str_trim (lit ''32'')) = Some (32 :: usize)"
    "(from_str_radix 10 (str_trim (lit ''auto'')) :: usize option) = None"
    by (simp_all add: from_str_radix_def str_trim_def lit_def is_whitespace_def to_digit_def)
  then show ?thesis
    by (auto simp: configured_workers_def parse_workers_def clamp_def split: option.split)
qed

end
