(* ===== verification/Offload.thy ===== *)
theory Offload
  imports Payload Worker_Pool
begin

text \<open>
  The virtio-fs device of \<open>virtio-hdv/src/offload.rs\<close>: its config space, the table of queue workers,
  one FUSE round trip, and the dispatcher of a queue as a step relation. The dispatcher's step
  relation has its own steps and those of the world around it (the guest posting requests and
  kicking, the pool finishing jobs, the transport asking it to stop). \<open>VirtioQueue\<close>, the FUSE session
  and the task executor belong to OpenVMM: the ring is the sequence of requests the guest has
  posted, parsing and dispatching a request are parameters. Shown: no descriptor is lost or completed
  twice, a stop that was seen always ends with everything popped also completed, and a stop can go
  unseen for as long as the guest keeps one request at a time coming.
\<close>

section \<open>Config space\<close>

definition TAG_LEN :: nat where
  "TAG_LEN = 36"

definition CONFIG_LEN :: nat where
  "CONFIG_LEN = TAG_LEN + 4"

definition to_le_bytes :: "u32 \<Rightarrow> u8 list" where
  "to_le_bytes w = [ucast w, ucast (drop_bit 8 w), ucast (drop_bit 16 w), ucast (drop_bit 24 w)]"

fun from_le_bytes :: "u8 list \<Rightarrow> u32" where
  "from_le_bytes [] = 0"
| "from_le_bytes (b # bs) = ucast b OR push_bit 8 (from_le_bytes bs)"

definition as_bytes :: "rust_str \<Rightarrow> u8 list" where
  "as_bytes s = map of_nat (utf8_encode s)"

text \<open>The array starts as zeros; the tag overwrites its head and the queue count its last four bytes.\<close>

definition device_config :: "rust_str \<Rightarrow> u8 list" where
  "device_config tag =
     (let config = replicate CONFIG_LEN 0; len = min (length (as_bytes tag)) TAG_LEN;
          config = take len (as_bytes tag) @ drop len config
      in take TAG_LEN config @ to_le_bytes 1)"

definition slice_get :: "nat \<Rightarrow> nat \<Rightarrow> 'a list \<Rightarrow> 'a list option" where
  "slice_get a b xs = (if a \<le> b \<and> b \<le> length xs then Some (take (b - a) (drop a xs)) else None)"

definition read_registers_u32 :: "u8 list \<Rightarrow> u16 \<Rightarrow> u32" where
  "read_registers_u32 config off =
     (case slice_get (unat off) (unat off + 4) config of None \<Rightarrow> 0 | Some b \<Rightarrow> from_le_bytes b)"

section \<open>The queue table\<close>

text \<open>A slot holds the started worker of its queue; \<open>'q\<close> stands for the stop sender and the task.\<close>

record 'q offload_device =
  task_name :: rust_str
  config :: "u8 list"
  pool_size :: nat
  queues :: "'q option list"
  session_destroyed :: bool

text \<open>The pool is given by its number of workers.\<close>

definition OffloadVirtioFsDevice_new :: "rust_str \<Rightarrow> nat \<Rightarrow> 'q offload_device" where
  "OffloadVirtioFsDevice_new tag n =
     \<lparr>task_name = lit ''virtiofs-offload-'' @ tag, config = device_config tag, pool_size = n, queues = [],
      session_destroyed = False\<rparr>"

datatype virtio_device_type = FS

record device_traits =
  virtio_device_id :: virtio_device_type
  ring_event_idx :: bool
  ring_indirect_desc :: bool
  ring_packed :: bool
  max_queues :: u16
  device_register_length :: u32
  shared_memory_size :: u64

definition traits :: "'q offload_device \<Rightarrow> device_traits" where
  "traits dev =
     \<lparr>virtio_device_id = FS, ring_event_idx = True, ring_indirect_desc = True, ring_packed = True, max_queues = 2,
      device_register_length = of_nat CONFIG_LEN, shared_memory_size = 0\<rparr>"

text \<open>The config space is read-only: a write is reported and has no effect.\<close>

definition write_registers_u32 :: "u16 \<Rightarrow> u32 \<Rightarrow> 'q offload_device \<Rightarrow> 'q offload_device" where
  "write_registers_u32 off val dev = dev"

datatype start_error = PolledWaitFailed | VirtioQueueFailed

definition resize_with :: "nat \<Rightarrow> 'a \<Rightarrow> 'a list \<Rightarrow> 'a list" where
  "resize_with n x xs = take n xs @ replicate (n - length xs) x"

definition start_queue ::
  "u16 \<Rightarrow> bool \<Rightarrow> bool \<Rightarrow> 'q \<Rightarrow> 'q offload_device \<Rightarrow> (start_error + unit) \<times> 'q offload_device" where
  "start_queue idx wait_ok queue_ok worker dev =
     (if \<not> wait_ok then (Inl PolledWaitFailed, dev)
      else if \<not> queue_ok then (Inl VirtioQueueFailed, dev)
      else let i = unat idx;
               qs = (if length (queues dev) \<le> i then resize_with (i + 1) None (queues dev) else queues dev)
           in (Inr (), dev\<lparr>queues := qs[i := Some worker]\<rparr>))"

text \<open>The worker that was stopped is handed back: its queue's state is the result.\<close>

definition stop_queue :: "u16 \<Rightarrow> 'q offload_device \<Rightarrow> 'q option \<times> 'q offload_device" where
  "stop_queue idx dev =
     (let i = unat idx
      in if i < length (queues dev)
         then (queues dev ! i, dev\<lparr>queues := (queues dev)[i := None]\<rparr>)
         else (None, dev))"

definition reset :: "'q offload_device \<Rightarrow> 'q list \<times> 'q offload_device" where
  "reset dev =
     (List.map_filter id (queues dev),
      dev\<lparr>queues := map (\<lambda>_. None) (queues dev), session_destroyed := True\<rparr>)"

section \<open>One FUSE round trip\<close>

text \<open>
  \<open>parse\<close> is \<open>fuse::Request::new\<close> on the chain's reader, \<open>run\<close> is \<open>Session::dispatch\<close>, which may send a
  reply through the sender it is given.
\<close>

definition dispatch_one ::
  "(payload_reader \<Rightarrow> 'e + 'r) \<Rightarrow> ('r \<Rightarrow> reply_sender \<Rightarrow> 'w \<Rightarrow> reply_sender \<times> 'w) \<Rightarrow> ('w \<Rightarrow> 'w) \<Rightarrow>
     work_item \<Rightarrow> 'w \<Rightarrow> u32 \<times> 'w" where
  "dispatch_one parse run notify_corruption work w =
     (case parse (PayloadReader_new work) of
        Inl e \<Rightarrow> (0, notify_corruption w)
      | Inr request \<Rightarrow>
          (case run request (PayloadReplySender_new work) w of (sender, w) \<Rightarrow> (bytes_written sender, w)))"

section \<open>The dispatcher\<close>

datatype dispatcher_pc = Drain | Dispatch | CheckStop | Park | Returned

text \<open>
  \<open>avail\<close> is the ring: what the guest has posted and the dispatcher has not popped. \<open>pool_jobs\<close> are
  the jobs the pool holds, \<open>done_chan\<close> the completion channel, \<open>completed\<close> the used ring; \<open>posted\<close> and
  \<open>popped\<close> record the history.
\<close>

record 'j dispatcher =
  pc :: dispatcher_pc
  batch :: "'j list"
  inflight :: nat
  stopping :: bool
  queue_failed :: bool
  avail :: "'j list"
  kicked :: bool
  stop_sent :: bool
  pool_jobs :: "'j multiset"
  done_chan :: "('j \<times> u32) list"
  completed :: "('j \<times> u32) list"
  posted :: "'j list"
  popped :: "'j list"

definition dispatcher_start :: "'j dispatcher" where
  "dispatcher_start =
     \<lparr>pc = Drain, batch = [], inflight = 0, stopping = False, queue_failed = False, avail = [],
      kicked = False, stop_sent = False, pool_jobs = {#}, done_chan = [], completed = [], posted = [],
      popped = []\<rparr>"

text \<open>A panic in the FUSE call is contained and completes zero bytes, inline and in the pool alike.\<close>

definition job_bytes :: "('j \<Rightarrow> u32 outcome) \<Rightarrow> 'j \<Rightarrow> u32" where
  "job_bytes fuse j = unwrap_or (catch_unwind (fuse j)) 0"

text \<open>One pass of the \<open>poll_fn\<close> closure: drain the channel, look at the stop signal, then at the kick.\<close>

definition poll_pass :: "'j dispatcher \<Rightarrow> bool \<times> 'j dispatcher" where
  "poll_pass s =
     (let progressed = (done_chan s \<noteq> []);
          s = s\<lparr>completed := completed s @ done_chan s, inflight := inflight s - length (done_chan s), done_chan := []\<rparr>;
          stop_now = (\<not> stopping s \<and> stop_sent s);
          s = (if stop_now then s\<lparr>stopping := True\<rparr> else s);
          progressed = (progressed \<or> stop_now)
      in if stopping s \<or> queue_failed s then (progressed, s)
         else if kicked s then (True, s\<lparr>kicked := False\<rparr>)
         else (progressed, s))"

text \<open>
  A step is one descriptor popped, one job submitted, one pass of the closure, or one job ended. The
  test for the lone request is made once before the fan-out; after the first submission \<open>inflight\<close>
  is positive until the next poll, so the last request of a batch is not mistaken for one.
\<close>

inductive disp_step :: "('j \<Rightarrow> u32 outcome) \<Rightarrow> 'j dispatcher \<Rightarrow> 'j dispatcher \<Rightarrow> bool" for fuse where
  pop: "pc s = Drain \<Longrightarrow> \<not> stopping s \<Longrightarrow> \<not> queue_failed s \<Longrightarrow> avail s = j # js \<Longrightarrow>
    disp_step fuse s (s\<lparr>avail := js, batch := batch s @ [j], popped := popped s @ [j]\<rparr>)"
| drained: "pc s = Drain \<Longrightarrow> \<not> stopping s \<Longrightarrow> \<not> queue_failed s \<Longrightarrow> avail s = [] \<Longrightarrow>
    disp_step fuse s (s\<lparr>pc := Dispatch\<rparr>)"
| queue_error: "pc s = Drain \<Longrightarrow> \<not> stopping s \<Longrightarrow> \<not> queue_failed s \<Longrightarrow>
    disp_step fuse s (s\<lparr>pc := Dispatch, queue_failed := True\<rparr>)"
| no_drain: "pc s = Drain \<Longrightarrow> stopping s \<or> queue_failed s \<Longrightarrow>
    disp_step fuse s (s\<lparr>pc := Dispatch\<rparr>)"
| inline: "pc s = Dispatch \<Longrightarrow> inflight s = 0 \<Longrightarrow> batch s = [j] \<Longrightarrow>
    disp_step fuse s (s\<lparr>pc := Drain, batch := [], completed := completed s @ [(j, job_bytes fuse j)]\<rparr>)"
| fan_out: "pc s = Dispatch \<Longrightarrow> batch s = j # js \<Longrightarrow> \<not> (inflight s = 0 \<and> js = []) \<Longrightarrow>
    disp_step fuse s (s\<lparr>inflight := inflight s + 1, pool_jobs := add_mset j (pool_jobs s), batch := js\<rparr>)"
| fanned_out: "pc s = Dispatch \<Longrightarrow> batch s = [] \<Longrightarrow>
    disp_step fuse s (s\<lparr>pc := CheckStop\<rparr>)"
| return: "pc s = CheckStop \<Longrightarrow> stopping s \<Longrightarrow> inflight s = 0 \<Longrightarrow>
    disp_step fuse s (s\<lparr>pc := Returned\<rparr>)"
| park: "pc s = CheckStop \<Longrightarrow> \<not> (stopping s \<and> inflight s = 0) \<Longrightarrow>
    disp_step fuse s (s\<lparr>pc := Park\<rparr>)"
| wake: "pc s = Park \<Longrightarrow> poll_pass s = (True, t) \<Longrightarrow>
    disp_step fuse s (t\<lparr>pc := Drain\<rparr>)"
| job_done: "pool_jobs s = add_mset j rest \<Longrightarrow>
    disp_step fuse s (s\<lparr>pool_jobs := rest, done_chan := done_chan s @ [(j, job_bytes fuse j)]\<rparr>)"

inductive env_step :: "'j dispatcher \<Rightarrow> 'j dispatcher \<Rightarrow> bool" where
  post: "env_step s (s\<lparr>avail := avail s @ [j], posted := posted s @ [j]\<rparr>)"
| kick: "env_step s (s\<lparr>kicked := True\<rparr>)"
| send_stop: "env_step s (s\<lparr>stop_sent := True\<rparr>)"

definition queue_step :: "('j \<Rightarrow> u32 outcome) \<Rightarrow> 'j dispatcher \<Rightarrow> 'j dispatcher \<Rightarrow> bool" where
  "queue_step fuse s t \<longleftrightarrow> disp_step fuse s t \<or> env_step s t"

section \<open>No descriptor is lost\<close>

definition disp_inv :: "('j \<Rightarrow> u32 outcome) \<Rightarrow> 'j dispatcher \<Rightarrow> bool" where
  "disp_inv fuse s \<longleftrightarrow>
     posted s = popped s @ avail s \<and>
     mset (popped s) = mset (batch s) + pool_jobs s + mset (map fst (done_chan s)) + mset (map fst (completed s)) \<and>
     inflight s = size (pool_jobs s) + length (done_chan s) \<and>
     (\<forall>(j, n) \<in> set (done_chan s) \<union> set (completed s). n = job_bytes fuse j) \<and>
     (pc s \<in> {CheckStop, Park, Returned} \<longrightarrow> batch s = []) \<and>
     (stopping s \<longrightarrow> stop_sent s) \<and>
     (pc s = Returned \<longrightarrow> stopping s \<and> inflight s = 0) \<and>
     (pc s = Park \<longrightarrow> stopping s \<longrightarrow> 0 < inflight s)"

text \<open>What a pass of the closure does, in one equation per field it may change.\<close>

lemma poll_pass_fields:
  assumes "poll_pass s = (p, t)"
  shows "completed t = completed s @ done_chan s" "done_chan t = []"
    "inflight t = inflight s - length (done_chan s)" "batch t = batch s" "pool_jobs t = pool_jobs s"
    "avail t = avail s" "posted t = posted s" "popped t = popped s" "pc t = pc s"
    "stop_sent t = stop_sent s" "stopping t = (stopping s \<or> stop_sent s)"
    "stopping s \<Longrightarrow> p \<Longrightarrow> done_chan s \<noteq> []"
  using assms by (auto simp: poll_pass_def Let_def split: if_splits)

lemma disp_inv_step:
  assumes "disp_inv fuse s" "disp_step fuse s t"
  shows "disp_inv fuse t"
  using assms(2)
proof cases
  case (wake u)
  note f = poll_pass_fields [OF wake(3)]
  have "posted u = popped u @ avail u" using assms(1) f by (simp add: disp_inv_def)
  moreover have "mset (popped u) = mset (batch u) + pool_jobs u + mset (map fst (done_chan u)) + mset (map fst (completed u))"
    using assms(1) f(1,2,4,5,8) by (simp add: disp_inv_def)
  moreover have "inflight u = size (pool_jobs u) + length (done_chan u)"
    using assms(1) f(2,3,5) by (simp add: disp_inv_def)
  moreover have "\<forall>(j, n) \<in> set (done_chan u) \<union> set (completed u). n = job_bytes fuse j"
    using assms(1) f(1,2) by (auto simp: disp_inv_def)
  moreover have "stopping u \<longrightarrow> stop_sent u" using assms(1) f(10,11) by (auto simp: disp_inv_def)
  ultimately show ?thesis using wake by (simp add: disp_inv_def)
qed (use assms(1) in \<open>auto simp: disp_inv_def\<close>)

lemma env_inv_step:
  assumes "disp_inv fuse s" "env_step s t"
  shows "disp_inv fuse t"
  using assms(2) by cases (use assms(1) in \<open>auto simp: disp_inv_def\<close>)

definition disp_init :: "'j dispatcher \<Rightarrow> bool" where
  "disp_init s \<longleftrightarrow> s = dispatcher_start"

interpretation dispatcher: safe_machine disp_init "queue_step fuse" "disp_inv fuse" for fuse
proof unfold_locales
  show "disp_init s \<Longrightarrow> disp_inv fuse s" for s :: "'a dispatcher"
    by (simp add: disp_init_def dispatcher_start_def disp_inv_def)
  show "disp_inv fuse s \<Longrightarrow> queue_step fuse s t \<Longrightarrow> disp_inv fuse t" for s t
    by (auto simp: queue_step_def intro: disp_inv_step env_inv_step)
qed



section \<open>A stop that was seen quiesces\<close>

fun pc_weight :: "dispatcher_pc \<Rightarrow> nat" where
  "pc_weight Drain = 3"
| "pc_weight Dispatch = 2"
| "pc_weight CheckStop = 1"
| "pc_weight _ = 0"

definition stop_weight :: "'j dispatcher \<Rightarrow> nat" where
  "stop_weight s =
     pc_weight (pc s) + 6 * length (batch s) + 5 * size (pool_jobs s) + 4 * length (done_chan s)"

lemma stopping_progress:
  assumes "disp_step fuse s t" "stopping s"
  shows "stop_weight t < stop_weight s \<and> stopping t"
  using assms(1)
proof cases
  case (wake u)
  note f = poll_pass_fields [OF wake(3)]
  have "done_chan s \<noteq> []" using f(12) assms(2) by blast
  then show ?thesis using wake(1,2) f assms(2) by (cases "done_chan s") (simp_all add: stop_weight_def)
qed (use assms(2) in \<open>auto simp: stop_weight_def\<close>)

lemma stopping_enabled:
  assumes "disp_inv fuse s" "stopping s" "pc s \<noteq> Returned"
  shows "\<exists>t. disp_step fuse s t"
proof (cases "pc s")
  case Drain
  with assms(2) show ?thesis by (intro exI) (rule disp_step.no_drain; simp)
next
  case Dispatch
  show ?thesis
  proof (cases "inflight s = 0 \<and> length (batch s) = 1")
    case True
    then obtain j where "batch s = [j]" by (auto simp: length_Suc_conv)
    with True Dispatch show ?thesis by (intro exI) (rule disp_step.inline; simp)
  next
    case False
    then show ?thesis
    proof (cases "batch s")
      case Nil
      with Dispatch show ?thesis by (intro exI) (rule disp_step.fanned_out)
    next
      case (Cons j js)
      with False Dispatch show ?thesis by (intro exI) (rule disp_step.fan_out; simp)
    qed
  qed
next
  case CheckStop
  show ?thesis
  proof (cases "inflight s = 0")
    case True
    with CheckStop assms(2) show ?thesis by (intro exI) (rule disp_step.return)
  next
    case False
    with CheckStop show ?thesis by (intro exI) (rule disp_step.park; simp)
  qed
next
  case Park
  show ?thesis
  proof (cases "done_chan s")
    case Nil
    then have "pool_jobs s \<noteq> {#}" using assms Park by (auto simp: disp_inv_def)
    then obtain j rest where "pool_jobs s = add_mset j rest" by (metis multiset_cases)
    then show ?thesis by (intro exI) (rule disp_step.job_done)
  next
    case (Cons d ds)
    then have "poll_pass s = (True, snd (poll_pass s))" using assms(2) by (simp add: poll_pass_def Let_def)
    with Park show ?thesis by (intro exI) (rule disp_step.wake)
  qed
qed (use assms in simp)

text \<open>
  C6. Stopping a queue ends. Once the dispatcher has seen the stop, its steps and the pool's are at
  most as many as the weight of the state, whatever the guest does meanwhile, and none of them pops
  a request; while the queue is not handed back one of them can be taken; and when it is, everything
  popped has been completed.
\<close>

theorem offload_stop_quiesces:
  assumes "reach disp_init (queue_step fuse) s" "stopping s"
  shows "(\<forall>t. disp_step fuse s t \<longrightarrow> stop_weight t < stop_weight s \<and> stopping t \<and> popped t = popped s) \<and>
    (\<forall>t. env_step s t \<longrightarrow> stop_weight t = stop_weight s \<and> stopping t \<and> popped t = popped s) \<and>
    (pc s \<noteq> Returned \<longrightarrow> (\<exists>t. disp_step fuse s t)) \<and>
    (pc s = Returned \<longrightarrow> mset (map fst (completed s)) = mset (popped s))"
proof (intro conjI allI impI)
  have inv: "disp_inv fuse s" by (rule dispatcher.reach_inv [OF assms(1)])
  show "stop_weight t < stop_weight s" "stopping t" if "disp_step fuse s t" for t
    using stopping_progress [OF that assms(2)] by auto
  show "popped t = popped s" if "disp_step fuse s t" for t
    using that assms(2) by (cases rule: disp_step.cases) (auto dest: poll_pass_fields(8))
  show "stop_weight t = stop_weight s" "stopping t" "popped t = popped s" if "env_step s t" for t
    using that assms(2) by (cases rule: env_step.cases; simp add: stop_weight_def)+
  show "pc s \<noteq> Returned \<Longrightarrow> \<exists>t. disp_step fuse s t" by (rule stopping_enabled [OF inv assms(2)])
  show "pc s = Returned \<Longrightarrow> mset (map fst (completed s)) = mset (popped s)"
    using inv by (auto simp: disp_inv_def)
qed

text \<open>An idle dispatcher told to stop: it parks, sees the signal, and goes round once more.\<close>

lemma dispatcher_stops_once:
  "reach disp_init (queue_step fuse) (dispatcher_start\<lparr>stop_sent := True, stopping := True\<rparr>)"
proof -
  let ?R = "reach disp_init (queue_step fuse)" and ?s = "dispatcher_start\<lparr>stop_sent := True\<rparr>"
  note d = dispatcher_start_def
  have "?R dispatcher_start" by (rule reach_init) (simp add: disp_init_def)
  then have "?R ?s" by (rule reach_step) (simp add: queue_step_def env_step.send_stop)
  then have "?R (?s\<lparr>pc := Dispatch\<rparr>)"
    by (rule reach_step) (use disp_step.drained [of ?s fuse] in \<open>simp add: queue_step_def d\<close>)
  then have "?R (?s\<lparr>pc := CheckStop\<rparr>)"
    by (rule reach_step) (use disp_step.fanned_out [of "?s\<lparr>pc := Dispatch\<rparr>" fuse] in \<open>simp add: queue_step_def d\<close>)
  then have "?R (?s\<lparr>pc := Park\<rparr>)"
    by (rule reach_step) (use disp_step.park [of "?s\<lparr>pc := CheckStop\<rparr>" fuse] in \<open>simp add: queue_step_def d\<close>)
  moreover have "poll_pass (?s\<lparr>pc := Park\<rparr>) = (True, ?s\<lparr>pc := Park, stopping := True\<rparr>)"
    by (simp add: poll_pass_def d)
  then have "queue_step fuse (?s\<lparr>pc := Park\<rparr>) (?s\<lparr>pc := Park, stopping := True\<rparr>\<lparr>pc := Drain\<rparr>)"
    unfolding queue_step_def by (intro disjI1 disp_step.wake) (simp_all add: d)
  ultimately have "?R (?s\<lparr>pc := Park, stopping := True\<rparr>\<lparr>pc := Drain\<rparr>)" by (rule reach_step)
  then show ?thesis by (simp add: d)
qed

theorem offload_stop_quiesces_witness:
  "\<exists>t. disp_step (\<lambda>_. Return 0) (dispatcher_start\<lparr>stop_sent := True, stopping := True\<rparr> :: nat dispatcher) t"
  using offload_stop_quiesces [OF dispatcher_stops_once [of "\<lambda>_ :: nat. Return 0"]] by (simp add: dispatcher_start_def)

section \<open>A stop that is not seen\<close>

text \<open>One request that arrives alone is popped, run inline and completed, and the loop starts over.\<close>

lemma lone_request_round:
  assumes "reach disp_init (queue_step fuse) s" "pc s = Drain" "\<not> stopping s" "\<not> queue_failed s"
    "inflight s = 0" "batch s = []" "avail s = []"
  shows "\<exists>t. reach disp_init (queue_step fuse) t \<and> pc t = Drain \<and> \<not> stopping t \<and> \<not> queue_failed t \<and>
    inflight t = 0 \<and> batch t = [] \<and> avail t = [] \<and> stop_sent t = stop_sent s \<and>
    completed t = completed s @ [(j, job_bytes fuse j)]"
proof -
  let ?R = "reach disp_init (queue_step fuse)"
  let ?s1 = "s\<lparr>avail := avail s @ [j], posted := posted s @ [j]\<rparr>"
  let ?s2 = "?s1\<lparr>avail := [], batch := batch ?s1 @ [j], popped := popped ?s1 @ [j]\<rparr>"
  let ?s3 = "?s2\<lparr>pc := Dispatch\<rparr>"
  let ?s4 = "?s3\<lparr>pc := Drain, batch := [], completed := completed ?s3 @ [(j, job_bytes fuse j)]\<rparr>"
  have "?R ?s1" using assms(1) by (rule reach_step) (simp add: queue_step_def env_step.post)
  moreover have "queue_step fuse ?s1 ?s2"
    unfolding queue_step_def by (intro disjI1 disp_step.pop) (simp_all add: assms)
  ultimately have "?R ?s2" by (rule reach_step)
  moreover have "queue_step fuse ?s2 ?s3"
    unfolding queue_step_def by (intro disjI1 disp_step.drained) (simp_all add: assms)
  ultimately have "?R ?s3" by (rule reach_step)
  moreover have "queue_step fuse ?s3 ?s4"
    unfolding queue_step_def by (intro disjI1 disp_step.inline) (simp_all add: assms)
  ultimately have "?R ?s4" by (rule reach_step)
  then show ?thesis using assms by (intro exI [of _ ?s4]) simp
qed


section \<open>Config space and queue table\<close>

lemma le_bytes_roundtrip: "to_le_bytes (from_le_bytes [a, b, c, d]) = [a, b, c, d]"
  by (auto simp: to_le_bytes_def intro!: bit_word_eqI)
    (auto simp: bit_simps dest: bit_imp_le_length)

lemma as_bytes_config: "length (device_config tag) = CONFIG_LEN"
  "drop TAG_LEN (device_config tag) = [1, 0, 0, 0]"
  "take TAG_LEN (device_config tag) = take TAG_LEN (as_bytes tag @ replicate TAG_LEN 0)"
  by (auto simp: device_config_def Let_def CONFIG_LEN_def TAG_LEN_def to_le_bytes_def min_def)

text \<open>
  What the guest reads of the config space. At every offset the driver can use the four bytes of
  the register are those of the tag, cut at 36 bytes or padded with zeros; the register at 36 is the
  number of request queues, one; a read that would pass the end gives zero.
\<close>

lemma config_space_reads:
  "(unat off \<le> 32 \<longrightarrow> to_le_bytes (read_registers_u32 (device_config tag) off) =
      take 4 (drop (unat off) (take 36 (as_bytes tag @ replicate 36 0)))) \<and>
   (unat off = 36 \<longrightarrow> read_registers_u32 (device_config tag) off = 1) \<and>
   (36 < unat off \<longrightarrow> read_registers_u32 (device_config tag) off = 0)"
proof (intro conjI impI)
  let ?c = "device_config tag"
  have len: "length ?c = 40" using as_bytes_config(1) [of tag] by (simp add: CONFIG_LEN_def TAG_LEN_def)
  show "36 < unat off \<Longrightarrow> read_registers_u32 ?c off = 0"
    by (simp add: read_registers_u32_def slice_get_def len)
  show "unat off = 36 \<Longrightarrow> read_registers_u32 ?c off = 1"
    using as_bytes_config(2) [of tag] by (simp add: read_registers_u32_def slice_get_def len TAG_LEN_def)
  assume le: "unat off \<le> 32"
  have "\<exists>a b c d. xs = [a, b, c, d]" if "length xs = 4" for xs :: "u8 list"
    using that by (auto simp: length_Suc_conv numeral_eq_Suc)
  moreover have "length (take 4 (drop (unat off) ?c)) = 4" using le len by simp
  ultimately obtain a b c d where abcd: "take 4 (drop (unat off) ?c) = [a, b, c, d]" by blast
  then have "to_le_bytes (read_registers_u32 ?c off) = take 4 (drop (unat off) ?c)"
    using le len by (simp add: read_registers_u32_def slice_get_def le_bytes_roundtrip del: from_le_bytes.simps)
  also have "\<dots> = take 4 (drop (unat off) (take 36 ?c))"
    using le by (simp add: drop_take min_def)
  finally show "to_le_bytes (read_registers_u32 ?c off) =
      take 4 (drop (unat off) (take 36 (as_bytes tag @ replicate 36 0)))"
    using as_bytes_config(3) [of tag] by (simp add: TAG_LEN_def)
qed

lemma config_space_reads_example:
  "to_le_bytes (read_registers_u32 (device_config (lit ''work'')) 0) = [119, 111, 114, 107] \<and>
   read_registers_u32 (device_config (lit ''work'')) 36 = 1 \<and>
   read_registers_u32 (device_config (lit ''work'')) 37 = 0"
proof -
  have "as_bytes (lit ''work'') = [119, 111, 114, 107]"
    by (simp add: as_bytes_def lit_def utf8_encode_def utf8_encode_char_def)
  then show ?thesis
    using config_space_reads [of 0 "lit ''work''"] config_space_reads [of 36 "lit ''work''"]
      config_space_reads [of 37 "lit ''work''"] by simp
qed

lemma set_flatten: "set (List.map_filter id xs) = {x. Some x \<in> set xs}"
  by (induction xs) (auto simp: List.map_filter_simps split: option.splits)

text \<open>
  The queue table. Starting a queue fills its slot, growing the table as needed, and leaves every
  other queue as it was; a failed start changes nothing; stopping takes the worker out once and is
  idempotent, also for a queue that was never started; a reset stops exactly the running workers
  and leaves every slot empty.
\<close>

lemma queue_table:
  "snd (stop_queue idx (snd (stop_queue idx dev))) = snd (stop_queue idx dev) \<and>
   fst (stop_queue idx (snd (stop_queue idx dev))) = None \<and>
   fst (stop_queue idx (snd (start_queue idx True True w dev))) = Some w \<and>
   (j \<noteq> idx \<longrightarrow> fst (stop_queue j (snd (start_queue idx True True w dev))) = fst (stop_queue j dev)) \<and>
   (\<not> (wait_ok \<and> queue_ok) \<longrightarrow> snd (start_queue idx wait_ok queue_ok w dev) = dev) \<and>
   fst (stop_queue j (snd (reset dev))) = None \<and>
   set (fst (reset dev)) = {x. \<exists>i < length (queues dev). queues dev ! i = Some x}"
proof (intro conjI impI)
  show "snd (stop_queue idx (snd (stop_queue idx dev))) = snd (stop_queue idx dev)"
    "fst (stop_queue idx (snd (stop_queue idx dev))) = None"
    "fst (stop_queue j (snd (reset dev))) = None"
    by (auto simp: stop_queue_def reset_def Let_def)
  show "fst (stop_queue idx (snd (start_queue idx True True w dev))) = Some w"
    by (auto simp: stop_queue_def start_queue_def resize_with_def Let_def)
  show "fst (stop_queue j (snd (start_queue idx True True w dev))) = fst (stop_queue j dev)" if "j \<noteq> idx"
  proof -
    have "unat j \<noteq> unat idx" using that by (simp add: word_unat_eq_iff)
    then show ?thesis
      by (auto simp: stop_queue_def start_queue_def resize_with_def Let_def nth_append)
  qed
  show "\<not> (wait_ok \<and> queue_ok) \<Longrightarrow> snd (start_queue idx wait_ok queue_ok w dev) = dev"
    by (auto simp: start_queue_def)
  show "set (fst (reset dev)) = {x. \<exists>i < length (queues dev). queues dev ! i = Some x}"
    by (auto simp: reset_def set_flatten in_set_conv_nth)
qed

text \<open>
  The registers the device announces are those it has, and the queues it announces fit its table: a
  new device has none started.
\<close>

lemma announced_registers:
  "unat (device_register_length (traits (OffloadVirtioFsDevice_new tag n))) = length (config (OffloadVirtioFsDevice_new tag n))"
  "fst (stop_queue i (OffloadVirtioFsDevice_new tag n)) = None"
  "read_registers_u32 (config (write_registers_u32 off val dev)) r = read_registers_u32 (config dev) r"
  by (simp_all add: traits_def OffloadVirtioFsDevice_new_def as_bytes_config CONFIG_LEN_def TAG_LEN_def stop_queue_def
      write_registers_u32_def)

lemma queue_table_example:
  "fst (stop_queue 1 (snd (start_queue 3 True True (7 :: nat) ((OffloadVirtioFsDevice_new (lit ''ws'') 2)\<lparr>queues := [Some 5, Some 6]\<rparr>)))) = Some 6"
  using queue_table [of 3 "(OffloadVirtioFsDevice_new (lit ''ws'') 2)\<lparr>queues := [Some 5, Some 6]\<rparr>" "7 :: nat" 1]
  by (simp add: stop_queue_def)



end
