(* ===== verification/Offload_Pool.thy ===== *)
theory Offload_Pool
  imports Offload
begin

text \<open>
  The queues of an offload device on their shared worker pool: one dispatcher per queue
  (\<open>Dispatcher::run\<close> of \<open>virtio-hdv/src/offload.rs\<close>), all of them with a clone of the one pool of
  \<open>pool.rs\<close>. The composition runs the dispatchers of \<open>Offload\<close> against the threads, the queue and
  the condition variable of \<open>Worker_Pool\<close>; a job is a request with the number of its queue, and its
  closure sends the completion back to that queue. Shown: every queue sees the pool as the bag of
  jobs its own theory assumes, so what holds of one dispatcher holds of each of them here; and a
  queue that is stopping never waits for a pool that cannot move.
\<close>

section \<open>The composed system\<close>

type_synonym 'j device = "(nat \<Rightarrow> 'j dispatcher) \<times> (nat \<times> 'j) pool"

text \<open>The closure of a job contains the panic of its FUSE call, so the pool never sees one.\<close>

abbreviation job_closure :: "nat \<times> 'j \<Rightarrow> unit outcome" where
  "job_closure \<equiv> \<lambda>_. Return ()"

text \<open>The jobs that have ended send their completions, each to its queue.\<close>

fun send_done :: "('j \<Rightarrow> u32 outcome) \<Rightarrow> (nat \<times> 'j) list \<Rightarrow> (nat \<Rightarrow> 'j dispatcher) \<Rightarrow> (nat \<Rightarrow> 'j dispatcher)" where
  "send_done fuse [] ds = ds"
| "send_done fuse ((i, j) # rs) ds =
     send_done fuse rs (ds(i := (ds i)\<lparr>done_chan := done_chan (ds i) @ [(j, job_bytes fuse j)]\<rparr>))"

text \<open>A step of the dispatcher of queue \<open>i\<close>, alone or with a submission, and a step of the pool.\<close>

inductive device_work :: "('j \<Rightarrow> u32 outcome) \<Rightarrow> nat \<Rightarrow> 'j device \<Rightarrow> 'j device \<Rightarrow> bool" for fuse i where
  Local: "disp_step fuse (ds i) d \<Longrightarrow> pool_jobs d = pool_jobs (ds i) \<Longrightarrow>
    device_work fuse i (ds, p) (ds(i := d), p)"
| Submit: "pc (ds i) = Dispatch \<Longrightarrow> batch (ds i) = j # js \<Longrightarrow> \<not> (inflight (ds i) = 0 \<and> js = []) \<Longrightarrow>
    pool_step job_closure p q \<Longrightarrow> submitted q = submitted p @ [(i, j)] \<Longrightarrow> ran q = ran p @ rs \<Longrightarrow>
    device_work fuse i (ds, p)
      (send_done fuse rs (ds(i := (ds i)\<lparr>inflight := inflight (ds i) + 1, batch := js\<rparr>)), q)"
| Pool: "pool_step job_closure p q \<Longrightarrow> submitted q = submitted p \<Longrightarrow> shutdown q = shutdown p \<Longrightarrow>
    ran q = ran p @ rs \<Longrightarrow> device_work fuse i (ds, p) (send_done fuse rs ds, q)"

inductive device_step :: "('j \<Rightarrow> u32 outcome) \<Rightarrow> 'j device \<Rightarrow> 'j device \<Rightarrow> bool" for fuse where
  Work: "device_work fuse i s t \<Longrightarrow> device_step fuse s t"
| Env: "env_step (ds i) d \<Longrightarrow> device_step fuse (ds, p) (ds(i := d), p)"

definition device_init :: "'j device \<Rightarrow> bool" where
  "device_init s \<longleftrightarrow> (\<forall>i. fst s i = dispatcher_start) \<and> pool_init (snd s)"

section \<open>The view of one queue\<close>

definition held :: "(nat \<times> 'j) pool \<Rightarrow> (nat \<times> 'j) multiset" where
  "held p = mset (jobs p) + in_flight (workers p)"

definition jobs_of :: "nat \<Rightarrow> (nat \<times> 'j) multiset \<Rightarrow> 'j multiset" where
  "jobs_of i M = image_mset snd (filter_mset (\<lambda>x. fst x = i) M)"

definition view :: "nat \<Rightarrow> 'j device \<Rightarrow> 'j dispatcher" where
  "view i s = (fst s i)\<lparr>pool_jobs := jobs_of i (held (snd s))\<rparr>"

definition device_inv :: "'j device \<Rightarrow> bool" where
  "device_inv s \<longleftrightarrow> (\<forall>i. pool_jobs (fst s i) = {#}) \<and> pool_inv (snd s) \<and> \<not> shutdown (snd s)"

text \<open>What a step of the pool does to the jobs it holds.\<close>

lemma pool_step_held:
  assumes "pool_step body p q" "pool_inv p"
  shows "\<exists>new rs. submitted q = submitted p @ new \<and> ran q = ran p @ rs \<and> held p + mset new = held q + mset rs \<and>
    length new \<le> 1 \<and> length rs \<le> 1 \<and> (new = [] \<or> shutdown q = shutdown p)"
proof -
  have inv: "pool_inv q" using assms pool_inv_step by blast
  obtain new rs where nr: "submitted q = submitted p @ new" "ran q = ran p @ rs" "length new \<le> 1" "length rs \<le> 1"
    "new = [] \<or> shutdown q = shutdown p"
    using assms(1) by cases auto
  moreover have "mset (submitted p) = held p + mset (ran p)" "mset (submitted q) = held q + mset (ran q)"
    using assms(2) inv by (simp_all add: pool_inv_def held_def)
  ultimately have "held p + mset new = held q + mset rs" by simp
  with nr show ?thesis by blast
qed

section \<open>Simulation\<close>

lemma pool_jobs_last:
  "d\<lparr>pool_jobs := M, pc := a\<rparr> = d\<lparr>pc := a, pool_jobs := M\<rparr>"
  "d\<lparr>pool_jobs := M, batch := b\<rparr> = d\<lparr>batch := b, pool_jobs := M\<rparr>"
  "d\<lparr>pool_jobs := M, inflight := n\<rparr> = d\<lparr>inflight := n, pool_jobs := M\<rparr>"
  "d\<lparr>pool_jobs := M, stopping := x\<rparr> = d\<lparr>stopping := x, pool_jobs := M\<rparr>"
  "d\<lparr>pool_jobs := M, queue_failed := x\<rparr> = d\<lparr>queue_failed := x, pool_jobs := M\<rparr>"
  "d\<lparr>pool_jobs := M, avail := b\<rparr> = d\<lparr>avail := b, pool_jobs := M\<rparr>"
  "d\<lparr>pool_jobs := M, kicked := x\<rparr> = d\<lparr>kicked := x, pool_jobs := M\<rparr>"
  "d\<lparr>pool_jobs := M, stop_sent := x\<rparr> = d\<lparr>stop_sent := x, pool_jobs := M\<rparr>"
  "d\<lparr>pool_jobs := M, done_chan := c\<rparr> = d\<lparr>done_chan := c, pool_jobs := M\<rparr>"
  "d\<lparr>pool_jobs := M, completed := c\<rparr> = d\<lparr>completed := c, pool_jobs := M\<rparr>"
  "d\<lparr>pool_jobs := M, posted := b\<rparr> = d\<lparr>posted := b, pool_jobs := M\<rparr>"
  "d\<lparr>pool_jobs := M, popped := b\<rparr> = d\<lparr>popped := b, pool_jobs := M\<rparr>"
  by (cases d; simp)+

lemma poll_pass_frame: "poll_pass d = (b, t) \<Longrightarrow> poll_pass (d\<lparr>pool_jobs := M\<rparr>) = (b, t\<lparr>pool_jobs := M\<rparr>)"
  by (auto simp: poll_pass_def Let_def pool_jobs_last split: if_splits)

lemma disp_step_frame:
  assumes "disp_step fuse d d'" "pool_jobs d' = pool_jobs d"
  shows "disp_step fuse (d\<lparr>pool_jobs := M\<rparr>) (d'\<lparr>pool_jobs := M\<rparr>)"
  using assms(1)
proof cases
  case (pop j js)
  then show ?thesis using disp_step.pop [of "d\<lparr>pool_jobs := M\<rparr>" j js fuse] by (simp add: pool_jobs_last)
next
  case drained
  then show ?thesis using disp_step.drained [of "d\<lparr>pool_jobs := M\<rparr>" fuse] by (simp add: pool_jobs_last)
next
  case queue_error
  then show ?thesis using disp_step.queue_error [of "d\<lparr>pool_jobs := M\<rparr>" fuse] by (simp add: pool_jobs_last)
next
  case no_drain
  then show ?thesis using disp_step.no_drain [of "d\<lparr>pool_jobs := M\<rparr>" fuse] by (simp add: pool_jobs_last)
next
  case (inline j)
  then show ?thesis using disp_step.inline [of "d\<lparr>pool_jobs := M\<rparr>" j fuse] by (simp add: pool_jobs_last)
next
  case fanned_out
  then show ?thesis using disp_step.fanned_out [of "d\<lparr>pool_jobs := M\<rparr>" fuse] by (simp add: pool_jobs_last)
next
  case return
  then show ?thesis using disp_step.return [of "d\<lparr>pool_jobs := M\<rparr>" fuse] by (simp add: pool_jobs_last)
next
  case park
  then show ?thesis using disp_step.park [of "d\<lparr>pool_jobs := M\<rparr>" fuse] by (simp add: pool_jobs_last)
next
  case (wake t)
  then show ?thesis using disp_step.wake [of "d\<lparr>pool_jobs := M\<rparr>" "t\<lparr>pool_jobs := M\<rparr>" fuse] poll_pass_frame [of d True t M] by (simp add: pool_jobs_last)
qed (use assms(2) in simp_all)

lemma env_step_frame: "env_step d d' \<Longrightarrow> env_step (d\<lparr>pool_jobs := M\<rparr>) (d'\<lparr>pool_jobs := M\<rparr>)"
proof (induction rule: env_step.induct)
  case (post s j)
  then show ?case using env_step.post [of "s\<lparr>pool_jobs := M\<rparr>" j] by (simp add: pool_jobs_last)
next
  case (kick s)
  then show ?case using env_step.kick [of "s\<lparr>pool_jobs := M\<rparr>"] by (simp add: pool_jobs_last)
next
  case (send_stop s)
  then show ?case using env_step.send_stop [of "s\<lparr>pool_jobs := M\<rparr>"] by (simp add: pool_jobs_last)
qed

lemma jobs_of_add [simp]:
  "jobs_of i (add_mset (k, j) M) = (if k = i then add_mset j (jobs_of i M) else jobs_of i M)"
  "jobs_of i {#} = {#}"
  by (simp_all add: jobs_of_def)

lemma send_done_pool_jobs [simp]: "pool_jobs (send_done fuse rs ds i) = pool_jobs (ds i)"
  by (induction rs arbitrary: ds) auto

lemma send_done_steps:
  "(disp_step fuse)\<^sup>*\<^sup>* ((ds i)\<lparr>pool_jobs := jobs_of i (N + mset rs)\<rparr>) ((send_done fuse rs ds i)\<lparr>pool_jobs := jobs_of i N\<rparr>)"
proof (induction rs arbitrary: ds)
  case (Cons r rs)
  obtain k j where r: "r = (k, j)" by (cases r)
  let ?ds = "ds(k := (ds k)\<lparr>done_chan := done_chan (ds k) @ [(j, job_bytes fuse j)]\<rparr>)"
  have "(disp_step fuse)\<^sup>*\<^sup>* ((ds i)\<lparr>pool_jobs := jobs_of i (N + mset (r # rs))\<rparr>) ((?ds i)\<lparr>pool_jobs := jobs_of i (N + mset rs)\<rparr>)"
  proof (cases "k = i")
    case True
    have "disp_step fuse ((ds i)\<lparr>pool_jobs := add_mset j (jobs_of i (N + mset rs))\<rparr>)
        ((ds i)\<lparr>done_chan := done_chan (ds i) @ [(j, job_bytes fuse j)], pool_jobs := jobs_of i (N + mset rs)\<rparr>)"
      using disp_step.job_done [of "(ds i)\<lparr>pool_jobs := add_mset j (jobs_of i (N + mset rs))\<rparr>" j "jobs_of i (N + mset rs)" fuse]
      by (simp add: pool_jobs_last)
    then show ?thesis using True r by (auto intro!: r_into_rtranclp)
  qed (simp add: r)
  also have "(disp_step fuse)\<^sup>*\<^sup>* ((?ds i)\<lparr>pool_jobs := jobs_of i (N + mset rs)\<rparr>)
      ((send_done fuse rs ?ds i)\<lparr>pool_jobs := jobs_of i N\<rparr>)" by (rule Cons.IH)
  finally show ?case by (simp add: r)
qed simp

lemma device_work_inv:
  assumes "device_inv s" "device_work fuse i s t"
  shows "device_inv t"
  using assms(2)
proof cases
  case (Submit ds j js p q rs)
  then have "pool_inv q" using assms(1) pool_inv_step by (auto simp: device_inv_def)
  moreover have "shutdown q = shutdown p"
    using pool_step_held [OF Submit(6)] assms(1) Submit(1,7) by (auto simp: device_inv_def)
  ultimately show ?thesis using Submit assms(1) by (auto simp: device_inv_def)
next
  case (Pool p q rs ds)
  then have "pool_inv q" using assms(1) pool_inv_step by (auto simp: device_inv_def)
  then show ?thesis using Pool assms(1) by (auto simp: device_inv_def)
next
  case (Local ds d p)
  then show ?thesis using assms(1) by (auto simp: device_inv_def)
qed

lemma device_work_simulates:
  assumes "device_inv s" "device_work fuse k s t"
  shows "(disp_step fuse)\<^sup>*\<^sup>* (view i s) (view i t)"
  using assms(2)
proof cases
  case (Local ds d p)
  then show ?thesis using disp_step_frame [OF Local(3,4)] by (auto simp: view_def intro!: r_into_rtranclp)
next
  case (Pool p q rs ds)
  obtain rs' where rs: "ran q = ran p @ rs'" "held p = held q + mset rs'"
    using pool_step_held [OF Pool(3)] assms(1) Pool(1,4) by (auto simp: device_inv_def)
  then have "rs' = rs" using Pool(6) by simp
  then show ?thesis
    using send_done_steps [where ds = ds and i = i and N = "held q" and rs = rs and fuse = fuse] rs(2) Pool(1,2)
    by (simp add: view_def)
next
  case (Submit ds j js p q rs)
  let ?ds = "ds(k := (ds k)\<lparr>inflight := inflight (ds k) + 1, batch := js\<rparr>)"
  obtain rs' where rs: "ran q = ran p @ rs'" "add_mset (k, j) (held p) = held q + mset rs'"
    using pool_step_held [OF Submit(6)] assms(1) Submit(1,7) by (auto simp: device_inv_def)
  then have "rs' = rs" using Submit(8) by simp
  have "(disp_step fuse)\<^sup>*\<^sup>* (view i s) ((?ds i)\<lparr>pool_jobs := jobs_of i (add_mset (k, j) (held p))\<rparr>)"
  proof (cases "k = i")
    case True
    have "disp_step fuse ((ds i)\<lparr>pool_jobs := jobs_of i (held p)\<rparr>)
        ((ds i)\<lparr>inflight := inflight (ds i) + 1, batch := js, pool_jobs := add_mset j (jobs_of i (held p))\<rparr>)"
      using disp_step.fan_out [of "(ds i)\<lparr>pool_jobs := jobs_of i (held p)\<rparr>" j js fuse] Submit(3-5) True
      by (simp add: pool_jobs_last)
    then show ?thesis using True Submit(1) by (auto simp: view_def intro!: r_into_rtranclp)
  qed (simp add: view_def Submit(1))
  also have "(disp_step fuse)\<^sup>*\<^sup>* \<dots> (view i t)"
    using send_done_steps [where ds = ?ds and i = i and N = "held q" and rs = rs and fuse = fuse] rs(2) \<open>rs' = rs\<close> Submit(2)
    by (simp add: view_def)
  finally show ?thesis .
qed

lemma device_step_inv:
  assumes "device_inv s" "device_step fuse s t"
  shows "device_inv t"
  using assms(2)
proof cases
  case (Env ds i d p)
  moreover have "pool_jobs d = pool_jobs (ds i)" using Env(3) by cases auto
  ultimately show ?thesis using assms(1) by (auto simp: device_inv_def)
qed (rule device_work_inv [OF assms(1)])

lemma device_step_simulates:
  assumes "device_inv s" "device_step fuse s t"
  shows "(queue_step fuse)\<^sup>*\<^sup>* (view i s) (view i t)"
  using assms(2)
proof cases
  case (Env ds k d p)
  then show ?thesis using env_step_frame [OF Env(3)] by (auto simp: view_def queue_step_def intro!: r_into_rtranclp)
next
  case (Work k)
  have "disp_step fuse \<le> queue_step fuse" by (auto simp: queue_step_def)
  then show ?thesis using device_work_simulates [OF assms(1) Work] by (metis predicate2D rtranclp_mono)
qed

interpretation device: safe_machine device_init "device_step fuse" device_inv for fuse
proof unfold_locales
  fix s :: "'a device"
  show "device_init s \<Longrightarrow> device_inv s"
  proof -
    assume s: "device_init s"
    then have "pool_inv (snd s)" by (intro pool.init_inv) (simp add: device_init_def)
    moreover have "\<not> shutdown (snd s)" using s by (auto simp: device_init_def pool_init_def WorkerPool_new_def)
    ultimately show "device_inv s" using s by (simp add: device_init_def device_inv_def dispatcher_start_def)
  qed
next
  show "device_inv s \<Longrightarrow> device_step fuse s t \<Longrightarrow> device_inv t" for fuse and s t :: "'a device"
    by (rule device_step_inv)
qed

lemma view_reach:
  assumes "reach device_init (device_step fuse) s"
  shows "reach disp_init (queue_step fuse) (view i s)"
  using assms
proof (induction rule: reach.induct)
  case (reach_init s)
  then have "view i s = dispatcher_start"
    by (auto simp: device_init_def view_def dispatcher_start_def pool_init_def WorkerPool_new_def held_def in_flight_idle)
  then show ?case by (intro reach.reach_init) (simp add: disp_init_def)
next
  case (reach_step s t)
  from reach_rtranclp [OF device_step_simulates [OF device.reach_inv [OF reach_step.hyps(1)] reach_step.hyps(2)] reach_step.IH]
  show ?case .
qed

section \<open>A stopping queue never waits in vain\<close>

lemma pool_moves:
  assumes "pool_inv p" "\<not> shutdown p" "held p \<noteq> {#}"
  shows "\<exists>q rs. pool_step job_closure p q \<and> submitted q = submitted p \<and> shutdown q = shutdown p \<and> ran q = ran p @ rs"
proof (cases "\<exists>i j. i < length (workers p) \<and> workers p ! i = Running j")
  case True
  then obtain i j where "i < length (workers p)" "workers p ! i = Running j" by blast
  from pool_step.finish [OF this, of job_closure] show ?thesis by (fastforce simp: ran_job_def)
next
  case False
  then have "running x = {#}" if "x \<in> set (workers p)" for x
    using that by (cases x) (auto simp: in_set_conv_nth)
  then have "map running (workers p) = map (\<lambda>_. 0) (workers p)" by simp
  then have none: "in_flight (workers p) = {#}" unfolding in_flight_def by (simp only: sum_list_0)
  then have "jobs p \<noteq> []" using assms(3) by (auto simp: held_def)
  then obtain j js where jobs: "jobs p = j # js" by (cases "jobs p") auto
  have ne: "workers p \<noteq> []" using assms(1) jobs by (auto simp: pool_inv_def)
  show ?thesis
  proof (cases "\<exists>i < length (workers p). workers p ! i = Ready")
    case True
    then obtain i where "i < length (workers p)" "workers p ! i = Ready" by blast
    from pool_step.take [OF this jobs, of job_closure] show ?thesis by fastforce
  next
    case no_ready: False
    have "workers p ! 0 \<in> set (workers p)" using ne by simp
    moreover have "Exited \<notin> set (workers p)" using assms(1,2) by (simp add: pool_inv_def)
    ultimately have "workers p ! 0 \<noteq> Exited" by metis
    moreover have "workers p ! 0 \<noteq> Ready" "\<nexists>j. workers p ! 0 = Running j" using no_ready False ne by auto
    ultimately have w: "0 < length (workers p)" "workers p ! 0 = Waiting" using ne by (cases "workers p ! 0"; auto)+
    then have "Waiting \<in> set (workers p)" using nth_mem by metis
    moreover have "ready_count (workers p) = 0"
      using no_ready unfolding ready_count_def by (auto simp: in_set_conv_nth)
    ultimately have "notifies p \<noteq> 0" using assms(1,2) jobs by (auto simp: pool_inv_def)
    then obtain n where "notifies p = Suc n" by (cases "notifies p") auto
    from pool_step.notify_wakes [OF this w, of job_closure] show ?thesis by fastforce
  qed
qed

lemma stopping_steps:
  assumes "(disp_step fuse)\<^sup>*\<^sup>* s t" "stopping s"
  shows "t = s \<or> stop_weight t < stop_weight s"
proof -
  from assms(1) have "stopping t \<and> (t = s \<or> stop_weight t < stop_weight s)"
  proof (induction rule: rtranclp_induct)
    case (step y z)
    then show ?case using stopping_progress [OF step(2)] by auto
  qed (use assms(2) in simp)
  then show ?thesis by blast
qed

lemma pool_accepts:
  assumes "\<not> shutdown p"
  shows "\<exists>q rs. pool_step job_closure p q \<and> submitted q = submitted p @ [x] \<and> ran q = ran p @ rs"
proof (cases "workers p = []")
  case True
  from pool_step.submit_inline [OF this assms, of job_closure x] show ?thesis by (fastforce simp: ran_job_def)
next
  case False
  from pool_step.submit_push [OF this assms, of job_closure x] show ?thesis by fastforce
qed

lemma stopping_device_moves:
  assumes inv: "device_inv (ds, p)" and dinv: "disp_inv fuse (view i (ds, p))"
    and s: "stopping (ds i)" "pc (ds i) \<noteq> Returned"
  shows "\<exists>t. device_work fuse i (ds, p) t"
proof -
  have p: "pool_inv p" "\<not> shutdown p" and empty: "pool_jobs (ds i) = {#}" using inv by (auto simp: device_inv_def)
  obtain d where d: "disp_step fuse (view i (ds, p)) d"
    using stopping_enabled [OF dinv] s by (auto simp: view_def)
  show ?thesis
  proof (cases "pool_jobs d = pool_jobs (view i (ds, p))")
    case True
    moreover have "(ds i)\<lparr>pool_jobs := {#}\<rparr> = ds i" using empty by (cases "ds i") simp
    ultimately have "disp_step fuse (ds i) (d\<lparr>pool_jobs := {#}\<rparr>)"
      using disp_step_frame [OF d, of "{#}"] by (simp add: view_def)
    then show ?thesis using device_work.Local [of fuse ds i "d\<lparr>pool_jobs := {#}\<rparr>" p] empty by auto
  next
    case False
    have "held p \<noteq> {#} \<or> (\<exists>j js. pc (ds i) = Dispatch \<and> batch (ds i) = j # js \<and> \<not> (inflight (ds i) = 0 \<and> js = []))"
      using d
    proof cases
      case (job_done j rest)
      then show ?thesis by (auto simp: view_def jobs_of_def)
    qed (use False in \<open>auto simp: view_def dest: poll_pass_fields(5)\<close>)
    then show ?thesis
    proof
      assume "held p \<noteq> {#}"
      from pool_moves [OF p this] obtain q rs where "pool_step job_closure p q" "submitted q = submitted p"
        "shutdown q = shutdown p" "ran q = ran p @ rs" by blast
      from device_work.Pool [OF this] show ?thesis by blast
    next
      assume "\<exists>j js. pc (ds i) = Dispatch \<and> batch (ds i) = j # js \<and> \<not> (inflight (ds i) = 0 \<and> js = [])"
      then obtain j js where j: "pc (ds i) = Dispatch" "batch (ds i) = j # js" "\<not> (inflight (ds i) = 0 \<and> js = [])" by blast
      obtain q rs where "pool_step job_closure p q" "submitted q = submitted p @ [(i, j)]" "ran q = ran p @ rs"
        using pool_accepts [OF p(2), of "(i, j)"] by blast
      from device_work.Submit [of ds i, OF j this] show ?thesis by blast
    qed
  qed
qed

text \<open>
  C7. Sharing the pool is transparent to a queue. However the dispatchers, the pool's threads with
  their wakeups, the guest and the transport interleave, each queue goes through states its dispatcher
  could go through with a pool of its own: the jobs it has there are those of its number that are
  queued or being run. So every request it has popped is in its batch, queued or run by one thread,
  in its channel or completed with the byte count of its FUSE call, never with another queue, and
  once it is handed back all it popped is completed.
\<close>

theorem shared_pool_refines:
  assumes "reach device_init (device_step fuse) (ds, p)"
  shows "reach disp_init (queue_step fuse) (view i (ds, p)) \<and>
    mset (popped (ds i)) = mset (batch (ds i)) + jobs_of i (mset (jobs p) + in_flight (workers p)) +
      mset (map fst (done_chan (ds i))) + mset (map fst (completed (ds i))) \<and>
    (\<forall>(j, n) \<in> set (completed (ds i)). n = job_bytes fuse j) \<and>
    (pc (ds i) = Returned \<longrightarrow> mset (map fst (completed (ds i))) = mset (popped (ds i)))"
proof -
  have r: "reach disp_init (queue_step fuse) (view i (ds, p))" using assms by (rule view_reach)
  from dispatcher.reach_inv [OF this] have "disp_inv fuse (view i (ds, p))" .
  with r show ?thesis by (auto simp: disp_inv_def view_def held_def)
qed

lemma device_start_reach: "reach device_init (device_step fuse) ((\<lambda>_. dispatcher_start), WorkerPool_new n)"
  by (rule reach_init) (auto simp: device_init_def pool_init_def)

theorem shared_pool_refines_witness:
  "popped ((\<lambda>_. dispatcher_start :: nat dispatcher) 1) = [] \<and>
   reach disp_init (queue_step (\<lambda>_. Return 7)) (view 1 ((\<lambda>_. dispatcher_start :: nat dispatcher), WorkerPool_new 2))"
  using shared_pool_refines [OF device_start_reach [of "\<lambda>_ :: nat. Return 7" 2], of 1] by (simp add: dispatcher_start_def)


text \<open>A queue told to stop, on its way round to the end, with the others untouched.\<close>

lemma device_local:
  assumes "reach device_init (device_step fuse) (ds, p)" "disp_step fuse (ds i) d" "pool_jobs d = pool_jobs (ds i)"
  shows "reach device_init (device_step fuse) (ds(i := d), p)"
  by (rule reach_step [OF assms(1)]) (rule device_step.Work [OF device_work.Local [of fuse ds i d p, OF assms(2,3)]])

lemma device_stops_once:
  "reach device_init (device_step fuse)
     ((\<lambda>_. dispatcher_start)(1 := dispatcher_start\<lparr>stop_sent := True, stopping := True\<rparr>), WorkerPool_new n)"
proof -
  let ?ds = "\<lambda>d. (\<lambda>_. dispatcher_start)(1 := d)" and ?s = "dispatcher_start\<lparr>stop_sent := True\<rparr>"
  let ?R = "\<lambda>d. reach device_init (device_step fuse) (?ds d, WorkerPool_new n)"
  note d = dispatcher_start_def
  have step: "?R e" if "?R c" "disp_step fuse c e" "pool_jobs e = pool_jobs c" for c e
    using device_local [of fuse "?ds c" "WorkerPool_new n" 1 e] that by simp
  have "device_step fuse ((\<lambda>_. dispatcher_start), WorkerPool_new n) (?ds ?s, WorkerPool_new n)"
    using device_step.Env [OF env_step.send_stop [of "(\<lambda>_. dispatcher_start) 1"]] by fastforce
  then have "?R ?s" by (rule reach_step [OF device_start_reach])
  then have "?R (?s\<lparr>pc := Dispatch\<rparr>)"
    by (rule step) (use disp_step.drained [of ?s fuse] in \<open>simp_all add: d\<close>)
  then have "?R (?s\<lparr>pc := CheckStop\<rparr>)"
    by (rule step) (use disp_step.fanned_out [of "?s\<lparr>pc := Dispatch\<rparr>" fuse] in \<open>simp_all add: d\<close>)
  then have "?R (?s\<lparr>pc := Park\<rparr>)"
    by (rule step) (use disp_step.park [of "?s\<lparr>pc := CheckStop\<rparr>" fuse] in \<open>simp_all add: d\<close>)
  moreover have "poll_pass (?s\<lparr>pc := Park\<rparr>) = (True, ?s\<lparr>pc := Park, stopping := True\<rparr>)" by (simp add: poll_pass_def d)
  then have "disp_step fuse (?s\<lparr>pc := Park\<rparr>) (?s\<lparr>pc := Park, stopping := True\<rparr>\<lparr>pc := Drain\<rparr>)"
    by (intro disp_step.wake) (simp_all add: d)
  ultimately have "?R (?s\<lparr>pc := Park, stopping := True\<rparr>\<lparr>pc := Drain\<rparr>)" by (rule step) (simp add: d)
  then show ?thesis by (simp add: d)
qed


end
