(* ===== verification/Rate_Limit.thy ===== *)
theory Rate_Limit
  imports Prelude
begin

text \<open>
  The warning rate limiter of \<open>virtio-hdv/src/ratelimit.rs\<close>. A call samples the clock, loads the
  stamp of the last emission, tests the window and tries a compare-and-exchange; other callers of
  the same site run in between, so a call is three steps of a relation whose state holds the call
  site's atomic. The clock is \<open>now_ms\<close> and does not wrap (that takes \<open>2^64\<close> ms). Shown: emission stamps are at
  least a window apart, so the number of warnings is bounded by the time that has passed, and an
  undisturbed call whose window is over does warn.
\<close>

section \<open>The limiter\<close>

definition WINDOW_MS :: u64 where
  "WINDOW_MS = 5000"

definition window_over :: "u64 \<Rightarrow> u64 \<Rightarrow> bool" where
  "window_over now prev \<longleftrightarrow> prev = 0 \<or> WINDOW_MS \<le> saturating_sub now prev"

datatype call_pc = Idle | Sampled u64 | Loaded u64 u64

record limiter =
  clock :: u64
  last_ms :: u64
  calls :: "nat \<Rightarrow> call_pc"
  emitted :: "u64 list"

definition limiter_start :: limiter where
  "limiter_start = \<lparr>clock = 0, last_ms = 0, calls = (\<lambda>_. Idle), emitted = []\<rparr>"

inductive should_emit_step :: "nat \<Rightarrow> limiter \<Rightarrow> limiter \<Rightarrow> bool" for i where
  sample: "calls s i = Idle \<Longrightarrow>
    should_emit_step i s (s\<lparr>calls := (calls s)(i := Sampled (max (clock s) 1))\<rparr>)"
| load: "calls s i = Sampled now \<Longrightarrow>
    should_emit_step i s (s\<lparr>calls := (calls s)(i := Loaded now (last_ms s))\<rparr>)"
| suppress: "calls s i = Loaded now prev \<Longrightarrow> \<not> window_over now prev \<Longrightarrow>
    should_emit_step i s (s\<lparr>calls := (calls s)(i := Idle)\<rparr>)"
| win: "calls s i = Loaded now prev \<Longrightarrow> window_over now prev \<Longrightarrow> last_ms s = prev \<Longrightarrow>
    should_emit_step i s (s\<lparr>calls := (calls s)(i := Idle), last_ms := now, emitted := emitted s @ [now]\<rparr>)"
| lose: "calls s i = Loaded now prev \<Longrightarrow> window_over now prev \<Longrightarrow> last_ms s \<noteq> prev \<Longrightarrow>
    should_emit_step i s (s\<lparr>calls := (calls s)(i := Idle)\<rparr>)"

inductive limiter_step :: "limiter \<Rightarrow> limiter \<Rightarrow> bool" where
  tick: "clock s < t \<Longrightarrow> limiter_step s (s\<lparr>clock := t\<rparr>)"
| call: "should_emit_step i s t \<Longrightarrow> limiter_step s t"

section \<open>The invariant\<close>

abbreviation spaced :: "u64 list \<Rightarrow> bool" where
  "spaced \<equiv> successively (\<lambda>a b. unat a + 5000 \<le> unat b)"

definition stamped :: "u64 \<Rightarrow> u64 \<Rightarrow> bool" where
  "stamped clk now \<longleftrightarrow> 1 \<le> now \<and> now \<le> max clk 1"

fun pc_ok :: "u64 \<Rightarrow> call_pc \<Rightarrow> bool" where
  "pc_ok clk Idle = True"
| "pc_ok clk (Sampled now) = stamped clk now"
| "pc_ok clk (Loaded now prev) = stamped clk now"

definition limiter_inv :: "limiter \<Rightarrow> bool" where
  "limiter_inv s \<longleftrightarrow>
     (\<forall>i. pc_ok (clock s) (calls s i)) \<and>
     last_ms s = (if emitted s = [] then 0 else last (emitted s)) \<and>
     (\<forall>e \<in> set (emitted s). stamped (clock s) e) \<and> spaced (emitted s)"

lemma pc_ok_mono: "pc_ok a pc \<Longrightarrow> a \<le> b \<Longrightarrow> pc_ok b pc"
  by (cases pc) (auto simp: stamped_def max_def split: if_splits)

lemma stamped_mono: "stamped a e \<Longrightarrow> a \<le> b \<Longrightarrow> stamped b e"
  by (auto simp: stamped_def max_def split: if_splits)

lemma window_over_iff:
  "window_over now prev \<longleftrightarrow> prev = 0 \<or> unat prev + 5000 \<le> unat now"
  using unat_saturating_sub [of now prev]
  by (auto simp: window_over_def WINDOW_MS_def word_le_nat_alt)

lemma should_emit_step_inv:
  assumes "limiter_inv s" "should_emit_step i s t"
  shows "limiter_inv t"
  using assms(2)
proof cases
  case (win now prev)
  have ok: "stamped (clock s) now" using assms(1) win(2) unfolding limiter_inv_def by (metis pc_ok.simps(3))
  have "spaced (emitted s @ [now])"
  proof (cases "emitted s = []")
    case False
    then have "last (emitted s) \<in> set (emitted s)" "prev = last (emitted s)"
      using assms(1) win(4) by (simp_all add: limiter_inv_def)
    moreover from this(1) have "last (emitted s) \<noteq> 0" using assms(1) by (auto simp: limiter_inv_def stamped_def)
    ultimately show ?thesis using assms(1) win(3) by (simp add: limiter_inv_def successively_append_iff window_over_iff)
  qed simp
  then show ?thesis using assms(1) ok win(1) by (auto simp: limiter_inv_def)
next
  case (load now)
  have "stamped (clock s) now" using assms(1) load(2) unfolding limiter_inv_def by (metis pc_ok.simps(2))
  then show ?thesis using assms(1) load(1) by (auto simp: limiter_inv_def)
qed (use assms(1) in \<open>auto simp: limiter_inv_def stamped_def\<close>)

interpretation limiter: safe_machine "\<lambda>s. s = limiter_start" limiter_step limiter_inv
proof unfold_locales
  fix s :: limiter assume "s = limiter_start"
  then show "limiter_inv s" by (simp add: limiter_inv_def limiter_start_def)
next
  fix s t assume inv: "limiter_inv s" and "limiter_step s t"
  from this(2) show "limiter_inv t"
  proof cases
    case (tick t)
    then have "clock s \<le> t" by simp
    with inv tick(1) show ?thesis by (auto simp: limiter_inv_def intro: pc_ok_mono stamped_mono)
  qed (rule should_emit_step_inv [OF inv])
qed

lemma spaced_length: "spaced es \<Longrightarrow> es \<noteq> [] \<Longrightarrow> 5000 * (length es - 1) + unat (hd es) \<le> unat (last es)"
proof (induction es rule: induct_list012)
  case (3 a b es)
  then show ?case by simp
qed auto

lemma undisturbed_call:
  assumes "calls s i = Idle" "window_over (max (clock s) 1) (last_ms s)"
  shows "\<exists>t. limiter_step\<^sup>*\<^sup>* s t \<and> emitted t = emitted s @ [max (clock s) 1]"
proof -
  define now where "now = max (clock s) 1"
  define a where "a = s\<lparr>calls := (calls s)(i := Sampled now)\<rparr>"
  define b where "b = a\<lparr>calls := (calls a)(i := Loaded now (last_ms a))\<rparr>"
  define c where "c = b\<lparr>calls := (calls b)(i := Idle), last_ms := now, emitted := emitted b @ [now]\<rparr>"
  have "should_emit_step i s a" unfolding a_def now_def by (rule sample) (rule assms(1))
  moreover have "should_emit_step i a b" unfolding b_def by (rule load) (simp add: a_def)
  moreover have "should_emit_step i b c" unfolding c_def
    by (rule win [where prev = "last_ms s"]) (use assms(2) in \<open>simp_all add: a_def b_def now_def\<close>)
  ultimately have "limiter_step\<^sup>*\<^sup>* s c"
    by (meson limiter_step.call converse_rtranclp_into_rtranclp rtranclp.rtrancl_refl)
  moreover have "emitted c = emitted s @ [now]" by (simp add: a_def b_def c_def)
  ultimately show ?thesis by (auto simp: now_def)
qed

section \<open>Properties\<close>

text \<open>
  C35. However the callers of one site interleave, two consecutive warnings carry stamps at least
  5000 ms apart, and by any time \<open>t\<close> at most \<open>t / 5000 + 1\<close> warnings were emitted; and a caller
  that runs undisturbed when the window is over, or when there was no warning yet, emits one.
\<close>

theorem rate_limited:
  assumes "reach (\<lambda>s. s = limiter_start) limiter_step s"
  shows "spaced (emitted s) \<and> length (emitted s) \<le> unat (clock s) div 5000 + 1 \<and>
    (calls s i = Idle \<and> (emitted s = [] \<or> unat (last (emitted s)) + 5000 \<le> unat (clock s)) \<longrightarrow>
      (\<exists>t. limiter_step\<^sup>*\<^sup>* s t \<and> emitted t = emitted s @ [max (clock s) 1]))"
proof (intro conjI impI)
  have inv: "limiter_inv s" using assms by (rule limiter.reach_inv)
  then show sp: "spaced (emitted s)" by (simp add: limiter_inv_def)
  show "length (emitted s) \<le> unat (clock s) div 5000 + 1"
  proof (cases "emitted s = []")
    case False
    then have "stamped (clock s) (last (emitted s))" "stamped (clock s) (hd (emitted s))"
      using inv by (auto simp: limiter_inv_def)
    then have "unat (last (emitted s)) \<le> max (unat (clock s)) 1" "1 \<le> unat (hd (emitted s))"
      by (auto simp: stamped_def word_le_nat_alt max_def split: if_splits)
    then have "5000 * (length (emitted s) - 1) \<le> unat (clock s)"
      using spaced_length [OF sp False] by linarith
    then have "length (emitted s) - 1 \<le> unat (clock s) div 5000" by (simp add: less_eq_div_iff_mult_less_eq mult.commute)
    then show ?thesis by linarith
  qed simp
  assume h: "calls s i = Idle \<and> (emitted s = [] \<or> unat (last (emitted s)) + 5000 \<le> unat (clock s))"
  have "unat (clock s) \<le> unat (max (clock s) 1)" by (simp add: max_def word_le_nat_alt)
  then have "window_over (max (clock s) 1) (last_ms s)" using h inv by (auto simp: window_over_iff limiter_inv_def)
  then show "\<exists>t. limiter_step\<^sup>*\<^sup>* s t \<and> emitted t = emitted s @ [max (clock s) 1]"
    using undisturbed_call h by blast
qed

theorem rate_limited_witness:
  "\<exists>t. limiter_step\<^sup>*\<^sup>* limiter_start t \<and> emitted t = [1]"
  using rate_limited [of limiter_start 0] reach_init [of "\<lambda>s. s = limiter_start" limiter_start limiter_step]
  by (simp add: limiter_start_def)

end
