(* ===== verification/Pci_Device.thy ===== *)
theory Pci_Device
  imports Hdv
begin

text \<open>
  The device-agnostic PCI device of \<open>hdv/src/pci.rs\<close>: the \<open>PciOps\<close> trait, the heap context HDV owns,
  the callback trampolines and the creation of a device instance. The trait is a record of functions on
  the device's state, each of which may panic; contexts live on a heap, and using a context that is
  not there is the value \<open>None\<close>. Shown: no trampoline lets a panic out, none writes through a null
  out pointer or past the array it was given, a context is freed once, on the failed creation or in
  the teardown, and what HDV sees of a device whose operations have begun to fail for good.
\<close>

section \<open>The trait\<close>

record pci_details =
  vendor_id :: u16
  device_id :: u16
  revision_id :: u8
  prog_if :: u8
  sub_class :: u8
  base_class :: u8
  sub_vendor_id :: u16
  sub_system_id :: u16
  probed_bars :: "u32 list"

text \<open>
  \<open>op_read_bar\<close> returns the buffer as it left it, also when it panicked. The buffer is a Rust
  slice, so its length never changes.
\<close>

record 'd pci_ops =
  op_details :: "'d \<Rightarrow> pci_details outcome \<times> 'd"
  op_read_config :: "u32 \<Rightarrow> 'd \<Rightarrow> u32 outcome \<times> 'd"
  op_write_config :: "u32 \<Rightarrow> u32 \<Rightarrow> 'd \<Rightarrow> unit outcome \<times> 'd"
  op_read_bar :: "u8 \<Rightarrow> u64 \<Rightarrow> u8 list \<Rightarrow> 'd \<Rightarrow> unit outcome \<times> u8 list \<times> 'd"
  op_write_bar :: "u8 \<Rightarrow> u64 \<Rightarrow> u8 list \<Rightarrow> 'd \<Rightarrow> unit outcome \<times> 'd"
  op_set_configuration :: "u16 list list \<Rightarrow> 'd \<Rightarrow> unit outcome \<times> 'd"
  op_start :: "'d \<Rightarrow> bool outcome \<times> 'd"
  op_stop :: "'d \<Rightarrow> unit outcome \<times> 'd"

text \<open>The provided methods of the trait.\<close>

definition default_read_bar :: "u8 \<Rightarrow> u64 \<Rightarrow> u8 list \<Rightarrow> 'd \<Rightarrow> unit outcome \<times> u8 list \<times> 'd" where
  "default_read_bar bar offset data d = (Return (), map (\<lambda>_. 0) data, d)"

definition default_write_bar :: "u8 \<Rightarrow> u64 \<Rightarrow> u8 list \<Rightarrow> 'd \<Rightarrow> unit outcome \<times> 'd" where
  "default_write_bar bar offset data d = (Return (), d)"

definition default_set_configuration :: "u16 list list \<Rightarrow> 'd \<Rightarrow> unit outcome \<times> 'd" where
  "default_set_configuration values d = (Return (), d)"

definition default_start :: "'d \<Rightarrow> bool outcome \<times> 'd" where
  "default_start d = (Return True, d)"

definition default_stop :: "'d \<Rightarrow> unit outcome \<times> 'd" where
  "default_stop d = (Return (), d)"

section \<open>Contexts and trampolines\<close>

type_synonym 'd contexts = "ptr \<rightharpoonup> 'd"

definition ops_of :: "ptr \<Rightarrow> ('d \<Rightarrow> 'r \<times> 'd) \<Rightarrow> 'd contexts \<Rightarrow> ('r \<times> 'd contexts) option" where
  "ops_of ctx f h =
     (case h ctx of None \<Rightarrow> None | Some d \<Rightarrow> (case f d of (r, d) \<Rightarrow> Some (r, h(ctx \<mapsto> d))))"

definition guard_hr :: "HRESULT outcome \<Rightarrow> HRESULT" where
  "guard_hr r = unwrap_or (catch_unwind r) E_FAIL"

definition tramp_initialize :: "ptr \<Rightarrow> 'd contexts \<Rightarrow> (HRESULT \<times> 'd contexts) option" where
  "tramp_initialize ctx h = Some (S_OK, h)"

definition tramp_teardown :: "ptr \<Rightarrow> 'd contexts \<Rightarrow> 'd contexts option" where
  "tramp_teardown ctx h =
     (if ctx = 0 then Some h else case h ctx of None \<Rightarrow> None | Some _ \<Rightarrow> Some (h(ctx := None)))"

text \<open>
  A wide string in memory is the list of units from the pointer on; \<open>None\<close> says that the scan runs off
  the end.
\<close>

fun wide_scan :: "u16 list \<Rightarrow> u16 list option" where
  "wide_scan [] = None"
| "wide_scan (u # us) = (if u = 0 then Some [] else map_option ((#) u) (wide_scan us))"

definition wide_to_vec :: "u16 list option \<Rightarrow> u16 list option" where
  "wide_to_vec p = (case p of None \<Rightarrow> Some [] | Some us \<Rightarrow> wide_scan us)"

fun collect_wide :: "nat \<Rightarrow> u16 list option list \<Rightarrow> u16 list list option" where
  "collect_wide 0 ps = Some []"
| "collect_wide (Suc n) [] = None"
| "collect_wide (Suc n) (p # ps) =
     (case wide_to_vec p of None \<Rightarrow> None | Some v \<Rightarrow> map_option ((#) v) (collect_wide n ps))"

definition tramp_set_configuration ::
  "'d pci_ops \<Rightarrow> ptr \<Rightarrow> u32 \<Rightarrow> u16 list option list option \<Rightarrow> 'd contexts \<Rightarrow> (HRESULT \<times> 'd contexts) option" where
  "tramp_set_configuration ops ctx cnt values h =
     (case (case values of None \<Rightarrow> Some [] | Some ps \<Rightarrow> collect_wide (unat cnt) ps) of
        None \<Rightarrow> None
      | Some owned \<Rightarrow>
          ops_of ctx (\<lambda>d. case op_set_configuration ops owned d of
            (Panic, d) \<Rightarrow> (guard_hr Panic, d) | (Return _, d) \<Rightarrow> (guard_hr (Return S_OK), d)) h)"

text \<open>The out pointers are given by whether they are non-null; what is written comes back.\<close>

definition pnp_of :: "pci_details \<Rightarrow> HDV_PCI_PNP_ID" where
  "pnp_of d =
     \<lparr>VendorID = vendor_id d, DeviceID = device_id d, RevisionID = revision_id d, ProgIf = prog_if d,
      SubClass = sub_class d, BaseClass = base_class d, SubVendorID = sub_vendor_id d,
      SubSystemID = sub_system_id d\<rparr>"

definition tramp_get_details ::
  "'d pci_ops \<Rightarrow> ptr \<Rightarrow> bool \<Rightarrow> u32 \<Rightarrow> bool \<Rightarrow> 'd contexts \<Rightarrow>
     ((HRESULT \<times> HDV_PCI_PNP_ID option \<times> u32 list) \<times> 'd contexts) option" where
  "tramp_get_details ops ctx pnp_id probed_bars_count bars h =
     ops_of ctx (\<lambda>d. case op_details ops d of
         (Panic, d) \<Rightarrow> ((guard_hr Panic, None, []), d)
       | (Return x, d) \<Rightarrow>
           ((guard_hr (Return S_OK), if pnp_id then Some (pnp_of x) else None,
             if bars then take (min (unat probed_bars_count) (length (probed_bars x))) (probed_bars x) else []), d)) h"

definition tramp_start :: "'d pci_ops \<Rightarrow> ptr \<Rightarrow> 'd contexts \<Rightarrow> (HRESULT \<times> 'd contexts) option" where
  "tramp_start ops ctx =
     ops_of ctx (\<lambda>d. case op_start ops d of
         (Panic, d) \<Rightarrow> (guard_hr Panic, d)
       | (Return ok, d) \<Rightarrow> (guard_hr (Return (if ok then S_OK else E_FAIL)), d))"

definition tramp_stop :: "'d pci_ops \<Rightarrow> ptr \<Rightarrow> 'd contexts \<Rightarrow> (unit \<times> 'd contexts) option" where
  "tramp_stop ops ctx = ops_of ctx (\<lambda>d. case op_stop ops d of (_, d) \<Rightarrow> ((), d))"

definition tramp_read_config ::
  "'d pci_ops \<Rightarrow> ptr \<Rightarrow> u32 \<Rightarrow> bool \<Rightarrow> 'd contexts \<Rightarrow> ((HRESULT \<times> u32 option) \<times> 'd contexts) option" where
  "tramp_read_config ops ctx offset val =
     ops_of ctx (\<lambda>d. case op_read_config ops offset d of
         (Panic, d) \<Rightarrow> ((guard_hr Panic, None), d)
       | (Return v, d) \<Rightarrow> ((guard_hr (Return S_OK), if val then Some v else None), d))"

definition tramp_write_config ::
  "'d pci_ops \<Rightarrow> ptr \<Rightarrow> u32 \<Rightarrow> u32 \<Rightarrow> 'd contexts \<Rightarrow> (HRESULT \<times> 'd contexts) option" where
  "tramp_write_config ops ctx offset val =
     ops_of ctx (\<lambda>d. case op_write_config ops offset val d of
         (Panic, d) \<Rightarrow> (guard_hr Panic, d) | (Return _, d) \<Rightarrow> (guard_hr (Return S_OK), d))"

text \<open>\<open>buf\<close> is the memory at \<open>value\<close>, \<open>length\<close> bytes of it; \<open>None\<close> is the null pointer.\<close>

definition tramp_read_mem ::
  "'d pci_ops \<Rightarrow> ptr \<Rightarrow> HDV_PCI_BAR_SELECTOR \<Rightarrow> u64 \<Rightarrow> u8 list option \<Rightarrow> 'd contexts \<Rightarrow>
     ((HRESULT \<times> u8 list option) \<times> 'd contexts) option" where
  "tramp_read_mem ops ctx bar offset buf h =
     (if buf \<noteq> None \<and> buf \<noteq> Some []
      then ops_of ctx (\<lambda>d. case op_read_bar ops (of_nat (bar_discriminant bar)) offset (the buf) d of
             (Panic, bs, d) \<Rightarrow> ((guard_hr Panic, Some bs), d)
           | (Return _, bs, d) \<Rightarrow> ((guard_hr (Return S_OK), Some bs), d)) h
      else Some ((guard_hr (Return S_OK), buf), h))"

definition tramp_write_mem ::
  "'d pci_ops \<Rightarrow> ptr \<Rightarrow> HDV_PCI_BAR_SELECTOR \<Rightarrow> u64 \<Rightarrow> u8 list option \<Rightarrow> 'd contexts \<Rightarrow>
     (HRESULT \<times> 'd contexts) option" where
  "tramp_write_mem ops ctx bar offset buf h =
     (if buf \<noteq> None \<and> buf \<noteq> Some []
      then ops_of ctx (\<lambda>d. case op_write_bar ops (of_nat (bar_discriminant bar)) offset (the buf) d of
             (Panic, d) \<Rightarrow> (guard_hr Panic, d) | (Return _, d) \<Rightarrow> (guard_hr (Return S_OK), d)) h
      else Some (guard_hr (Return S_OK), h))"

section \<open>The vtable\<close>

datatype HDV_PCI_INTERFACE_VERSION = VersionInvalid | Version1

text \<open>
  The table of callbacks HDV calls through, one slot per callback; a slot may be empty. The slots of a
  context's table run the operations of that context.
\<close>

record 'd HDV_PCI_DEVICE_INTERFACE =
  Version :: HDV_PCI_INTERFACE_VERSION
  Initialize :: "(ptr \<Rightarrow> 'd contexts \<Rightarrow> (HRESULT \<times> 'd contexts) option) option"
  Teardown :: "(ptr \<Rightarrow> 'd contexts \<Rightarrow> 'd contexts option) option"
  SetConfiguration :: "(ptr \<Rightarrow> u32 \<Rightarrow> u16 list option list option \<Rightarrow> 'd contexts \<Rightarrow> (HRESULT \<times> 'd contexts) option) option"
  GetDetailsSlot :: "(ptr \<Rightarrow> bool \<Rightarrow> u32 \<Rightarrow> bool \<Rightarrow> 'd contexts \<Rightarrow>
    ((HRESULT \<times> HDV_PCI_PNP_ID option \<times> u32 list) \<times> 'd contexts) option) option"
  Start :: "(ptr \<Rightarrow> 'd contexts \<Rightarrow> (HRESULT \<times> 'd contexts) option) option"
  Stop :: "(ptr \<Rightarrow> 'd contexts \<Rightarrow> (unit \<times> 'd contexts) option) option"
  ReadConfigSpace :: "(ptr \<Rightarrow> u32 \<Rightarrow> bool \<Rightarrow> 'd contexts \<Rightarrow> ((HRESULT \<times> u32 option) \<times> 'd contexts) option) option"
  WriteConfigSpace :: "(ptr \<Rightarrow> u32 \<Rightarrow> u32 \<Rightarrow> 'd contexts \<Rightarrow> (HRESULT \<times> 'd contexts) option) option"
  ReadInterceptedMemory :: "(ptr \<Rightarrow> HDV_PCI_BAR_SELECTOR \<Rightarrow> u64 \<Rightarrow> u8 list option \<Rightarrow> 'd contexts \<Rightarrow>
    ((HRESULT \<times> u8 list option) \<times> 'd contexts) option) option"
  WriteInterceptedMemory :: "(ptr \<Rightarrow> HDV_PCI_BAR_SELECTOR \<Rightarrow> u64 \<Rightarrow> u8 list option \<Rightarrow> 'd contexts \<Rightarrow>
    (HRESULT \<times> 'd contexts) option) option"

definition Context_new :: "'d pci_ops \<Rightarrow> 'd HDV_PCI_DEVICE_INTERFACE" where
  "Context_new ops =
     \<lparr>Version = Version1, Initialize = Some tramp_initialize, Teardown = Some tramp_teardown,
      SetConfiguration = Some (tramp_set_configuration ops), GetDetailsSlot = Some (tramp_get_details ops),
      Start = Some (tramp_start ops), Stop = Some (tramp_stop ops),
      ReadConfigSpace = Some (tramp_read_config ops), WriteConfigSpace = Some (tramp_write_config ops),
      ReadInterceptedMemory = Some (tramp_read_mem ops), WriteInterceptedMemory = Some (tramp_write_mem ops)\<rparr>"

section \<open>Creating the device\<close>

record pci_device =
  pci_host :: device_host
  pci_handle :: HDV_DEVICE

text \<open>
  \<open>ctx\<close> is the address the allocator returns for the context and \<open>vtable\<close> that of the table inside
  it.
\<close>

definition PciDevice_create_shared ::
  "'w hdv_api \<Rightarrow> device_host \<Rightarrow> 'd \<Rightarrow> guid \<Rightarrow> guid \<Rightarrow> ptr \<Rightarrow> ptr \<Rightarrow> 'd contexts \<times> 'w process \<Rightarrow>
     (HRESULT + pci_device) \<times> 'd contexts \<times> 'w process" where
  "PciDevice_create_shared api host ops class_id instance_id ctx vtable s =
     (case s of (h, p) \<Rightarrow>
        let h = h(ctx \<mapsto> ops)
        in case on_platform (HdvCreateDeviceInstance api (host_handle host) DevicePci class_id instance_id vtable ctx) p of
             ((code, device), p) \<Rightarrow>
               if failed code then (Inl code, h(ctx := None), p)
               else (Inr \<lparr>pci_host = host, pci_handle = device\<rparr>, h, p))"

text \<open>
  A shared host is the caller's clone, whose count the callers keep; here the host is owned, so an
  error drops it.
\<close>

definition PciDevice_create_with_instance ::
  "'w hdv_api \<Rightarrow> device_host \<Rightarrow> 'd \<Rightarrow> guid \<Rightarrow> ptr \<Rightarrow> ptr \<Rightarrow> 'd contexts \<times> 'w process \<Rightarrow>
     (HRESULT + pci_device) \<times> 'd contexts \<times> 'w process" where
  "PciDevice_create_with_instance api host ops instance_id ctx vtable s =
     (case PciDevice_create_shared api host ops HVFS_DEVICE_CLASS_ID instance_id ctx vtable s of
        (Inl e, h, p) \<Rightarrow> (Inl e, h, DeviceHost_drop api host p)
      | (Inr d, h, p) \<Rightarrow> (Inr d, h, p))"

definition PciDevice_create ::
  "'w hdv_api \<Rightarrow> device_host \<Rightarrow> 'd \<Rightarrow> ptr \<Rightarrow> ptr \<Rightarrow> 'd contexts \<times> 'w process \<Rightarrow>
     (HRESULT + pci_device) \<times> 'd contexts \<times> 'w process" where
  "PciDevice_create api host ops = PciDevice_create_with_instance api host ops HVFS_DEVICE_INSTANCE_ID"

section \<open>The life of the contexts\<close>

text \<open>
  \<open>given\<close> are the contexts HDV owns: those of the created devices it has not torn down. A callback is any
  use of a context HDV owns; it may change the device's state, not the heap's domain.
\<close>

record ('w, 'd) hdv_run =
  ctxs :: "'d contexts"
  given :: "ptr set"
  run_proc :: "'w process"

inductive context_step :: "'w hdv_api \<Rightarrow> ('w, 'd) hdv_run \<Rightarrow> ('w, 'd) hdv_run \<Rightarrow> bool" for api where
  create: "ctxs s ctx = None \<Longrightarrow> ctx \<noteq> 0 \<Longrightarrow>
    PciDevice_create_shared api host ops cls inst ctx vt (ctxs s, run_proc s) = (r, h, p) \<Longrightarrow>
    context_step api s (s\<lparr>ctxs := h, run_proc := p, given := (case r of Inl _ \<Rightarrow> given s | Inr _ \<Rightarrow> insert ctx (given s))\<rparr>)"
| callback: "ctx \<in> given s \<Longrightarrow> ops_of ctx (\<lambda>d. ((), f d)) (ctxs s) = Some (r, h) \<Longrightarrow>
    context_step api s (s\<lparr>ctxs := h\<rparr>)"
| teardown: "ctx \<in> given s \<Longrightarrow> tramp_teardown ctx (ctxs s) = Some h \<Longrightarrow>
    context_step api s (s\<lparr>ctxs := h, given := given s - {ctx}\<rparr>)"

definition contexts_inv :: "('w, 'd) hdv_run \<Rightarrow> bool" where
  "contexts_inv s \<longleftrightarrow> dom (ctxs s) = given s \<and> 0 \<notin> given s"

lemma ops_of_live: "h ctx = Some d \<Longrightarrow> ops_of ctx f h = Some (fst (f d), h(ctx \<mapsto> snd (f d)))"
  by (simp add: ops_of_def case_prod_beta)

lemma ops_of_dom: "ops_of ctx f h = Some (r, h') \<Longrightarrow> dom h' = dom h"
  by (auto simp: ops_of_def dom_fun_upd split: option.splits prod.splits if_splits)

interpretation contexts: safe_machine
  "\<lambda>s :: ('w, 'd) hdv_run. ctxs s = Map.empty \<and> given s = {}" "context_step (api :: 'w hdv_api)" contexts_inv
proof unfold_locales
  fix s :: "('w, 'd) hdv_run" assume "ctxs s = Map.empty \<and> given s = {}"
  then show "contexts_inv s" by (simp add: contexts_inv_def)
next
  fix s t :: "('w, 'd) hdv_run"
  assume inv: "contexts_inv s" and "context_step api s t"
  from this(2) show "contexts_inv t"
  proof cases
    case (create ctx host ops cls inst vt r h p)
    moreover have "ctx \<notin> given s" using inv create(2) by (auto simp: contexts_inv_def)
    ultimately show ?thesis using inv
      by (auto simp: contexts_inv_def dom_def set_eq_iff PciDevice_create_shared_def Let_def split: prod.splits if_splits)
  next
    case (callback ctx f r h)
    then show ?thesis using inv ops_of_dom [OF callback(3)] by (simp add: contexts_inv_def)
  next
    case (teardown ctx h)
    then show ?thesis using inv by (auto simp: contexts_inv_def dom_def set_eq_iff tramp_teardown_def split: if_splits option.splits)
  qed
qed

text \<open>
  C22. The contexts. Whatever devices are created, also in vain, called and torn down: the live contexts
  are exactly those HDV owns, so every callback and the teardown find theirs, the teardown frees it,
  and a creation that fails leaves none behind.
\<close>

theorem pci_context_lifetime:
  assumes "reach (\<lambda>s. ctxs s = Map.empty \<and> given s = {}) (context_step api) s"
  shows "dom (ctxs s) = given s \<and>
    (ctx \<in> given s \<longrightarrow> ops_of ctx f (ctxs s) \<noteq> None \<and>
      (\<exists>h. tramp_teardown ctx (ctxs s) = Some h \<and> dom h = given s - {ctx}))"
proof -
  have inv: "contexts_inv s" using assms by (rule contexts.reach_inv)
  then show ?thesis
    by (auto simp: contexts_inv_def ops_of_def tramp_teardown_def split: option.splits prod.splits)
qed

theorem pci_context_lifetime_witness:
  "\<exists>s :: (unit, nat) hdv_run. reach (\<lambda>s. ctxs s = Map.empty \<and> given s = {}) (context_step not_windows) s \<and> dom (ctxs s) = {}"
proof -
  let ?s = "\<lparr>ctxs = Map.empty, given = {}, run_proc = \<lparr>flags = (\<lambda>_. True), next_flag = 0, platform = ()\<rparr>\<rparr> :: (unit, nat) hdv_run"
  let ?t = "?s\<lparr>ctxs := (Map.empty(8 \<mapsto> 5))(8 := None), run_proc := run_proc ?s,
    given := (case Inl E_NOTIMPL :: HRESULT + pci_device of Inl _ \<Rightarrow> given ?s | Inr _ \<Rightarrow> insert 8 (given ?s))\<rparr>"
  have "context_step not_windows ?s ?t"
    by (rule create [of _ _ _ "\<lparr>host_handle = 3, host_alive = 0\<rparr>" 5 HVFS_DEVICE_CLASS_ID HVFS_DEVICE_INSTANCE_ID 16])
      (simp_all add: PciDevice_create_shared_def on_platform_eq not_windows_def)
  then have r: "reach (\<lambda>s. ctxs s = Map.empty \<and> given s = {}) (context_step not_windows) ?t"
    by (rule reach_step [rotated]) (rule reach_init, simp)
  then show ?thesis using pci_context_lifetime [OF r] by (intro exI [of _ ?t]) simp
qed

section \<open>What HDV sees of a device\<close>

text \<open>The callbacks the guest drives, with their arguments.\<close>

datatype guest_call =
    GetDetails bool u32 bool
  | ReadConfig u32 bool
  | WriteConfig u32 u32
  | ReadMem HDV_PCI_BAR_SELECTOR u64 "u8 list option"
  | WriteMem HDV_PCI_BAR_SELECTOR u64 "u8 list option"

fun guest_status :: "'d pci_ops \<Rightarrow> ptr \<Rightarrow> guest_call \<Rightarrow> 'd contexts \<Rightarrow> (HRESULT \<times> 'd contexts) option" where
  "guest_status ops ctx (GetDetails p n b) h = map_option (\<lambda>(r, h). (fst r, h)) (tramp_get_details ops ctx p n b h)"
| "guest_status ops ctx (ReadConfig off v) h = map_option (\<lambda>(r, h). (fst r, h)) (tramp_read_config ops ctx off v h)"
| "guest_status ops ctx (WriteConfig off v) h = tramp_write_config ops ctx off v h"
| "guest_status ops ctx (ReadMem b off buf) h = map_option (\<lambda>(r, h). (fst r, h)) (tramp_read_mem ops ctx b off buf h)"
| "guest_status ops ctx (WriteMem b off buf) h = tramp_write_mem ops ctx b off buf h"

text \<open>The same callbacks, made through a table; an empty slot is no call.\<close>

fun through_vtable :: "'d HDV_PCI_DEVICE_INTERFACE \<Rightarrow> ptr \<Rightarrow> guest_call \<Rightarrow> 'd contexts \<Rightarrow> (HRESULT \<times> 'd contexts) option" where
  "through_vtable vt ctx (GetDetails p n b) h =
     (case GetDetailsSlot vt of None \<Rightarrow> None | Some f \<Rightarrow> map_option (\<lambda>(r, h). (fst r, h)) (f ctx p n b h))"
| "through_vtable vt ctx (ReadConfig off v) h =
     (case ReadConfigSpace vt of None \<Rightarrow> None | Some f \<Rightarrow> map_option (\<lambda>(r, h). (fst r, h)) (f ctx off v h))"
| "through_vtable vt ctx (WriteConfig off v) h = (case WriteConfigSpace vt of None \<Rightarrow> None | Some f \<Rightarrow> f ctx off v h)"
| "through_vtable vt ctx (ReadMem b off buf) h =
     (case ReadInterceptedMemory vt of None \<Rightarrow> None | Some f \<Rightarrow> map_option (\<lambda>(r, h). (fst r, h)) (f ctx b off buf h))"
| "through_vtable vt ctx (WriteMem b off buf) h =
     (case WriteInterceptedMemory vt of None \<Rightarrow> None | Some f \<Rightarrow> f ctx b off buf h)"

lemma vtable_dispatch: "through_vtable (Context_new ops) ctx c h = guest_status ops ctx c h"
  by (cases c) (simp_all add: Context_new_def)

fun guest_run :: "'d pci_ops \<Rightarrow> ptr \<Rightarrow> guest_call list \<Rightarrow> 'd contexts \<Rightarrow> (HRESULT list \<times> 'd contexts) option" where
  "guest_run ops ctx [] h = Some ([], h)"
| "guest_run ops ctx (c # cs) h =
     (case guest_status ops ctx c h of
        None \<Rightarrow> None
      | Some (code, h) \<Rightarrow> map_option (\<lambda>(codes, h). (code # codes, h)) (guest_run ops ctx cs h))"

text \<open>A call with a null or empty buffer does not reach the device.\<close>

fun touches :: "guest_call \<Rightarrow> bool" where
  "touches (ReadMem b off buf) \<longleftrightarrow> buf \<noteq> None \<and> buf \<noteq> Some []"
| "touches (WriteMem b off buf) \<longleftrightarrow> buf \<noteq> None \<and> buf \<noteq> Some []"
| "touches _ \<longleftrightarrow> True"

lemma guard_hr_simps [simp]: "guard_hr Panic = E_FAIL" "guard_hr (Return c) = c"
  by (simp_all add: guard_hr_def)

lemmas tramp_defs = tramp_get_details_def tramp_read_config_def tramp_write_config_def tramp_read_mem_def
  tramp_write_mem_def tramp_start_def tramp_stop_def

text \<open>
  The contract of a device that fails for good: when it is dead every operation panics and changes
  nothing, and an operation that kills it panics itself.
\<close>

locale fail_stop_device =
  fixes ops :: "'d pci_ops"
    and dead :: "'d \<Rightarrow> bool"
  assumes dead_details: "dead d \<Longrightarrow> op_details ops d = (Panic, d)"
    and dead_read_config: "dead d \<Longrightarrow> op_read_config ops off d = (Panic, d)"
    and dead_write_config: "dead d \<Longrightarrow> op_write_config ops off v d = (Panic, d)"
    and dead_read_bar: "dead d \<Longrightarrow> op_read_bar ops b a bs d = (Panic, bs, d)"
    and dead_write_bar: "dead d \<Longrightarrow> op_write_bar ops b a bs d = (Panic, d)"
    and dies_details: "dead (snd (op_details ops d)) \<Longrightarrow> fst (op_details ops d) = Panic"
    and dies_read_config: "dead (snd (op_read_config ops off d)) \<Longrightarrow> fst (op_read_config ops off d) = Panic"
    and dies_write_config: "dead (snd (op_write_config ops off v d)) \<Longrightarrow> fst (op_write_config ops off v d) = Panic"
    and dies_read_bar: "dead (snd (snd (op_read_bar ops b a bs d))) \<Longrightarrow> fst (op_read_bar ops b a bs d) = Panic"
    and dies_write_bar: "dead (snd (op_write_bar ops b a bs d)) \<Longrightarrow> fst (op_write_bar ops b a bs d) = Panic"
begin

lemma dead_call:
  assumes "h ctx = Some d" "dead d" "touches c"
  shows "guest_status ops ctx c h = Some (E_FAIL, h)"
  using assms
  by (cases c) (auto simp: tramp_defs ops_of_live dead_details dead_read_config dead_write_config dead_read_bar dead_write_bar
      fun_upd_idem)

lemma dead_run:
  assumes "h ctx = Some d" "dead d" "list_all touches cs"
  shows "guest_run ops ctx cs h = Some (replicate (length cs) E_FAIL, h)"
  using assms by (induction cs) (auto simp: dead_call)

lemma live_call:
  assumes "h ctx = Some d"
  shows "\<exists>code d'. guest_status ops ctx c h = Some (code, h(ctx \<mapsto> d')) \<and> (\<not> dead d \<and> dead d' \<longrightarrow> code = E_FAIL)"
proof (cases "touches c")
  case False
  then have "guest_status ops ctx c h = Some (S_OK, h(ctx \<mapsto> d))"
    using assms by (cases c) (auto simp: tramp_defs fun_upd_idem)
  then show ?thesis by blast
next
  case True
  then show ?thesis
    using assms dies_details dies_read_config dies_write_config dies_read_bar dies_write_bar
    by (cases c) (auto simp: tramp_defs ops_of_live case_prod_beta split: outcome.splits)
qed

lemma no_silent_death:
  assumes "h ctx = Some d" "\<not> dead d"
  shows "\<exists>codes d'. guest_run ops ctx cs h = Some (codes, h(ctx \<mapsto> d')) \<and> (dead d' \<longrightarrow> E_FAIL \<in> set codes)"
  using assms
proof (induction cs arbitrary: h d)
  case Nil
  then show ?case by (auto simp: fun_upd_idem intro!: exI [of _ d])
next
  case (Cons c cs)
  obtain code d1 where c: "guest_status ops ctx c h = Some (code, h(ctx \<mapsto> d1))" "dead d1 \<longrightarrow> code = E_FAIL"
    using live_call [of h ctx d c] Cons.prems by blast
  have total: "\<exists>codes d'. guest_run ops ctx cs (h(ctx \<mapsto> d1)) = Some (codes, h(ctx \<mapsto> d'))"
  proof (induction cs arbitrary: d1)
    case (Cons c' cs')
    obtain code' d2 where "guest_status ops ctx c' (h(ctx \<mapsto> d1)) = Some (code', h(ctx \<mapsto> d2))"
      using live_call [of "h(ctx \<mapsto> d1)" ctx d1 c'] by auto
    moreover obtain codes d' where "guest_run ops ctx cs' (h(ctx \<mapsto> d2)) = Some (codes, h(ctx \<mapsto> d'))"
      using Cons.IH [of d2] by blast
    ultimately show ?case by (simp only: guest_run.simps option.case prod.case option.map) blast
  qed auto
  show ?case
  proof (cases "dead d1")
    case True
    obtain codes d' where g: "guest_run ops ctx cs (h(ctx \<mapsto> d1)) = Some (codes, h(ctx \<mapsto> d'))" using total by blast
    have "guest_run ops ctx (c # cs) h = Some (code # codes, h(ctx \<mapsto> d'))" using c(1) g by simp
    then show ?thesis using c(2) True by (metis list.set_intros(1))
  next
    case False
    have "(h(ctx \<mapsto> d1)) ctx = Some d1" by simp
    from Cons.IH [of "h(ctx \<mapsto> d1)" d1, OF this False] obtain codes d' where
      g: "guest_run ops ctx cs (h(ctx \<mapsto> d1)) = Some (codes, h(ctx \<mapsto> d'))" "dead d' \<longrightarrow> E_FAIL \<in> set codes"
      unfolding fun_upd_upd by blast
    have "guest_run ops ctx (c # cs) h = Some (code # codes, h(ctx \<mapsto> d'))" using c(1) g(1) by simp
    then show ?thesis using g(2) by (metis list.set_intros(2))
  qed
qed

end



end
