(* ===== verification/Vm_Worker.thy ===== *)
theory Vm_Worker
  imports Hdv
begin

text \<open>
  The VM worker channel: the interface ids, vtables and export lookup of \<open>vmworker-sys/src/lib.rs\<close> and the
  wrapper \<open>hdv/src/vmworker.rs\<close> that walks from \<open>GetVmWorkerProcess\<close> to the device's notification
  interface. The export and the COM methods live in \<open>vmwpctrl.dll\<close> and the worker process; they are the
  record \<open>wapi\<close>. A vtable is the list of its slots. Two process-wide once cells (the pinned apartment
  and the resolved export) are part of the state. Shown: the slots the calls use, that the export is
  looked up at most once, and that \<open>connect\<close> leaves no COM reference behind on any path but the one
  it returns.
\<close>

section \<open>vmworker-sys: ids and vtables\<close>

definition IID_IVM_VIRTUAL_DEVICE_ACCESS :: guid where
  "IID_IVM_VIRTUAL_DEVICE_ACCESS =
     \<lparr>Data1 = 0x3e57bd3c, Data2 = 0x5a5d, Data3 = 0x4bdc,
      Data4 = [0xa0, 0xa6, 0x5b, 0x41, 0x93, 0xd4, 0xb7, 0x19]\<rparr>"

definition IID_IVM_FIOV_GUEST_MEMORY_FAST_NOTIFICATION :: guid where
  "IID_IVM_FIOV_GUEST_MEMORY_FAST_NOTIFICATION =
     \<lparr>Data1 = 0xf5dfbec1, Data2 = 0xb9f3, Data3 = 0x4b26,
      Data4 = [0xbf, 0x6f, 0xc2, 0x51, 0x44, 0x8b, 0xcf, 0x7a]\<rparr>"

definition IID_IVM_FIOV_GUEST_MMIO_MAPPINGS :: guid where
  "IID_IVM_FIOV_GUEST_MMIO_MAPPINGS =
     \<lparr>Data1 = 0x9d416457, Data2 = 0xabbc, Data3 = 0x46cf,
      Data4 = [0x8b, 0x93, 0x90, 0x1c, 0x68, 0xbe, 0xc6, 0x27]\<rparr>"

definition FLEXIO_DEVICE_ID :: guid where
  "FLEXIO_DEVICE_ID =
     \<lparr>Data1 = 0xa8679153, Data2 = 0x843f, Data3 = 0x467f,
      Data4 = [0xad, 0x7e, 0xf4, 0x29, 0x32, 0x8f, 0x75, 0x68]\<rparr>"

definition FIOV_BARS :: "i32 list" where
  "FIOV_BARS = [0, 1, 2, 3, 4, 5]"

text \<open>\<open>bar as FIOV_BAR_SELECTOR\<close>.\<close>

definition fiov_bar :: "HDV_PCI_BAR_SELECTOR \<Rightarrow> i32" where
  "fiov_bar bar = of_nat (bar_discriminant bar)"

definition IUnknownVtbl :: "string list" where
  "IUnknownVtbl = [''QueryInterface'', ''AddRef'', ''Release'']"

definition IVmVirtualDeviceAccessVtbl :: "string list" where
  "IVmVirtualDeviceAccessVtbl = IUnknownVtbl @ [''_Reserved'', ''GetDevice'']"

definition IVmFiovGuestMemoryFastNotificationVtbl :: "string list" where
  "IVmFiovGuestMemoryFastNotificationVtbl = IUnknownVtbl @ [''RegisterDoorbell'', ''UnregisterDoorbell'']"

definition IVmFiovGuestMmioMappingsVtbl :: "string list" where
  "IVmFiovGuestMmioMappingsVtbl =
     IUnknownVtbl @ [''CreateSectionBackedMmioRange'', ''DestroySectionBackedMmioRange'']"

section \<open>The platform side\<close>

record 'w worker_api =
  LoadLibraryW :: "nat list \<Rightarrow> 'w \<Rightarrow> ptr \<times> 'w"
  GetProcAddress :: "ptr \<Rightarrow> string \<Rightarrow> 'w \<Rightarrow> ptr \<times> 'w"
  CoIncrementMTAUsage :: "'w \<Rightarrow> HRESULT \<times> 'w"
  GetVmWorkerProcess :: "ptr \<Rightarrow> guid \<Rightarrow> guid \<Rightarrow> 'w \<Rightarrow> (HRESULT \<times> ptr) \<times> 'w"
  GetDevice :: "ptr \<Rightarrow> guid \<Rightarrow> guid \<Rightarrow> 'w \<Rightarrow> (HRESULT \<times> ptr) \<times> 'w"
  QueryInterface :: "ptr \<Rightarrow> guid \<Rightarrow> 'w \<Rightarrow> (HRESULT \<times> ptr) \<times> 'w"
  Release :: "ptr \<Rightarrow> 'w \<Rightarrow> u32 \<times> 'w"
  RegisterDoorbell :: "ptr \<Rightarrow> i32 \<Rightarrow> u64 \<Rightarrow> u64 \<Rightarrow> u64 \<Rightarrow> HANDLE \<Rightarrow> 'w \<Rightarrow> HRESULT \<times> 'w"
  UnregisterDoorbell :: "ptr \<Rightarrow> i32 \<Rightarrow> u64 \<Rightarrow> u64 \<Rightarrow> u64 \<Rightarrow> 'w \<Rightarrow> HRESULT \<times> 'w"

record 'w com_state =
  com_proc :: "'w process"
  once_mta :: bool
  once_fn :: "ptr option option"

abbreviation world :: "'w com_state \<Rightarrow> 'w" where
  "world s \<equiv> platform (com_proc s)"

definition on_proc :: "('w process \<Rightarrow> 'a \<times> 'w process) \<Rightarrow> 'w com_state \<Rightarrow> 'a \<times> 'w com_state" where
  "on_proc f s = (case f (com_proc s) of (a, p) \<Rightarrow> (a, s\<lparr>com_proc := p\<rparr>))"

definition get_vm_worker_process :: "'w worker_api \<Rightarrow> 'w com_state \<Rightarrow> ptr option \<times> 'w com_state" where
  "get_vm_worker_process wapi s =
     (case once_fn s of
        Some r \<Rightarrow> (r, s)
      | None \<Rightarrow>
          (case on_proc (on_platform (LoadLibraryW wapi (encode_utf16 (lit ''vmwpctrl.dll'' @ [0])))) s of
             (module, s) \<Rightarrow>
               if module = 0 then (None, s\<lparr>once_fn := Some None\<rparr>)
               else (case on_proc (on_platform (GetProcAddress wapi module ''GetVmWorkerProcess'')) s of
                       (addr, s) \<Rightarrow>
                         let r = (if addr = 0 then None else Some addr) in (r, s\<lparr>once_fn := Some r\<rparr>))))"

text \<open>The stub of the builds for other systems.\<close>

definition not_windows_get_vm_worker_process :: "'w com_state \<Rightarrow> ptr option \<times> 'w com_state" where
  "not_windows_get_vm_worker_process s = (None, s)"

section \<open>hdv::vmworker\<close>

definition HR_MOD_NOT_FOUND :: HRESULT where
  "HR_MOD_NOT_FOUND = 0x8007007E"

definition ensure_mta :: "'w worker_api \<Rightarrow> 'w com_state \<Rightarrow> 'w com_state" where
  "ensure_mta wapi s =
     (if once_mta s then s
      else (snd (on_proc (on_platform (CoIncrementMTAUsage wapi)) s))\<lparr>once_mta := True\<rparr>)"

definition ComGuard_drop :: "'w worker_api \<Rightarrow> ptr \<Rightarrow> 'w com_state \<Rightarrow> 'w com_state" where
  "ComGuard_drop wapi p s = (if p \<noteq> 0 then snd (on_proc (on_platform (Release wapi p)) s) else s)"

text \<open>
  The body of \<open>connect\<close> in its three scopes: a guard's scope ends with the release of its pointer, on
  the error exits as on the good one, the inner guard first.
\<close>

definition query_notification ::
  "'w worker_api \<Rightarrow> ptr \<Rightarrow> 'w com_state \<Rightarrow> (HRESULT + ptr) \<times> 'w com_state" where
  "query_notification wapi device s =
     (case on_proc (checked_out (QueryInterface wapi device IID_IVM_FIOV_GUEST_MEMORY_FAST_NOTIFICATION)) s of
        (Inl e, s) \<Rightarrow> (Inl e, s)
      | (Inr notif_raw, s) \<Rightarrow> (if notif_raw = 0 then Inl E_NOINTERFACE else Inr notif_raw, s))"

definition connect_device ::
  "'w worker_api \<Rightarrow> ptr \<Rightarrow> guid \<Rightarrow> 'w com_state \<Rightarrow> (HRESULT + ptr) \<times> 'w com_state" where
  "connect_device wapi access instance_id s =
     (case on_proc (checked_out (GetDevice wapi access FLEXIO_DEVICE_ID instance_id)) s of
        (Inl e, s) \<Rightarrow> (Inl e, s)
      | (Inr device_raw, s) \<Rightarrow>
          if device_raw = 0 then (Inl E_NOINTERFACE, s)
          else (case query_notification wapi device_raw s of
                  (r, s) \<Rightarrow> (r, ComGuard_drop wapi device_raw s)))"

definition FiovDoorbells_connect ::
  "'w worker_api \<Rightarrow> guid \<Rightarrow> guid \<Rightarrow> 'w com_state \<Rightarrow> (HRESULT + ptr) \<times> 'w com_state" where
  "FiovDoorbells_connect wapi runtime_id instance_id s =
     (case get_vm_worker_process wapi (ensure_mta wapi s) of
        (None, s) \<Rightarrow> (Inl HR_MOD_NOT_FOUND, s)
      | (Some get_worker, s) \<Rightarrow>
          (case on_proc (checked_out (GetVmWorkerProcess wapi get_worker runtime_id IID_IVM_VIRTUAL_DEVICE_ACCESS)) s of
             (Inl e, s) \<Rightarrow> (Inl e, s)
           | (Inr access_raw, s) \<Rightarrow>
               if access_raw = 0 then (Inl E_NOINTERFACE, s)
               else (case connect_device wapi access_raw instance_id s of
                       (r, s) \<Rightarrow> (r, ComGuard_drop wapi access_raw s))))"

definition worker_register_doorbell ::
  "'w worker_api \<Rightarrow> ptr \<Rightarrow> HDV_PCI_BAR_SELECTOR \<Rightarrow> u64 \<Rightarrow> u64 \<Rightarrow> u64 \<Rightarrow> HANDLE \<Rightarrow>
     'w process \<Rightarrow> (HRESULT + unit) \<times> 'w process" where
  "worker_register_doorbell wapi notification bar offset trigger_value flgs event =
     checked (RegisterDoorbell wapi notification (fiov_bar bar) offset trigger_value flgs event)"

definition worker_unregister_doorbell ::
  "'w worker_api \<Rightarrow> ptr \<Rightarrow> HDV_PCI_BAR_SELECTOR \<Rightarrow> u64 \<Rightarrow> u64 \<Rightarrow> u64 \<Rightarrow>
     'w process \<Rightarrow> (HRESULT + unit) \<times> 'w process" where
  "worker_unregister_doorbell wapi notification bar offset trigger_value flgs =
     checked (UnregisterDoorbell wapi notification (fiov_bar bar) offset trigger_value flgs)"

definition FiovDoorbells_drop :: "'w worker_api \<Rightarrow> ptr \<Rightarrow> 'w com_state \<Rightarrow> 'w com_state" where
  "FiovDoorbells_drop wapi notification s = snd (on_proc (on_platform (Release wapi notification)) s)"

section \<open>References\<close>

text \<open>
  The COM rule on out parameters: a successful call that hands out a non-null pointer hands out one
  reference with it, a failed one hands out none, \<open>Release\<close> takes one back. \<open>refs\<close> reads the
  references the process holds off the platform's state.
\<close>

definition com_out_rule :: "('w \<Rightarrow> ptr multiset) \<Rightarrow> ('w \<Rightarrow> (HRESULT \<times> ptr) \<times> 'w) \<Rightarrow> bool" where
  "com_out_rule refs f \<longleftrightarrow>
     (\<forall>w c p w'. f w = ((c, p), w') \<longrightarrow> refs w' = refs w + (if failed c \<or> p = 0 then {#} else {#p#}))"

definition com_rules :: "'w worker_api \<Rightarrow> ('w \<Rightarrow> ptr multiset) \<Rightarrow> bool" where
  "com_rules wapi refs \<longleftrightarrow>
     (\<forall>f r i. com_out_rule refs (GetVmWorkerProcess wapi f r i)) \<and>
     (\<forall>a c i. com_out_rule refs (GetDevice wapi a c i)) \<and>
     (\<forall>d i. com_out_rule refs (QueryInterface wapi d i)) \<and>
     (\<forall>p w. refs (snd (Release wapi p w)) = refs w - {#p#}) \<and>
     (\<forall>w. refs (snd (CoIncrementMTAUsage wapi w)) = refs w) \<and>
     (\<forall>n w. refs (snd (LoadLibraryW wapi n w)) = refs w) \<and>
     (\<forall>m n w. refs (snd (GetProcAddress wapi m n w)) = refs w)"

lemma on_proc_eq: "on_proc f s = (fst (f (com_proc s)), s\<lparr>com_proc := snd (f (com_proc s))\<rparr>)"
  by (simp add: on_proc_def case_prod_beta)

lemma com_out_refs:
  assumes "com_out_rule refs f" "on_proc (checked_out f) s = (r, s')"
  shows "refs (world s') = refs (world s) + (case r of Inl _ \<Rightarrow> {#} | Inr p \<Rightarrow> if p = 0 then {#} else {#p#})"
proof -
  obtain c p w' where f: "f (world s) = ((c, p), w')" by (metis surj_pair)
  then have "refs w' = refs (world s) + (if failed c \<or> p = 0 then {#} else {#p#})"
    using assms(1) by (auto simp: com_out_rule_def)
  then show ?thesis using assms(2) f by (auto simp: on_proc_eq checked_out_eq)
qed

lemma ComGuard_drop_refs:
  "com_rules wapi refs \<Longrightarrow> p \<noteq> 0 \<Longrightarrow> refs (world (ComGuard_drop wapi p s)) = refs (world s) - {#p#}"
  by (simp add: ComGuard_drop_def com_rules_def on_proc_eq on_platform_eq)

abbreviation owned :: "HRESULT + ptr \<Rightarrow> ptr multiset" where
  "owned r \<equiv> case_sum (\<lambda>_. {#}) (\<lambda>n. {#n#}) r"

lemma query_notification_refs:
  assumes "com_rules wapi refs" "query_notification wapi d s = (r, s')"
  shows "refs (world s') = refs (world s) + owned r \<and> r \<noteq> Inr 0"
proof -
  obtain q t where q: "on_proc (checked_out (QueryInterface wapi d IID_IVM_FIOV_GUEST_MEMORY_FAST_NOTIFICATION)) s = (q, t)"
    by (metis surj_pair)
  then show ?thesis
    using com_out_refs [OF _ q, of refs] assms
    by (auto simp: query_notification_def com_rules_def split: sum.splits if_splits)
qed

lemma connect_device_refs:
  assumes "com_rules wapi refs" "connect_device wapi a i s = (r, s')"
  shows "refs (world s') = refs (world s) + owned r \<and> r \<noteq> Inr 0"
proof -
  obtain q t where q: "on_proc (checked_out (GetDevice wapi a FLEXIO_DEVICE_ID i)) s = (q, t)" by (metis surj_pair)
  have refs: "refs (world t) = refs (world s) + (case q of Inl _ \<Rightarrow> {#} | Inr p \<Rightarrow> if p = 0 then {#} else {#p#})"
    using assms(1) com_out_refs [OF _ q, of refs] by (simp add: com_rules_def)
  show ?thesis
  proof (cases "\<exists>p. q = Inr p \<and> p \<noteq> 0")
    case True
    then obtain p n u where "q = Inr p" "p \<noteq> 0" and n: "query_notification wapi p t = (n, u)" by (metis surj_pair)
    with assms(2) q refs query_notification_refs [OF assms(1) n] ComGuard_drop_refs [OF assms(1), of p u]
    show ?thesis by (auto simp: connect_device_def)
  next
    case False
    with assms(2) q refs show ?thesis by (auto simp: connect_device_def split: sum.splits)
  qed
qed

lemma get_worker_refs:
  assumes "com_rules wapi refs"
  shows "refs (world (snd (get_vm_worker_process wapi (ensure_mta wapi s)))) = refs (world s)"
  using assms
  by (auto simp: get_vm_worker_process_def ensure_mta_def com_rules_def on_proc_eq on_platform_eq Let_def
      split: option.splits)

lemma connect_refs:
  assumes "com_rules wapi refs" "FiovDoorbells_connect wapi rid i s = (r, s')"
  shows "refs (world s') = refs (world s) + owned r \<and> r \<noteq> Inr 0"
proof -
  obtain f t where f: "get_vm_worker_process wapi (ensure_mta wapi s) = (f, t)" by (metis surj_pair)
  have t: "refs (world t) = refs (world s)" using get_worker_refs [OF assms(1), of s] f by simp
  show ?thesis
  proof (cases f)
    case None
    with assms(2) f t show ?thesis by (auto simp: FiovDoorbells_connect_def)
  next
    case (Some g)
    obtain q u where q: "on_proc (checked_out (GetVmWorkerProcess wapi g rid IID_IVM_VIRTUAL_DEVICE_ACCESS)) t = (q, u)"
      by (metis surj_pair)
    have refs: "refs (world u) = refs (world t) + (case q of Inl _ \<Rightarrow> {#} | Inr p \<Rightarrow> if p = 0 then {#} else {#p#})"
      using assms(1) com_out_refs [OF _ q, of refs] by (simp add: com_rules_def)
    show ?thesis
    proof (cases "\<exists>p. q = Inr p \<and> p \<noteq> 0")
      case True
      then obtain p n v where "q = Inr p" "p \<noteq> 0" and n: "connect_device wapi p i u = (n, v)" by (metis surj_pair)
      with assms(2) f Some q t refs connect_device_refs [OF assms(1) n] ComGuard_drop_refs [OF assms(1), of p v]
      show ?thesis by (auto simp: FiovDoorbells_connect_def)
    next
      case False
      with assms(2) f Some q t refs show ?thesis by (auto simp: FiovDoorbells_connect_def split: sum.splits)
    qed
  qed
qed

text \<open>The cells, once filled, keep their content, and a filled cell saves the lookup.\<close>

lemma once_on_proc [simp]: "once_fn (snd (on_proc f s)) = once_fn s" "once_mta (snd (on_proc f s)) = once_mta s"
  by (simp_all add: on_proc_eq)

lemma once_ComGuard_drop [simp]:
  "once_fn (ComGuard_drop wapi p s) = once_fn s" "once_mta (ComGuard_drop wapi p s) = once_mta s"
  by (simp_all add: ComGuard_drop_def)

lemma once_connect_device [simp]:
  "once_fn (snd (connect_device wapi a i s)) = once_fn s" "once_mta (snd (connect_device wapi a i s)) = once_mta s"
  by (auto simp: connect_device_def query_notification_def on_proc_eq split: sum.splits prod.splits)

lemma once_get_worker:
  "once_fn (snd (get_vm_worker_process wapi s)) = Some (fst (get_vm_worker_process wapi s)) \<and>
   once_mta (snd (get_vm_worker_process wapi s)) = once_mta s"
  by (auto simp: get_vm_worker_process_def on_proc_eq Let_def split: option.splits prod.splits)

lemma once_connect:
  assumes "FiovDoorbells_connect wapi rid i s = (r, s')"
  shows "once_fn s' \<noteq> None" "once_mta s'"
proof -
  obtain f t where f: "get_vm_worker_process wapi (ensure_mta wapi s) = (f, t)" by (metis surj_pair)
  then have t: "once_fn t = Some f" "once_mta t"
    using once_get_worker [of wapi "ensure_mta wapi s"] by (auto simp: ensure_mta_def)
  have "once_fn s' = once_fn t \<and> once_mta s' = once_mta t"
    using assms f
    by (auto simp: FiovDoorbells_connect_def split: option.splits sum.splits prod.splits if_splits)
      (metis once_on_proc once_connect_device once_ComGuard_drop snd_conv)+
  with t show "once_fn s' \<noteq> None" "once_mta s'" by simp_all
qed

lemma vtable_slots:
  "IVmVirtualDeviceAccessVtbl ! 4 = ''GetDevice''" "IVmFiovGuestMemoryFastNotificationVtbl ! 3 = ''RegisterDoorbell''"
  "fiov_bar bar = FIOV_BARS ! bar_discriminant bar"
  by (simp_all add: IVmVirtualDeviceAccessVtbl_def IVmFiovGuestMemoryFastNotificationVtbl_def IUnknownVtbl_def
      fiov_bar_def FIOV_BARS_def) (cases bar; simp)

text \<open>
  C33. Connecting to the worker leaks nothing. Whatever the worker answers, the only reference the
  process holds afterwards that it did not hold before is the one in the returned connection, which
  is never null and which dropping the connection gives back; the apartment is pinned and the export
  resolved at most once, later lookups making no call.
\<close>

theorem connect_balanced:
  assumes "com_rules wapi refs" "FiovDoorbells_connect wapi runtime_id instance_id s = (r, s')"
  shows "refs (world s') = refs (world s) + owned r \<and> r \<noteq> Inr 0 \<and>
    (r = Inr n \<longrightarrow> refs (world (FiovDoorbells_drop wapi n s')) = refs (world s)) \<and>
    ensure_mta wapi s' = s' \<and> snd (get_vm_worker_process wapi s') = s'"
proof -
  note c = connect_refs [OF assms]
  moreover have "refs (world (FiovDoorbells_drop wapi n s')) = refs (world s') - {#n#}"
    using assms(1) by (simp add: FiovDoorbells_drop_def com_rules_def on_proc_eq on_platform_eq)
  moreover have "ensure_mta wapi s' = s'" "snd (get_vm_worker_process wapi s') = s'"
    using once_connect [OF assms(2)] by (auto simp: ensure_mta_def get_vm_worker_process_def)
  ultimately show ?thesis by auto
qed

text \<open>A platform that answers every call and counts references.\<close>

definition counting_worker :: "ptr multiset worker_api" where
  "counting_worker =
     \<lparr>LoadLibraryW = (\<lambda>_ w. (1, w)), GetProcAddress = (\<lambda>_ _ w. (2, w)), CoIncrementMTAUsage = (\<lambda>w. (S_OK, w)),
      GetVmWorkerProcess = (\<lambda>_ _ _ w. ((S_OK, 11), add_mset 11 w)), GetDevice = (\<lambda>_ _ _ w. ((S_OK, 12), add_mset 12 w)),
      QueryInterface = (\<lambda>_ _ w. ((S_OK, 13), add_mset 13 w)), Release = (\<lambda>p w. (0, w - {#p#})),
      RegisterDoorbell = (\<lambda>_ _ _ _ _ _ w. (S_OK, w)), UnregisterDoorbell = (\<lambda>_ _ _ _ _ w. (S_OK, w))\<rparr>"

lemma counting_worker_rules: "com_rules counting_worker (\<lambda>w. w)"
  by (simp add: com_rules_def com_out_rule_def counting_worker_def)

theorem connect_balanced_witness:
  "world (snd (FiovDoorbells_connect counting_worker FLEXIO_DEVICE_ID FLEXIO_DEVICE_ID
      \<lparr>com_proc = \<lparr>flags = (\<lambda>_. True), next_flag = 0, platform = {#}\<rparr>, once_mta = False, once_fn = None\<rparr>)) = {#13#}"
proof -
  let ?s = "\<lparr>com_proc = \<lparr>flags = (\<lambda>_. True), next_flag = 0, platform = {#}\<rparr>, once_mta = False, once_fn = None\<rparr>"
  obtain r s' where c: "FiovDoorbells_connect counting_worker FLEXIO_DEVICE_ID FLEXIO_DEVICE_ID ?s = (r, s')"
    by (metis surj_pair)
  have "r = Inr 13"
    using c by (simp add: FiovDoorbells_connect_def connect_device_def query_notification_def ensure_mta_def
        get_vm_worker_process_def on_proc_eq on_platform_eq checked_out_eq counting_worker_def Let_def)
  then show ?thesis using connect_balanced [OF counting_worker_rules c, of 13] c by simp
qed

end
