(* ===== verification/Req_Stats.thy ===== *)
theory Req_Stats
  imports Prelude
begin

text \<open>
  The request-path profile of \<open>virtio-hdv/src/reqstats.rs\<close>. An \<open>Instant\<close> is a number of microseconds;
  the operations that read the clock take the current instant as an argument. The counters are
  relaxed atomics that only add or take a maximum, so each operation is one function on the counters;
  the events it logs are collected with their fields. Shown: with the profile off nothing is
  recorded or logged, and with it on the counters are the exact sums, counts and maxima (modulo
  \<open>2^64\<close>).
\<close>

section \<open>Stages\<close>

definition STATS_EVERY :: u64 where
  "STATS_EVERY = 4096"

definition STATS_EVERY_MS :: u64 where
  "STATS_EVERY_MS = 500"

record stage_stat =
  sum_us :: u64
  st_count :: u64
  max_us :: u64

definition StageStat_default :: stage_stat where
  "StageStat_default = \<lparr>sum_us = 0, st_count = 0, max_us = 0\<rparr>"

definition record_us :: "u64 \<Rightarrow> stage_stat \<Rightarrow> stage_stat" where
  "record_us us s = \<lparr>sum_us = sum_us s + us, st_count = st_count s + 1, max_us = max (max_us s) us\<rparr>"

definition count_now :: "stage_stat \<Rightarrow> u64" where
  "count_now s = st_count s"

definition mean_us :: "stage_stat \<Rightarrow> u64" where
  "mean_us s = (if st_count s = 0 then 0 else sum_us s div st_count s)"

definition stage_max :: "stage_stat \<Rightarrow> u64" where
  "stage_max s = max_us s"

section \<open>The counters\<close>

type_synonym instant = nat

record req_stats =
  rq_enabled :: bool
  st_pop :: stage_stat
  st_inline :: stage_stat
  st_pool :: stage_stat
  st_pool_wait :: stage_stat
  st_done_hop :: stage_stat
  st_complete :: stage_stat
  st_deliver :: stage_stat
  batch_items :: u64
  batch_max :: u64
  lone_batches :: u64
  rq_start :: instant
  last_emit_ms :: u64
  rq_log :: "(string \<times> (string \<times> u64) list) list"

definition ReqStats_new :: "bool \<Rightarrow> instant \<Rightarrow> req_stats" where
  "ReqStats_new env_set t =
     \<lparr>rq_enabled = env_set, st_pop = StageStat_default, st_inline = StageStat_default,
      st_pool = StageStat_default, st_pool_wait = StageStat_default, st_done_hop = StageStat_default,
      st_complete = StageStat_default, st_deliver = StageStat_default, batch_items = 0, batch_max = 0,
      lone_batches = 0, rq_start = t, last_emit_ms = 0, rq_log = []\<rparr>"

definition stats_now :: "instant \<Rightarrow> req_stats \<Rightarrow> instant option" where
  "stats_now t r = (if rq_enabled r then Some t else None)"

definition stats_rec :: "instant \<Rightarrow> instant option \<Rightarrow> stage_stat \<Rightarrow> stage_stat" where
  "stats_rec t t0 s = (case t0 of None \<Rightarrow> s | Some t0 \<Rightarrow> record_us (of_nat (t - t0)) s)"

definition rec_pop :: "instant \<Rightarrow> instant option \<Rightarrow> usize \<Rightarrow> req_stats \<Rightarrow> req_stats" where
  "rec_pop t t0 items r =
     (let r = (if t0 \<noteq> None
               then r\<lparr>batch_items := batch_items r + items, batch_max := max (batch_max r) items,
                      lone_batches := (if items = 1 then lone_batches r + 1 else lone_batches r)\<rparr>
               else r)
      in r\<lparr>st_pop := stats_rec t t0 (st_pop r)\<rparr>)"

definition rec_inline :: "instant \<Rightarrow> instant option \<Rightarrow> req_stats \<Rightarrow> req_stats" where
  "rec_inline t t0 r = r\<lparr>st_inline := stats_rec t t0 (st_inline r)\<rparr>"

definition rec_pool :: "instant \<Rightarrow> instant option \<Rightarrow> req_stats \<Rightarrow> req_stats" where
  "rec_pool t t0 r = r\<lparr>st_pool := stats_rec t t0 (st_pool r)\<rparr>"

definition rec_pool_wait :: "instant \<Rightarrow> instant option \<Rightarrow> req_stats \<Rightarrow> req_stats" where
  "rec_pool_wait t t0 r = r\<lparr>st_pool_wait := stats_rec t t0 (st_pool_wait r)\<rparr>"

definition rec_done_hop :: "instant \<Rightarrow> instant option \<Rightarrow> req_stats \<Rightarrow> req_stats" where
  "rec_done_hop t t0 r = r\<lparr>st_done_hop := stats_rec t t0 (st_done_hop r)\<rparr>"

definition rec_deliver :: "instant \<Rightarrow> instant option \<Rightarrow> req_stats \<Rightarrow> req_stats" where
  "rec_deliver t t0 r = r\<lparr>st_deliver := stats_rec t t0 (st_deliver r)\<rparr>"

definition stats_emit :: "string \<Rightarrow> req_stats \<Rightarrow> req_stats" where
  "stats_emit phase r = r\<lparr>rq_log := rq_log r @ [(phase,
     [(''ops'', count_now (st_complete r)), (''batches'', count_now (st_pop r)),
      (''batch_items'', batch_items r), (''batch_max'', batch_max r), (''lone_batches'', lone_batches r),
      (''pop_mean_us'', mean_us (st_pop r)),
      (''inline_n'', count_now (st_inline r)), (''inline_mean_us'', mean_us (st_inline r)),
      (''inline_max_us'', stage_max (st_inline r)),
      (''pool_n'', count_now (st_pool r)), (''pool_mean_us'', mean_us (st_pool r)),
      (''pool_max_us'', stage_max (st_pool r)),
      (''pool_wait_mean_us'', mean_us (st_pool_wait r)), (''pool_wait_max_us'', stage_max (st_pool_wait r)),
      (''done_hop_mean_us'', mean_us (st_done_hop r)), (''done_hop_max_us'', stage_max (st_done_hop r)),
      (''complete_mean_us'', mean_us (st_complete r)), (''complete_max_us'', stage_max (st_complete r)),
      (''delivers'', count_now (st_deliver r)), (''deliver_mean_us'', mean_us (st_deliver r)),
      (''deliver_max_us'', stage_max (st_deliver r))])]\<rparr>"

text \<open>
  The compare-and-exchange of the wall-clock test is the uncontended one: the load and the exchange
  see the same stamp.
\<close>

definition maybe_emit :: "instant \<Rightarrow> req_stats \<Rightarrow> req_stats" where
  "maybe_emit t r =
     (let n = count_now (st_complete r);
          due_by_ops = (n mod STATS_EVERY = 0);
          elapsed = of_nat ((t - rq_start r) div 1000);
          due_by_time = (STATS_EVERY_MS \<le> saturating_sub elapsed (last_emit_ms r));
          r = (if due_by_time then r\<lparr>last_emit_ms := elapsed\<rparr> else r)
      in if due_by_ops \<or> due_by_time then stats_emit ''periodic'' r else r)"

definition rec_complete :: "instant \<Rightarrow> instant option \<Rightarrow> req_stats \<Rightarrow> req_stats" where
  "rec_complete t t0 r =
     (let r = r\<lparr>st_complete := stats_rec t t0 (st_complete r)\<rparr>
      in if t0 \<noteq> None then maybe_emit t r else r)"

definition emit_final :: "req_stats \<Rightarrow> req_stats" where
  "emit_final r = (if rq_enabled r then stats_emit ''final'' r else r)"

section \<open>Exactness\<close>

lemma record_us_fold:
  "sum_us (fold record_us us s) = sum_us s + sum_list us \<and>
   st_count (fold record_us us s) = st_count s + of_nat (length us) \<and>
   max_us (fold record_us us s) = fold max us (max_us s)"
proof (induction us arbitrary: s)
  case (Cons u us)
  then show ?case by (simp add: record_us_def max.commute)
qed simp

lemma rec_None:
  "rec_pop t None n r = r" "rec_inline t None r = r" "rec_pool t None r = r" "rec_pool_wait t None r = r"
  "rec_done_hop t None r = r" "rec_deliver t None r = r" "rec_complete t None r = r"
  by (simp_all add: rec_pop_def rec_inline_def rec_pool_def rec_pool_wait_def rec_done_hop_def
      rec_deliver_def rec_complete_def stats_rec_def)

lemma unat_sum_list:
  fixes us :: "'a::len word list"
  shows "sum_list (map unat us) < 2 ^ LENGTH('a) \<Longrightarrow> unat (sum_list us) = sum_list (map unat us)"
  by (induction us) (simp_all add: unat_word_ariths)

lemma fold_max_word: "fold max us m = Max (insert m (set us))" for m :: "'a::len word"
  by (simp only: Max.set_eq_fold set_simps [symmetric] list.set(2) [symmetric] foldr_conv_fold)

text \<open>
  The profile. Switched off, no timer starts and no recorder changes anything; switched on, a
  stage that recorded the samples \<open>us\<close> (their sum below \<open>2^64\<close>) reports their number, their maximum
  and the integer mean, which is 0 when there is no sample.
\<close>

lemma req_stats_exact:
  assumes "sum_list (map unat us) < 2 ^ 64" "length us < 2 ^ 64"
  shows "unat (count_now (fold record_us us StageStat_default)) = length us \<and>
    unat (mean_us (fold record_us us StageStat_default)) =
      (if us = [] then 0 else sum_list (map unat us) div length us) \<and>
    stage_max (fold record_us us StageStat_default) = Max (insert 0 (set us)) \<and>
    (\<not> rq_enabled r \<longrightarrow> (let t0 = stats_now t r in
       t0 = None \<and> rec_pop t' t0 n r = r \<and> rec_inline t' t0 r = r \<and> rec_pool t' t0 r = r \<and>
       rec_pool_wait t' t0 r = r \<and> rec_done_hop t' t0 r = r \<and> rec_deliver t' t0 r = r \<and>
       rec_complete t' t0 r = r \<and> emit_final r = r))"
proof (intro conjI impI)
  note f = record_us_fold [of us StageStat_default]
  have c: "st_count (fold record_us us StageStat_default) = of_nat (length us)"
    and s: "sum_us (fold record_us us StageStat_default) = sum_list us"
    using f by (simp_all add: StageStat_default_def)
  have len: "unat (of_nat (length us) :: u64) = length us" using assms(2) by (simp add: unat_of_nat_small)
  show "unat (count_now (fold record_us us StageStat_default)) = length us"
    using len by (simp add: count_now_def c)
  have "(of_nat (length us) :: u64) = 0 \<longleftrightarrow> us = []"
    using len by (auto simp del: length_greater_0_conv)
  then show "unat (mean_us (fold record_us us StageStat_default)) =
      (if us = [] then 0 else sum_list (map unat us) div length us)"
    using len unat_sum_list [of us] assms(1) by (simp add: mean_us_def c s unat_div)
  show "stage_max (fold record_us us StageStat_default) = Max (insert 0 (set us))"
    using f unfolding stage_max_def fold_max_word by (simp add: StageStat_default_def)
  assume "\<not> rq_enabled r"
  then show "let t0 = stats_now t r in
       t0 = None \<and> rec_pop t' t0 n r = r \<and> rec_inline t' t0 r = r \<and> rec_pool t' t0 r = r \<and>
       rec_pool_wait t' t0 r = r \<and> rec_done_hop t' t0 r = r \<and> rec_deliver t' t0 r = r \<and>
       rec_complete t' t0 r = r \<and> emit_final r = r"
    by (simp add: stats_now_def rec_None emit_final_def)
qed

lemma req_stats_exact_example:
  "unat (mean_us (fold record_us [100, 300, 20] StageStat_default)) = 140 \<and>
   stage_max (fold record_us [100, 300, 20] StageStat_default) = 300"
  using req_stats_exact [of "[100, 300, 20]"] by simp

end
