(* ===== verification/Interrupt.thy ===== *)
theory Interrupt
  imports Hdv Req_Stats
begin

text \<open>
  MSI delivery: the late-bound device handle (\<open>virtio-hdv/src/handle.rs\<close>), the log of delivered
  pairs and the signal path (\<open>interrupt.rs\<close>), and the re-arm net (\<open>RearmNet\<close> of \<open>lib.rs\<close>), a thread
  that runs beside the signal path until its owner stops and joins it. The signal path is a function
  on the shared cells and the platform; the net is a step relation. Shown: what a signal does on both
  branches, that the log stays free of duplicates, that a pass of the net delivers every pair that was
  in the log when the pass began, and that the join waits for the last delivery and always returns.
\<close>

section \<open>The device handle\<close>

definition DeviceHandle_new :: HDV_DEVICE where
  "DeviceHandle_new = 0"

definition DeviceHandle_set :: "HDV_DEVICE \<Rightarrow> HDV_DEVICE \<Rightarrow> HDV_DEVICE" where
  "DeviceHandle_set device cell = device"

definition DeviceHandle_get :: "HDV_DEVICE \<Rightarrow> HDV_DEVICE option" where
  "DeviceHandle_get cell = (if cell = 0 then None else Some cell)"

section \<open>The log\<close>

type_synonym msi = "u64 \<times> u32"

text \<open>Times are milliseconds on the clock the log was created by.\<close>

record interrupt_log =
  pairs :: "msi list"
  log_start :: nat
  last_activity_ms :: u64

definition InterruptLog_new :: "nat \<Rightarrow> interrupt_log" where
  "InterruptLog_new now = \<lparr>pairs = [], log_start = now, last_activity_ms = 0\<rparr>"

definition add_pair :: "msi \<Rightarrow> msi list \<Rightarrow> msi list" where
  "add_pair p ps = (if p \<in> set ps then ps else ps @ [p])"

definition record_msi :: "nat \<Rightarrow> msi \<Rightarrow> interrupt_log \<Rightarrow> interrupt_log" where
  "record_msi now p l =
     l\<lparr>pairs := add_pair p (pairs l), last_activity_ms := of_nat (now - log_start l)\<rparr>"

definition snapshot_into :: "interrupt_log \<Rightarrow> msi list \<Rightarrow> msi list" where
  "snapshot_into l buf = (let buf = [] in buf @ pairs l)"

definition idle_ms :: "nat \<Rightarrow> interrupt_log \<Rightarrow> u64" where
  "idle_ms now l = saturating_sub (of_nat (now - log_start l)) (last_activity_ms l)"

section \<open>The signal path\<close>

record 'w msi_path =
  msi_handle :: HDV_DEVICE
  seen :: interrupt_log
  msi_stats :: req_stats
  msi_process :: "'w process"

text \<open>\<open>now\<close> is the clock in milliseconds, \<open>t0\<close> and \<open>t1\<close> the two readings of the profile's timer.\<close>

definition signal_msi ::
  "'w hdv_api \<Rightarrow> nat \<Rightarrow> instant \<Rightarrow> instant \<Rightarrow> u64 \<Rightarrow> u32 \<Rightarrow> 'w msi_path \<Rightarrow> 'w msi_path" where
  "signal_msi api now t0 t1 address data s =
     (case DeviceHandle_get (msi_handle s) of
        None \<Rightarrow> s
      | Some device \<Rightarrow>
          (let s = s\<lparr>seen := record_msi now (address, data) (seen s)\<rparr>;
               t_deliver = stats_now t0 (msi_stats s)
           in case deliver_interrupt api device address data (msi_process s) of
                (r, p) \<Rightarrow> s\<lparr>msi_process := p, msi_stats := rec_deliver t1 t_deliver (msi_stats s)\<rparr>))"

section \<open>The re-arm net\<close>

definition REARM_TICK_ACTIVE :: nat where
  "REARM_TICK_ACTIVE = 5"

definition REARM_TICK_IDLE :: nat where
  "REARM_TICK_IDLE = 50"

definition REARM_ACTIVE_WINDOW_MS :: u64 where
  "REARM_ACTIVE_WINDOW_MS = 100"

definition rearm_tick :: "u64 \<Rightarrow> nat" where
  "rearm_tick idle = (if idle \<le> REARM_ACTIVE_WINDOW_MS then REARM_TICK_ACTIVE else REARM_TICK_IDLE)"

datatype rearm_pc = CheckStop | Sleep nat | Deliver HDV_DEVICE "msi list" | Exited

text \<open>
  \<open>injected\<close> is the trace of the net's calls of \<open>deliver_interrupt\<close> with their device; \<open>joined\<close> says
  that the owner's drop has returned.
\<close>

record rearm_net =
  rpc :: rearm_pc
  stop :: bool
  joined :: bool
  rearm_handle :: HDV_DEVICE
  rearm_seen :: interrupt_log
  buf :: "msi list"
  injected :: "(HDV_DEVICE \<times> msi) list"

definition RearmNet_spawn :: "HDV_DEVICE \<Rightarrow> interrupt_log \<Rightarrow> rearm_net" where
  "RearmNet_spawn handle l =
     \<lparr>rpc = CheckStop, stop = False, joined = False, rearm_handle = handle, rearm_seen = l, buf = [],
      injected = []\<rparr>"

inductive rearm_thread :: "rearm_net \<Rightarrow> rearm_net \<Rightarrow> bool" where
  leave: "rpc s = CheckStop \<Longrightarrow> stop s \<Longrightarrow> rearm_thread s (s\<lparr>rpc := Exited\<rparr>)"
| doze: "rpc s = CheckStop \<Longrightarrow> \<not> stop s \<Longrightarrow>
    rearm_thread s (s\<lparr>rpc := Sleep (rearm_tick (idle_ms now (rearm_seen s)))\<rparr>)"
| unbound: "rpc s = Sleep n \<Longrightarrow> DeviceHandle_get (rearm_handle s) = None \<Longrightarrow>
    rearm_thread s (s\<lparr>rpc := CheckStop\<rparr>)"
| snapshot: "rpc s = Sleep n \<Longrightarrow> DeviceHandle_get (rearm_handle s) = Some d \<Longrightarrow>
    rearm_thread s (s\<lparr>buf := snapshot_into (rearm_seen s) (buf s),
      rpc := Deliver d (snapshot_into (rearm_seen s) (buf s))\<rparr>)"
| inject: "rpc s = Deliver d (p # ps) \<Longrightarrow>
    rearm_thread s (s\<lparr>rpc := Deliver d ps, injected := injected s @ [(d, p)]\<rparr>)"
| pass_end: "rpc s = Deliver d [] \<Longrightarrow> rearm_thread s (s\<lparr>rpc := CheckStop\<rparr>)"

text \<open>The others: the signal path records pairs, the owner's drop stores the flag and then joins.\<close>

inductive rearm_env :: "rearm_net \<Rightarrow> rearm_net \<Rightarrow> bool" where
  signal: "DeviceHandle_get (rearm_handle s) \<noteq> None \<Longrightarrow>
    rearm_env s (s\<lparr>rearm_seen := record_msi now p (rearm_seen s)\<rparr>)"
| drop_stop: "rearm_env s (s\<lparr>stop := True\<rparr>)"
| drop_join: "stop s \<Longrightarrow> rpc s = Exited \<Longrightarrow> rearm_env s (s\<lparr>joined := True\<rparr>)"

definition rearm_step :: "rearm_net \<Rightarrow> rearm_net \<Rightarrow> bool" where
  "rearm_step s t \<longleftrightarrow> rearm_thread s t \<or> rearm_env s t"

section \<open>Facts\<close>

lemma distinct_add_pair [simp]: "distinct (add_pair p ps) \<longleftrightarrow> distinct ps"
  by (auto simp: add_pair_def)

lemma set_add_pair [simp]: "set (add_pair p ps) = insert p (set ps)"
  by (auto simp: add_pair_def)

definition rearm_inv :: "rearm_net \<Rightarrow> bool" where
  "rearm_inv s \<longleftrightarrow> distinct (pairs (rearm_seen s)) \<and> snd ` set (injected s) \<subseteq> set (pairs (rearm_seen s)) \<and>
     (\<forall>d ps. rpc s = Deliver d ps \<longrightarrow> set ps \<subseteq> set (pairs (rearm_seen s)) \<and>
       length ps \<le> length (pairs (rearm_seen s)) \<and> d \<noteq> 0) \<and>
     (\<forall>n. rpc s = Sleep n \<longrightarrow> n \<in> {5, 50}) \<and>
     (rpc s = Exited \<longrightarrow> stop s) \<and> (joined s \<longrightarrow> rpc s = Exited) \<and> (\<forall>x \<in> set (injected s). fst x \<noteq> 0)"

lemma rearm_thread_inv: "rearm_thread s t \<Longrightarrow> rearm_inv s \<Longrightarrow> rearm_inv t"
  by (induction rule: rearm_thread.induct)
    (auto simp: rearm_inv_def snapshot_into_def rearm_tick_def REARM_TICK_ACTIVE_def REARM_TICK_IDLE_def
      DeviceHandle_get_def split: if_splits)

lemma rearm_env_inv: "rearm_env s t \<Longrightarrow> rearm_inv s \<Longrightarrow> rearm_inv t"
  by (induction rule: rearm_env.induct) (auto simp: rearm_inv_def record_msi_def add_pair_def)

interpretation rearm: safe_machine "\<lambda>s. s = RearmNet_spawn h (InterruptLog_new now)" rearm_step rearm_inv
proof unfold_locales
  fix s assume "s = RearmNet_spawn h (InterruptLog_new now)"
  then show "rearm_inv s" by (simp add: rearm_inv_def RearmNet_spawn_def InterruptLog_new_def)
next
  fix s t assume "rearm_inv s" "rearm_step s t"
  then show "rearm_inv t" unfolding rearm_step_def by (blast intro: rearm_thread_inv rearm_env_inv)
qed

text \<open>How far the thread is from the exit once the flag is set.\<close>

fun steps_left :: "nat \<Rightarrow> rearm_pc \<Rightarrow> nat" where
  "steps_left n CheckStop = 1"
| "steps_left n (Sleep _) = n + 3"
| "steps_left n (Deliver d ps) = length ps + 2"
| "steps_left n Exited = 0"

lemma thread_progress:
  assumes "stop s" "rearm_thread s t"
  shows "steps_left (length (pairs (rearm_seen t))) (rpc t) < steps_left (length (pairs (rearm_seen s))) (rpc s) \<and>
    stop t \<and> rearm_seen t = rearm_seen s"
  using assms(2,1) by (cases rule: rearm_thread.cases) (auto simp: snapshot_into_def)

lemma thread_enabled: "rpc s \<noteq> Exited \<Longrightarrow> \<exists>t. rearm_thread s t"
proof (cases "rpc s")
  case CheckStop
  then show ?thesis by (cases "stop s") (blast intro: leave doze)+
next
  case (Sleep n)
  then show ?thesis by (cases "DeviceHandle_get (rearm_handle s)") (blast intro: unbound snapshot)+
next
  case (Deliver d ps)
  then show ?thesis by (cases ps) (blast intro: inject pass_end)+
qed auto

lemma thread_stops:
  assumes "(rearm_thread ^^ n) s t" "stop s"
  shows "n + steps_left (length (pairs (rearm_seen s))) (rpc t) \<le> steps_left (length (pairs (rearm_seen s))) (rpc s) \<and>
    stop t \<and> rearm_seen t = rearm_seen s"
  using assms
proof (induction n arbitrary: t)
  case (Suc n)
  then obtain u where u: "(rearm_thread ^^ n) s u" "rearm_thread u t" by auto
  note ih = Suc.IH [OF u(1) Suc.prems(2)]
  then have "stop u" by simp
  from thread_progress [OF this u(2)] ih show ?case by auto
qed auto

lemma inject_all:
  "rpc s = Deliver d ps \<Longrightarrow>
     \<exists>t. rearm_thread\<^sup>*\<^sup>* s t \<and> rpc t = CheckStop \<and> injected t = injected s @ map (Pair d) ps"
proof (induction ps arbitrary: s)
  case Nil
  then show ?case by (intro exI [of _ "s\<lparr>rpc := CheckStop\<rparr>"]) (auto intro: pass_end)
next
  case (Cons p ps)
  let ?u = "s\<lparr>rpc := Deliver d ps, injected := injected s @ [(d, p)]\<rparr>"
  have "rearm_thread s ?u" using Cons.prems by (rule inject)
  moreover obtain t where "rearm_thread\<^sup>*\<^sup>* ?u t" "rpc t = CheckStop" "injected t = injected ?u @ map (Pair d) ps"
    using Cons.IH [of ?u] by auto
  ultimately show ?case by (intro exI [of _ t]) (auto intro: converse_rtranclp_into_rtranclp)
qed

section \<open>Properties\<close>

text \<open>
  A signal. Before the handle is bound it is dropped without any effect; afterwards it makes
  exactly one delivery on the bound device, its pair is in the log once, in the order of first
  delivery, and the idle time restarts at 0. A log nothing was ever recorded in reports the time since
  its creation as idle time, so right after the start it reads as active.
\<close>

lemma signal_msi_effect:
  assumes "distinct (pairs (seen s))"
  shows "signal_msi api now t0 t1 a d (s\<lparr>msi_handle := 0\<rparr>) = s\<lparr>msi_handle := 0\<rparr> \<and>
    (msi_handle s \<noteq> 0 \<longrightarrow> (let s' = signal_msi api now t0 t1 a d s in
       distinct (pairs (seen s')) \<and> set (pairs (seen s')) = insert (a, d) (set (pairs (seen s))) \<and>
       take (length (pairs (seen s))) (pairs (seen s')) = pairs (seen s) \<and> idle_ms now (seen s') = 0 \<and>
       platform (msi_process s') =
         snd (HdvDeliverGuestInterrupt api (msi_handle s) a d (platform (msi_process s))))) \<and>
    idle_ms (now + 3) (InterruptLog_new now) = 3 \<and> rearm_tick 3 = 5"
proof (intro conjI impI)
  show "signal_msi api now t0 t1 a d (s\<lparr>msi_handle := 0\<rparr>) = s\<lparr>msi_handle := 0\<rparr>"
    by (simp add: signal_msi_def DeviceHandle_get_def)
  show "idle_ms (now + 3) (InterruptLog_new now) = 3" "rearm_tick 3 = 5"
    by (simp_all add: idle_ms_def InterruptLog_new_def saturating_sub_def rearm_tick_def
        REARM_ACTIVE_WINDOW_MS_def REARM_TICK_ACTIVE_def)
  assume bound: "msi_handle s \<noteq> 0"
  define s' where "s' = signal_msi api now t0 t1 a d s"
  have seen: "seen s' = record_msi now (a, d) (seen s)"
    and plat: "platform (msi_process s') =
         snd (HdvDeliverGuestInterrupt api (msi_handle s) a d (platform (msi_process s)))"
    using bound by (simp_all add: s'_def signal_msi_def DeviceHandle_get_def deliver_interrupt_def checked_eq Let_def)
  then show "let s' = signal_msi api now t0 t1 a d s in
       distinct (pairs (seen s')) \<and> set (pairs (seen s')) = insert (a, d) (set (pairs (seen s))) \<and>
       take (length (pairs (seen s))) (pairs (seen s')) = pairs (seen s) \<and> idle_ms now (seen s') = 0 \<and>
       platform (msi_process s') =
         snd (HdvDeliverGuestInterrupt api (msi_handle s) a d (platform (msi_process s)))"
    unfolding s'_def [symmetric] Let_def
    using assms by (auto simp: record_msi_def idle_ms_def saturating_sub_def add_pair_def)
qed

lemma signal_msi_effect_example:
  "let t = pairs (seen (signal_msi not_windows 7 0 0 0xfee00000 1
      \<lparr>msi_handle = 9, seen = (InterruptLog_new 0)\<lparr>pairs := [(0xfee00000, 2)]\<rparr>, msi_stats = ReqStats_new False 0,
       msi_process = \<lparr>flags = (\<lambda>_. True), next_flag = 0, platform = ()\<rparr>\<rparr>))
   in distinct t \<and> set t = {(0xfee00000, 1), (0xfee00000, 2)}"
proof -
  let ?s = "\<lparr>msi_handle = 9, seen = (InterruptLog_new 0)\<lparr>pairs := [(0xfee00000, 2)]\<rparr>, msi_stats = ReqStats_new False 0,
       msi_process = \<lparr>flags = (\<lambda>_. True), next_flag = 0, platform = ()\<rparr>\<rparr> :: unit msi_path"
  show ?thesis
    using signal_msi_effect [of ?s not_windows 7 0 0 "0xfee00000" 1] by (simp add: Let_def)
qed

text \<open>
  C31. The re-arm net, whatever the signal path does meanwhile. It injects only pairs that were
  delivered before and only on a bound device, and sleeps 5 or 50 ms; a pass that begins after the
  sleep injects every logged pair once, in order; once the owner has stored the stop flag the
  thread cannot stay: it always has a step until it exits and it exits within three steps more than
  the log has pairs; and when the join has returned no thread step is possible, so nothing is injected
  into a device that is being torn down.
\<close>

theorem rearm_net_safe:
  assumes "reach (\<lambda>s. s = RearmNet_spawn h (InterruptLog_new now)) rearm_step s"
  shows "distinct (pairs (rearm_seen s)) \<and> snd ` set (injected s) \<subseteq> set (pairs (rearm_seen s)) \<and>
    0 \<notin> fst ` set (injected s) \<and>
    (rpc s = Sleep n \<longrightarrow> n \<in> {5, 50} \<and> (rearm_handle s \<noteq> 0 \<longrightarrow>
      (\<exists>t. rearm_thread\<^sup>*\<^sup>* s t \<and> rpc t = CheckStop \<and>
         injected t = injected s @ map (Pair (rearm_handle s)) (pairs (rearm_seen s))))) \<and>
    (rpc s \<noteq> Exited \<longrightarrow> (\<exists>t. rearm_thread s t)) \<and>
    (stop s \<and> (rearm_thread ^^ k) s t \<longrightarrow> k \<le> length (pairs (rearm_seen s)) + 3) \<and>
    (joined s \<longrightarrow> \<not> rearm_thread s u)"
proof (intro conjI impI)
  have inv: "rearm_inv s" using assms by (rule rearm.reach_inv)
  then show "distinct (pairs (rearm_seen s))" "snd ` set (injected s) \<subseteq> set (pairs (rearm_seen s))"
    "0 \<notin> fst ` set (injected s)" "rpc s = Sleep n \<Longrightarrow> n \<in> {5, 50}"
    by (auto simp: rearm_inv_def)
  show "rpc s \<noteq> Exited \<Longrightarrow> \<exists>t. rearm_thread s t" by (rule thread_enabled)
  show "\<not> rearm_thread s u" if "joined s"
    using inv that by (auto simp: rearm_inv_def elim: rearm_thread.cases)
  show "k \<le> length (pairs (rearm_seen s)) + 3" if "stop s \<and> (rearm_thread ^^ k) s t"
  proof -
    have "length ps \<le> length (pairs (rearm_seen s))" if "rpc s = Deliver d ps" for d ps
      using inv that by (simp add: rearm_inv_def)
    then show ?thesis using thread_stops [of k s t] that by (cases "rpc s") auto
  qed
  show "\<exists>t. rearm_thread\<^sup>*\<^sup>* s t \<and> rpc t = CheckStop \<and>
      injected t = injected s @ map (Pair (rearm_handle s)) (pairs (rearm_seen s))"
    if "rpc s = Sleep n" "rearm_handle s \<noteq> 0"
  proof -
    let ?ps = "snapshot_into (rearm_seen s) (buf s)"
    let ?u = "s\<lparr>buf := ?ps, rpc := Deliver (rearm_handle s) ?ps\<rparr>"
    have "rearm_thread s ?u" using that by (intro snapshot) (simp_all add: DeviceHandle_get_def)
    moreover obtain t where "rearm_thread\<^sup>*\<^sup>* ?u t" "rpc t = CheckStop"
      "injected t = injected ?u @ map (Pair (rearm_handle s)) ?ps"
      using inject_all [of ?u "rearm_handle s" ?ps] by auto
    ultimately show ?thesis
      by (intro exI [of _ t]) (auto simp: snapshot_into_def intro: converse_rtranclp_into_rtranclp)
  qed
qed

theorem rearm_net_safe_witness:
  "\<exists>s. reach (\<lambda>s. s = RearmNet_spawn 9 (InterruptLog_new 0)) rearm_step s \<and> rpc s = Sleep 5 \<and>
     (\<exists>t. rearm_thread\<^sup>*\<^sup>* s t \<and> injected t = [(9, 0xfee00000, 1)])"
proof -
  define a where "a = RearmNet_spawn 9 (InterruptLog_new 0)"
  define b where "b = a\<lparr>rearm_seen := record_msi 4 (0xfee00000, 1) (rearm_seen a)\<rparr>"
  define s where "s = b\<lparr>rpc := Sleep (rearm_tick (idle_ms 6 (rearm_seen b)))\<rparr>"
  have "rearm_step a b" unfolding b_def rearm_step_def
    by (rule disjI2, rule signal) (simp add: a_def RearmNet_spawn_def DeviceHandle_get_def)
  moreover have "rearm_step b s" unfolding s_def rearm_step_def
    by (rule disjI1, rule doze) (simp_all add: a_def b_def RearmNet_spawn_def)
  ultimately have r: "reach (\<lambda>s. s = RearmNet_spawn 9 (InterruptLog_new 0)) rearm_step s"
    using a_def by (blast intro: reach_init reach_step)
  have f: "rpc s = Sleep 5" "rearm_handle s = 9" "injected s = []" "pairs (rearm_seen s) = [(0xfee00000, 1)]"
    by (simp_all add: a_def b_def s_def RearmNet_spawn_def InterruptLog_new_def record_msi_def add_pair_def
        idle_ms_def rearm_tick_def saturating_sub_def REARM_ACTIVE_WINDOW_MS_def REARM_TICK_ACTIVE_def)
  then have "\<exists>t. rearm_thread\<^sup>*\<^sup>* s t \<and> injected t = [(9, 0xfee00000, 1)]"
    using rearm_net_safe [OF r, of 5 0 s s] by auto
  with r f(1) show ?thesis by blast
qed

end
