(* ===== verification/Doorbell.thy ===== *)
theory Doorbell
  imports Vm_Worker Interrupt Worker_Pool
begin

text \<open>
  Doorbell registration, \<open>virtio-hdv/src/doorbell.rs\<close>: the translation of the transport's internal
  addresses, the two routes tried in order, the connection to the VM worker that is made on first use,
  cached and shared by reference count with the live registrations, and the guard that unregisters on the
  route it was registered on. The two routes are one locale, interpreted on the HDV device and on
  the worker's interface. Shown: at every moment the doorbells armed on the platform are those of
  the live guards, a failed registration leaves none behind, and the worker's interface is released
  exactly when its last user is gone.
\<close>

section \<open>Addresses and flags\<close>

text \<open>The internal BAR bases of \<open>lib.rs\<close>.\<close>

definition BAR0_BASE :: u64 where
  "BAR0_BASE = 0x100000000"

definition BAR2_BASE :: u64 where
  "BAR2_BASE = 0x100001000"

definition BAR_SPAN :: u64 where
  "BAR_SPAN = 0x1000"

definition bar_and_offset :: "u64 \<Rightarrow> (HDV_PCI_BAR_SELECTOR \<times> u64) option" where
  "bar_and_offset guest_address =
     (if BAR0_BASE \<le> guest_address \<and> guest_address < BAR0_BASE + BAR_SPAN
      then Some (Bar0, guest_address - BAR0_BASE)
      else if BAR2_BASE \<le> guest_address \<and> guest_address < BAR2_BASE + BAR_SPAN
      then Some (Bar2, guest_address - BAR2_BASE)
      else None)"

definition size_flag :: "u32 option \<Rightarrow> u64" where
  "size_flag len =
     (if len = Some 1 then HDV_DOORBELL_FLAG_TRIGGER_SIZE_BYTE
      else if len = Some 2 then HDV_DOORBELL_FLAG_TRIGGER_SIZE_WORD
      else if len = Some 4 then HDV_DOORBELL_FLAG_TRIGGER_SIZE_DWORD
      else if len = Some 8 then HDV_DOORBELL_FLAG_TRIGGER_SIZE_QWORD
      else HDV_DOORBELL_FLAG_TRIGGER_SIZE_ANY)"

definition doorbell_enabled :: "env_var \<Rightarrow> bool" where
  "doorbell_enabled env =
     (case env of EnvStr s \<Rightarrow> s \<notin> {lit ''0'', lit ''false'', lit ''off''} | _ \<Rightarrow> True)"

section \<open>Registrations\<close>

record worker_link =
  runtime_id :: guid
  instance_id :: guid
  conn :: "ptr option"

datatype route = RouteHdv | RouteWorker ptr

record doorbell_guard =
  guard_route :: route
  guard_bar :: HDV_PCI_BAR_SELECTOR
  guard_offset :: u64
  guard_trigger :: u64
  guard_flags :: u64
  guard_event :: HANDLE

datatype io_error = Unsupported | InvalidInput | NotConnected | OtherError HRESULT

text \<open>
  \<open>conn_arcs\<close> is the strong count of the \<open>Arc<FiovDoorbells>\<close>: one for the cache, one per guard on the
  worker route. \<open>guards\<close> are the live registrations, \<open>db_alive\<close> says that the \<open>HdvDoorbells\<close> itself
  has not been dropped.
\<close>

record 'w doorbells =
  db_handle :: HDV_DEVICE
  db_worker :: "worker_link option"
  db_com :: "'w com_state"
  conn_arcs :: nat
  guards :: "doorbell_guard list"
  db_alive :: bool

definition HdvDoorbells_new :: "HDV_DEVICE \<Rightarrow> (guid \<times> guid) option \<Rightarrow> 'w com_state \<Rightarrow> 'w doorbells" where
  "HdvDoorbells_new handle worker c =
     \<lparr>db_handle = handle,
      db_worker = map_option (\<lambda>(rid, iid). \<lparr>runtime_id = rid, instance_id = iid, conn = None\<rparr>) worker,
      db_com = c, conn_arcs = 0, guards = [], db_alive = True\<rparr>"

definition WorkerLink_connect ::
  "'w worker_api \<Rightarrow> worker_link \<Rightarrow> 'w doorbells \<Rightarrow> ptr option \<times> 'w doorbells" where
  "WorkerLink_connect wapi link s =
     (case conn link of
        Some c \<Rightarrow> (Some c, s\<lparr>conn_arcs := conn_arcs s + 1\<rparr>)
      | None \<Rightarrow>
          (case FiovDoorbells_connect wapi (runtime_id link) (instance_id link) (db_com s) of
             (Inr c, w) \<Rightarrow>
               (Some c, s\<lparr>db_com := w, db_worker := Some (link\<lparr>conn := Some c\<rparr>), conn_arcs := 2\<rparr>)
           | (Inl e, w) \<Rightarrow> (None, s\<lparr>db_com := w\<rparr>)))"

text \<open>Dropping one clone of the connection; the last one drops the \<open>FiovDoorbells\<close>.\<close>

definition drop_conn :: "'w worker_api \<Rightarrow> ptr \<Rightarrow> 'w doorbells \<Rightarrow> 'w doorbells" where
  "drop_conn wapi c s =
     (let s = s\<lparr>conn_arcs := conn_arcs s - 1\<rparr>
      in if conn_arcs s = 0 then s\<lparr>db_com := FiovDoorbells_drop wapi c (db_com s)\<rparr> else s)"

definition on_com ::
  "('w process \<Rightarrow> 'a \<times> 'w process) \<Rightarrow> 'w doorbells \<Rightarrow> 'a \<times> 'w doorbells" where
  "on_com f s = (case on_proc f (db_com s) of (a, c) \<Rightarrow> (a, s\<lparr>db_com := c\<rparr>))"

definition register_routes ::
  "'w hdv_api \<Rightarrow> 'w worker_api \<Rightarrow> HDV_DEVICE \<Rightarrow> HDV_PCI_BAR_SELECTOR \<Rightarrow> u64 \<Rightarrow> u64 \<Rightarrow> u64 \<Rightarrow> HANDLE \<Rightarrow>
     'w doorbells \<Rightarrow> (io_error + route) \<times> 'w doorbells" where
  "register_routes api wapi device bar offset trigger_value flgs raw_event s =
     (case on_com (register_doorbell api device bar offset trigger_value flgs raw_event) s of
        (Inr _, s) \<Rightarrow> (Inr RouteHdv, s)
      | (Inl hdv_err, s) \<Rightarrow>
          (case (case db_worker s of None \<Rightarrow> (None, s) | Some w \<Rightarrow> WorkerLink_connect wapi w s) of
             (Some c, s) \<Rightarrow>
               (case on_com (worker_register_doorbell wapi c bar offset trigger_value flgs raw_event) s of
                  (Inr _, s) \<Rightarrow> (Inr (RouteWorker c), s)
                | (Inl e, s) \<Rightarrow> (Inl (OtherError e), drop_conn wapi c s))
           | (None, s) \<Rightarrow> (Inl (OtherError hdv_err), s)))"

text \<open>The guard a successful registration returns is added to the live ones.\<close>

definition HdvDoorbells_register ::
  "'w hdv_api \<Rightarrow> 'w worker_api \<Rightarrow> env_var \<Rightarrow> u64 \<Rightarrow> u64 option \<Rightarrow> u32 option \<Rightarrow> HANDLE \<Rightarrow>
     'w doorbells \<Rightarrow> (io_error + doorbell_guard) \<times> 'w doorbells" where
  "HdvDoorbells_register api wapi env guest_address val len event s =
     (if \<not> doorbell_enabled env then (Inl Unsupported, s)
      else case bar_and_offset guest_address of
        None \<Rightarrow> (Inl InvalidInput, s)
      | Some (bar, offset) \<Rightarrow>
          (case DeviceHandle_get (db_handle s) of
             None \<Rightarrow> (Inl NotConnected, s)
           | Some device \<Rightarrow>
               (let flgs = size_flag len;
                    flgs = (if val = None then flgs OR HDV_DOORBELL_FLAG_TRIGGER_ANY_VALUE else flgs);
                    trigger_value = (case val of None \<Rightarrow> 0 | Some v \<Rightarrow> v)
                in case register_routes api wapi device bar offset trigger_value flgs event s of
                     (Inl e, s) \<Rightarrow> (Inl e, s)
                   | (Inr r, s) \<Rightarrow>
                       (let g = \<lparr>guard_route = r, guard_bar = bar, guard_offset = offset,
                                 guard_trigger = trigger_value, guard_flags = flgs, guard_event = event\<rparr>
                        in (Inr g, s\<lparr>guards := guards s @ [g]\<rparr>)))))"

definition DoorbellGuard_drop ::
  "'w hdv_api \<Rightarrow> 'w worker_api \<Rightarrow> doorbell_guard \<Rightarrow> 'w doorbells \<Rightarrow> 'w doorbells" where
  "DoorbellGuard_drop api wapi g s =
     (case guard_route g of
        RouteHdv \<Rightarrow>
          (case DeviceHandle_get (db_handle s) of
             None \<Rightarrow> s
           | Some device \<Rightarrow>
               snd (on_com (unregister_doorbell api device (guard_bar g) (guard_offset g) (guard_trigger g) (guard_flags g)) s))
      | RouteWorker c \<Rightarrow>
          drop_conn wapi c
            (snd (on_com (worker_unregister_doorbell wapi c (guard_bar g) (guard_offset g) (guard_trigger g) (guard_flags g)) s)))"

text \<open>The drop of the \<open>HdvDoorbells\<close> drops the cached connection, if any.\<close>

definition HdvDoorbells_drop :: "'w worker_api \<Rightarrow> 'w doorbells \<Rightarrow> 'w doorbells" where
  "HdvDoorbells_drop wapi s =
     (let s = s\<lparr>db_alive := False\<rparr>
      in case db_worker s of
           None \<Rightarrow> s
         | Some w \<Rightarrow> (case conn w of None \<Rightarrow> s | Some c \<Rightarrow> drop_conn wapi c s))"

section \<open>The life of a registration\<close>

inductive doorbell_step :: "'w hdv_api \<Rightarrow> 'w worker_api \<Rightarrow> env_var \<Rightarrow> 'w doorbells \<Rightarrow> 'w doorbells \<Rightarrow> bool"
  for api wapi env where
  register: "db_alive s \<Longrightarrow>
    doorbell_step api wapi env s (snd (HdvDoorbells_register api wapi env a v l e s))"
| drop_guard: "guards s = xs @ g # ys \<Longrightarrow>
    doorbell_step api wapi env s (DoorbellGuard_drop api wapi g (s\<lparr>guards := xs @ ys\<rparr>))"
| drop_doorbells: "db_alive s \<Longrightarrow> doorbell_step api wapi env s (HdvDoorbells_drop wapi s)"

section \<open>The contract of a route\<close>

type_synonym doorbell = "HDV_PCI_BAR_SELECTOR \<times> u64 \<times> u64 \<times> u64"

text \<open>
  What a client of a route may use: the wrapper's result is the status of the platform call, and the
  wrapper's effect on the platform is that call. The platform side \<open>arms\<close> doorbells when a ledger of
  armed doorbells gains the tuple on success, loses it on a successful removal and is otherwise
  unchanged.
\<close>

definition arms ::
  "(HDV_PCI_BAR_SELECTOR \<Rightarrow> u64 \<Rightarrow> u64 \<Rightarrow> u64 \<Rightarrow> HANDLE \<Rightarrow> 'w \<Rightarrow> HRESULT \<times> 'w) \<Rightarrow>
   (HDV_PCI_BAR_SELECTOR \<Rightarrow> u64 \<Rightarrow> u64 \<Rightarrow> u64 \<Rightarrow> 'w \<Rightarrow> HRESULT \<times> 'w) \<Rightarrow>
   ('w \<Rightarrow> (route \<times> doorbell) multiset) \<Rightarrow> route \<Rightarrow> bool" where
  "arms raw_reg raw_unreg armed r \<longleftrightarrow>
     (\<forall>b off t f e w. armed (snd (raw_reg b off t f e w)) =
        (if failed (fst (raw_reg b off t f e w)) then armed w else add_mset (r, b, off, t, f) (armed w))) \<and>
     (\<forall>b off t f w. (r, b, off, t, f) \<in># armed w \<longrightarrow>
        armed (snd (raw_unreg b off t f w)) = armed w - {#(r, b, off, t, f)#})"

locale doorbell_channel =
  fixes reg :: "HDV_PCI_BAR_SELECTOR \<Rightarrow> u64 \<Rightarrow> u64 \<Rightarrow> u64 \<Rightarrow> HANDLE \<Rightarrow> 'w process \<Rightarrow> (HRESULT + unit) \<times> 'w process"
    and unreg :: "HDV_PCI_BAR_SELECTOR \<Rightarrow> u64 \<Rightarrow> u64 \<Rightarrow> u64 \<Rightarrow> 'w process \<Rightarrow> (HRESULT + unit) \<times> 'w process"
    and raw_reg :: "HDV_PCI_BAR_SELECTOR \<Rightarrow> u64 \<Rightarrow> u64 \<Rightarrow> u64 \<Rightarrow> HANDLE \<Rightarrow> 'w \<Rightarrow> HRESULT \<times> 'w"
    and raw_unreg :: "HDV_PCI_BAR_SELECTOR \<Rightarrow> u64 \<Rightarrow> u64 \<Rightarrow> u64 \<Rightarrow> 'w \<Rightarrow> HRESULT \<times> 'w"
  assumes reg_status: "fst (reg b off t f e p) = hr (fst (raw_reg b off t f e (platform p)))"
    and reg_effect: "platform (snd (reg b off t f e p)) = snd (raw_reg b off t f e (platform p))"
    and unreg_effect: "platform (snd (unreg b off t f p)) = snd (raw_unreg b off t f (platform p))"
begin

lemma reg_armed:
  assumes "arms raw_reg raw_unreg armed r"
  shows "armed (platform (snd (reg b off t f e p))) =
    (case fst (reg b off t f e p) of Inl _ \<Rightarrow> armed (platform p) | Inr _ \<Rightarrow> add_mset (r, b, off, t, f) (armed (platform p)))"
  using assms by (auto simp: arms_def reg_effect reg_status hr_def failed_def)

lemma unreg_armed:
  assumes "arms raw_reg raw_unreg armed r" "(r, b, off, t, f) \<in># armed (platform p)"
  shows "armed (platform (snd (unreg b off t f p))) = armed (platform p) - {#(r, b, off, t, f)#}"
  using assms by (simp add: arms_def unreg_effect)

end

interpretation hdv_route: doorbell_channel "register_doorbell api d" "unregister_doorbell api d"
  "HdvRegisterDoorbell api d" "HdvUnregisterDoorbell api d"
  by unfold_locales (simp_all add: register_doorbell_def unregister_doorbell_def checked_eq)

interpretation worker_route: doorbell_channel "worker_register_doorbell wapi c" "worker_unregister_doorbell wapi c"
  "\<lambda>b. RegisterDoorbell wapi c (fiov_bar b)" "\<lambda>b. UnregisterDoorbell wapi c (fiov_bar b)"
  by unfold_locales (simp_all add: worker_register_doorbell_def worker_unregister_doorbell_def checked_eq)

section \<open>The ledger\<close>

definition keeps :: "('w \<Rightarrow> 'x) \<Rightarrow> ('w \<Rightarrow> 'a \<times> 'w) \<Rightarrow> bool" where
  "keeps X f \<longleftrightarrow> (\<forall>w. X (snd (f w)) = X w)"

text \<open>
  The documented behaviour of the two platform sides together: both arm doorbells, COM references
  follow the rules, and neither kind of call touches the other's ledger.
\<close>

definition doorbell_platform ::
  "'w hdv_api \<Rightarrow> 'w worker_api \<Rightarrow> HDV_DEVICE \<Rightarrow> ('w \<Rightarrow> (route \<times> doorbell) multiset) \<Rightarrow> ('w \<Rightarrow> ptr multiset) \<Rightarrow> bool" where
  "doorbell_platform api wapi d armed refs \<longleftrightarrow>
     arms (HdvRegisterDoorbell api d) (HdvUnregisterDoorbell api d) armed RouteHdv \<and>
     (\<forall>c. arms (\<lambda>b. RegisterDoorbell wapi c (fiov_bar b)) (\<lambda>b. UnregisterDoorbell wapi c (fiov_bar b)) armed (RouteWorker c)) \<and>
     com_rules wapi refs \<and>
     (\<forall>b off t f e. keeps refs (HdvRegisterDoorbell api d b off t f e)) \<and>
     (\<forall>b off t f. keeps refs (HdvUnregisterDoorbell api d b off t f)) \<and>
     (\<forall>c b off t f e. keeps refs (RegisterDoorbell wapi c b off t f e)) \<and>
     (\<forall>c b off t f. keeps refs (UnregisterDoorbell wapi c b off t f)) \<and>
     (\<forall>g r i. keeps armed (GetVmWorkerProcess wapi g r i)) \<and> (\<forall>a c i. keeps armed (GetDevice wapi a c i)) \<and>
     (\<forall>p i. keeps armed (QueryInterface wapi p i)) \<and> (\<forall>p. keeps armed (Release wapi p)) \<and>
     keeps armed (CoIncrementMTAUsage wapi) \<and> (\<forall>n. keeps armed (LoadLibraryW wapi n)) \<and>
     (\<forall>m n. keeps armed (GetProcAddress wapi m n))"

lemma keeps_on_platform: "keeps X f \<Longrightarrow> on_proc (on_platform f) s = (a, s') \<Longrightarrow> X (world s') = X (world s)"
  by (auto simp: keeps_def on_proc_eq on_platform_eq)

lemma keeps_checked: "keeps X f \<Longrightarrow> keeps (\<lambda>p. X (platform p)) (checked f)"
  by (simp add: keeps_def checked_eq)

lemma keeps_checked_out: "keeps X f \<Longrightarrow> on_proc (checked_out f) s = (a, s') \<Longrightarrow> X (world s') = X (world s)"
  by (auto simp: keeps_def on_proc_eq checked_out_eq case_prod_beta Let_def)

lemma connect_armed:
  assumes "doorbell_platform api wapi d armed refs"
  shows "armed (world (snd (FiovDoorbells_connect wapi r i s))) = armed (world s)"
proof -
  have k: "\<And>g r i. keeps armed (GetVmWorkerProcess wapi g r i)" "\<And>a c i. keeps armed (GetDevice wapi a c i)"
    "\<And>p i. keeps armed (QueryInterface wapi p i)" "\<And>p. keeps armed (Release wapi p)"
    "keeps armed (CoIncrementMTAUsage wapi)" "\<And>n. keeps armed (LoadLibraryW wapi n)"
    "\<And>m n. keeps armed (GetProcAddress wapi m n)"
    using assms by (simp_all add: doorbell_platform_def)
  have drop: "armed (world (ComGuard_drop wapi p t)) = armed (world t)" for p t
    using k(4) by (simp add: ComGuard_drop_def keeps_def on_proc_eq on_platform_eq)
  have query: "armed (world (snd (query_notification wapi p t))) = armed (world t)" for p t
    using keeps_checked_out [OF k(3)] by (auto simp: query_notification_def split: prod.splits sum.splits)
  have device: "armed (world (snd (connect_device wapi a j t))) = armed (world t)" for a j t
    using keeps_checked_out [OF k(2)] drop query
    by (auto simp: connect_device_def split: prod.splits sum.splits) (metis snd_conv)+
  have worker: "armed (world (snd (get_vm_worker_process wapi (ensure_mta wapi t)))) = armed (world t)" for t
    using k(5,6,7)
    by (auto simp: get_vm_worker_process_def ensure_mta_def keeps_def on_proc_eq on_platform_eq Let_def split: option.splits)
  show ?thesis
    using keeps_checked_out [OF k(1)] drop device worker [of s]
    by (auto simp: FiovDoorbells_connect_def split: prod.splits sum.splits option.splits) (metis snd_conv)+
qed

section \<open>The invariant\<close>

definition conn_of :: "'w doorbells \<Rightarrow> ptr option" where
  "conn_of s = Option.bind (db_worker s) conn"

definition armed_by :: "doorbell_guard \<Rightarrow> route \<times> doorbell" where
  "armed_by g = (guard_route g, guard_bar g, guard_offset g, guard_trigger g, guard_flags g)"

fun route_ok :: "HDV_DEVICE \<Rightarrow> ptr option \<Rightarrow> route \<Rightarrow> bool" where
  "route_ok d cn RouteHdv \<longleftrightarrow> d \<noteq> 0"
| "route_ok d cn (RouteWorker c) \<longleftrightarrow> cn = Some c"

fun conn_refs :: "ptr option \<Rightarrow> nat \<Rightarrow> ptr multiset" where
  "conn_refs (Some c) (Suc n) = {#c#}"
| "conn_refs cn n = {#}"

lemma conn_of_simps [simp]:
  "conn_of (s\<lparr>conn_arcs := n\<rparr>) = conn_of s" "conn_of (s\<lparr>db_com := c\<rparr>) = conn_of s"
  "conn_of (s\<lparr>guards := gs\<rparr>) = conn_of s" "conn_of (s\<lparr>db_alive := b\<rparr>) = conn_of s"
  "conn_of (s\<lparr>db_worker := Some w\<rparr>) = conn w"
  by (simp_all add: conn_of_def)

lemma conn_refs_pos: "0 < n \<Longrightarrow> conn_refs (Some c) n = {#c#}"
  by (cases n) simp_all

lemma route_ok_Some: "route_ok d None r \<Longrightarrow> r = RouteHdv"
  by (cases r) simp_all

text \<open>
  \<open>A\<close> is what is armed beside the doorbells of the live guards, \<open>k\<close> the number of clones of the
  connection that are neither the cache's nor a guard's, as there are in the middle of an operation.
\<close>

definition db_inv ::
  "HDV_DEVICE \<Rightarrow> ('w \<Rightarrow> (route \<times> doorbell) multiset) \<Rightarrow> ('w \<Rightarrow> ptr multiset) \<Rightarrow> ptr multiset \<Rightarrow>
     (route \<times> doorbell) multiset \<Rightarrow> nat \<Rightarrow> 'w doorbells \<Rightarrow> bool" where
  "db_inv d armed refs R A k s \<longleftrightarrow>
     db_handle s = d \<and>
     armed (world (db_com s)) = A + image_mset armed_by (mset (guards s)) \<and>
     conn_arcs s = (if db_alive s \<and> conn_of s \<noteq> None then 1 else 0) +
       length (filter (\<lambda>g. guard_route g \<noteq> RouteHdv) (guards s)) + k \<and>
     refs (world (db_com s)) =
       R + conn_refs (conn_of s) (conn_arcs s) \<and>
     (\<forall>g \<in> set (guards s). route_ok d (conn_of s) (guard_route g))"

lemma on_com_fields [simp]:
  "db_handle (snd (on_com f s)) = db_handle s" "db_worker (snd (on_com f s)) = db_worker s"
  "conn_arcs (snd (on_com f s)) = conn_arcs s" "guards (snd (on_com f s)) = guards s"
  "db_alive (snd (on_com f s)) = db_alive s" "conn_of (snd (on_com f s)) = conn_of s"
  "world (db_com (snd (on_com f s))) = platform (snd (f (com_proc (db_com s))))"
  "fst (on_com f s) = fst (f (com_proc (db_com s)))"
  by (simp_all add: on_com_def on_proc_eq conn_of_def)

lemma db_inv_on_com:
  assumes "db_inv d armed refs R A k s" "keeps (\<lambda>p. refs (platform p)) f"
    "armed (platform (snd (f (com_proc (db_com s))))) = A' + image_mset armed_by (mset (guards s))"
  shows "db_inv d armed refs R A' k (snd (on_com f s))"
  using assms by (simp add: db_inv_def keeps_def)

lemma db_inv_register:
  assumes P: "doorbell_platform api wapi d armed refs" and I: "db_inv d armed refs R A k s"
  shows "db_inv d armed refs R
      (case fst (on_com (register_doorbell api d b off t f e) s) of
         Inl _ \<Rightarrow> A | Inr _ \<Rightarrow> add_mset (RouteHdv, b, off, t, f) A) k
      (snd (on_com (register_doorbell api d b off t f e) s))"
    and "db_inv d armed refs R
      (case fst (on_com (worker_register_doorbell wapi c b off t f e) s) of
         Inl _ \<Rightarrow> A | Inr _ \<Rightarrow> add_mset (RouteWorker c, b, off, t, f) A) k
      (snd (on_com (worker_register_doorbell wapi c b off t f e) s))"
proof -
  have a: "armed (world (db_com s)) = A + image_mset armed_by (mset (guards s))" using I by (simp add: db_inv_def)
  have h: "arms (HdvRegisterDoorbell api d) (HdvUnregisterDoorbell api d) armed RouteHdv"
    "keeps refs (HdvRegisterDoorbell api d b off t f e)"
    and w: "arms (\<lambda>b. RegisterDoorbell wapi c (fiov_bar b)) (\<lambda>b. UnregisterDoorbell wapi c (fiov_bar b)) armed (RouteWorker c)"
    "keeps refs (RegisterDoorbell wapi c (fiov_bar b) off t f e)"
    using P by (simp_all add: doorbell_platform_def)
  have "keeps (\<lambda>p. refs (platform p)) (register_doorbell api d b off t f e)"
    "keeps (\<lambda>p. refs (platform p)) (worker_register_doorbell wapi c b off t f e)"
    unfolding register_doorbell_def worker_register_doorbell_def by (rule keeps_checked [OF h(2)], rule keeps_checked [OF w(2)])
  note k = this
  show "db_inv d armed refs R
      (case fst (on_com (register_doorbell api d b off t f e) s) of
         Inl _ \<Rightarrow> A | Inr _ \<Rightarrow> add_mset (RouteHdv, b, off, t, f) A) k
      (snd (on_com (register_doorbell api d b off t f e) s))"
    by (rule db_inv_on_com [OF I k(1)]) (simp add: hdv_route.reg_armed [OF h(1)] a split: sum.splits)
  show "db_inv d armed refs R
      (case fst (on_com (worker_register_doorbell wapi c b off t f e) s) of
         Inl _ \<Rightarrow> A | Inr _ \<Rightarrow> add_mset (RouteWorker c, b, off, t, f) A) k
      (snd (on_com (worker_register_doorbell wapi c b off t f e) s))"
    by (rule db_inv_on_com [OF I k(2)]) (simp add: worker_route.reg_armed [OF w(1)] a split: sum.splits)
qed

lemma db_inv_unregister:
  assumes P: "doorbell_platform api wapi d armed refs"
  shows "db_inv d armed refs R (add_mset (RouteHdv, b, off, t, f) A) k s \<Longrightarrow>
      db_inv d armed refs R A k (snd (on_com (unregister_doorbell api d b off t f) s))"
    and "db_inv d armed refs R (add_mset (RouteWorker c, b, off, t, f) A) k s \<Longrightarrow>
      db_inv d armed refs R A k (snd (on_com (worker_unregister_doorbell wapi c b off t f) s))"
proof -
  have h: "arms (HdvRegisterDoorbell api d) (HdvUnregisterDoorbell api d) armed RouteHdv"
    "keeps refs (HdvUnregisterDoorbell api d b off t f)"
    and w: "arms (\<lambda>b. RegisterDoorbell wapi c (fiov_bar b)) (\<lambda>b. UnregisterDoorbell wapi c (fiov_bar b)) armed (RouteWorker c)"
    "keeps refs (UnregisterDoorbell wapi c (fiov_bar b) off t f)"
    using P by (simp_all add: doorbell_platform_def)
  have k: "keeps (\<lambda>p. refs (platform p)) (unregister_doorbell api d b off t f)"
    "keeps (\<lambda>p. refs (platform p)) (worker_unregister_doorbell wapi c b off t f)"
    unfolding unregister_doorbell_def worker_unregister_doorbell_def by (rule keeps_checked [OF h(2)], rule keeps_checked [OF w(2)])
  show "db_inv d armed refs R (add_mset (RouteHdv, b, off, t, f) A) k s \<Longrightarrow>
      db_inv d armed refs R A k (snd (on_com (unregister_doorbell api d b off t f) s))"
    by (rule db_inv_on_com [OF _ k(1)], assumption) (subst hdv_route.unreg_armed [OF h(1)]; simp add: db_inv_def)
  show "db_inv d armed refs R (add_mset (RouteWorker c, b, off, t, f) A) k s \<Longrightarrow>
      db_inv d armed refs R A k (snd (on_com (worker_unregister_doorbell wapi c b off t f) s))"
    by (rule db_inv_on_com [OF _ k(2)], assumption) (subst worker_route.unreg_armed [OF w(1)]; simp add: db_inv_def)
qed

lemma db_inv_drop_conn:
  assumes P: "doorbell_platform api wapi d armed refs"
    and I: "db_inv d armed refs R A (Suc k) s" "conn_of s = Some c"
  shows "db_inv d armed refs R A k (drop_conn wapi c s)"
proof -
  have "refs (world (FiovDoorbells_drop wapi c w)) = refs (world w) - {#c#}"
    "armed (world (FiovDoorbells_drop wapi c w)) = armed (world w)" for w
    using P by (simp_all add: doorbell_platform_def com_rules_def keeps_def FiovDoorbells_drop_def on_proc_eq on_platform_eq)
  then show ?thesis using I by (auto simp: db_inv_def drop_conn_def conn_refs_pos Let_def split: if_splits)
qed

lemma db_inv_connect:
  assumes P: "doorbell_platform api wapi d armed refs" and I: "db_inv d armed refs R A 0 s"
    and "db_alive s" "db_worker s = Some w" "WorkerLink_connect wapi w s = (r, s')"
  shows "(case r of None \<Rightarrow> db_inv d armed refs R A 0 s' | Some c \<Rightarrow> db_inv d armed refs R A 1 s' \<and> conn_of s' = Some c) \<and>
    guards s' = guards s \<and> db_alive s'"
proof (cases "conn w")
  case (Some c)
  then have "conn_of s = Some c" using assms(4) by (simp add: conn_of_def)
  moreover have "r = Some c" "s' = s\<lparr>conn_arcs := conn_arcs s + 1\<rparr>"
    using assms(5) Some by (simp_all add: WorkerLink_connect_def)
  ultimately show ?thesis using assms(2,3) by (simp add: db_inv_def)
next
  case None
  obtain q u where q: "FiovDoorbells_connect wapi (runtime_id w) (instance_id w) (db_com s) = (q, u)"
    by (metis surj_pair)
  have cr: "com_rules wapi refs" using P by (simp add: doorbell_platform_def)
  note refs = connect_refs [OF cr q]
  have arm: "armed (world u) = armed (world (db_com s))" using connect_armed [OF P] q by (metis snd_conv)
  have c0: "conn_of s = None" using None assms(4) by (simp add: conn_of_def)
  then have hdv: "\<forall>g \<in> set (guards s). guard_route g = RouteHdv \<and> d \<noteq> 0"
    using I route_ok_Some by (fastforce simp: db_inv_def)
  then have nog: "filter (\<lambda>g. guard_route g \<noteq> RouteHdv) (guards s) = []" by (simp add: filter_empty_conv)
  have arcs: "conn_arcs s = 0" using I c0 nog by (simp add: db_inv_def)
  show ?thesis
  proof (cases q)
    case (Inl e)
    then show ?thesis using assms(3-) None q refs arm I c0 by (auto simp: WorkerLink_connect_def db_inv_def)
  next
    case (Inr c)
    then show ?thesis using assms(3-) None q refs arm I c0 nog hdv arcs
      by (auto simp: WorkerLink_connect_def db_inv_def numeral_2_eq_2)
  qed
qed

lemma register_routes_inv:
  assumes P: "doorbell_platform api wapi d armed refs" and I: "db_inv d armed refs R A 0 s" "db_alive s"
    and r: "register_routes api wapi d b off t f e s = (r, s')"
  shows "guards s' = guards s \<and> db_alive s' \<and>
    (case r of
       Inl _ \<Rightarrow> db_inv d armed refs R A 0 s'
     | Inr RouteHdv \<Rightarrow> db_inv d armed refs R (add_mset (RouteHdv, b, off, t, f) A) 0 s'
     | Inr (RouteWorker c) \<Rightarrow>
         db_inv d armed refs R (add_mset (RouteWorker c, b, off, t, f) A) 1 s' \<and> conn_of s' = Some c)"
proof -
  define s1 where "s1 = snd (on_com (register_doorbell api d b off t f e) s)"
  define r1 where "r1 = fst (on_com (register_doorbell api d b off t f e) s)"
  have e1: "on_com (register_doorbell api d b off t f e) s = (r1, s1)" by (simp only: s1_def r1_def prod.collapse)
  note i1 = db_inv_register(1) [OF P I(1), of b off t f e, folded s1_def r1_def]
  have s1: "guards s1 = guards s" "db_alive s1" using I(2) by (simp_all add: s1_def)
  show ?thesis
  proof (cases r1)
    case (Inr u)
    then show ?thesis using r e1 i1 s1 by (auto simp: register_routes_def)
  next
    case (Inl hdv_err)
    obtain q s2 where q: "(case db_worker s1 of None \<Rightarrow> (None, s1) | Some w \<Rightarrow> WorkerLink_connect wapi w s1) = (q, s2)"
      by (metis surj_pair)
    have i2: "(case q of None \<Rightarrow> db_inv d armed refs R A 0 s2 | Some c \<Rightarrow> db_inv d armed refs R A 1 s2 \<and> conn_of s2 = Some c) \<and>
      guards s2 = guards s1 \<and> db_alive s2"
      using q db_inv_connect [OF P _ s1(2)] i1 Inl s1(2) by (cases "db_worker s1") auto
    show ?thesis
    proof (cases q)
      case None
      then show ?thesis using r e1 Inl q i2 s1 by (auto simp: register_routes_def)
    next
      case (Some c)
      define s3 where "s3 = snd (on_com (worker_register_doorbell wapi c b off t f e) s2)"
      define r3 where "r3 = fst (on_com (worker_register_doorbell wapi c b off t f e) s2)"
      have e3: "on_com (worker_register_doorbell wapi c b off t f e) s2 = (r3, s3)" by (simp only: s3_def r3_def prod.collapse)
      have i3: "db_inv d armed refs R (case r3 of Inl _ \<Rightarrow> A | Inr _ \<Rightarrow> add_mset (RouteWorker c, b, off, t, f) A) 1 s3"
        using db_inv_register(2) [OF P, of R A 1 s2 c b off t f e] i2 Some by (simp add: s3_def r3_def)
      have s3: "guards s3 = guards s" "db_alive s3" "conn_of s3 = Some c" using i2 Some s1 by (simp_all add: s3_def)
      have d3: "guards (drop_conn wapi c s3) = guards s3" "db_alive (drop_conn wapi c s3) = db_alive s3"
        by (simp_all add: drop_conn_def Let_def)
      show ?thesis
      proof (cases r3)
        case (Inl err)
        then show ?thesis using r e1 \<open>r1 = Inl hdv_err\<close> q Some e3 i3 s3 d3 db_inv_drop_conn [OF P, of R A 0 s3 c]
          by (auto simp: register_routes_def)
      next
        case (Inr u)
        then show ?thesis using r e1 \<open>r1 = Inl hdv_err\<close> q Some e3 i3 s3 by (auto simp: register_routes_def)
      qed
    qed
  qed
qed

lemma db_inv_add_guard:
  assumes "db_inv d armed refs R (add_mset (armed_by g) A) k s" "k = (if guard_route g = RouteHdv then 0 else 1)"
    "route_ok d (conn_of s) (guard_route g)"
  shows "db_inv d armed refs R A 0 (s\<lparr>guards := guards s @ [g]\<rparr>)"
  using assms by (auto simp: db_inv_def)

lemma db_inv_take_guard:
  assumes "db_inv d armed refs R A 0 s" "guards s = xs @ g # ys"
  shows "db_inv d armed refs R (add_mset (armed_by g) A) (if guard_route g = RouteHdv then 0 else 1) (s\<lparr>guards := xs @ ys\<rparr>)"
    and "route_ok d (conn_of s) (guard_route g)"
  using assms by (auto simp: db_inv_def)

lemma register_inv:
  assumes P: "doorbell_platform api wapi d armed refs" and I: "db_inv d armed refs R A 0 s" "db_alive s"
  shows "db_inv d armed refs R A 0 (snd (HdvDoorbells_register api wapi env a v l e s))"
proof (cases "doorbell_enabled env \<and> bar_and_offset a \<noteq> None \<and> DeviceHandle_get (db_handle s) \<noteq> None")
  case False
  then show ?thesis using I(1) by (auto simp: HdvDoorbells_register_def split: option.splits)
next
  case True
  then obtain b off where bo: "bar_and_offset a = Some (b, off)" by auto
  have d: "DeviceHandle_get (db_handle s) = Some d" "d \<noteq> 0"
    using True I(1) by (auto simp: DeviceHandle_get_def db_inv_def split: if_splits)
  define f where "f = (if v = None then size_flag l OR HDV_DOORBELL_FLAG_TRIGGER_ANY_VALUE else size_flag l)"
  define t where "t = (case v of None \<Rightarrow> 0 | Some x \<Rightarrow> x)"
  obtain r s' where r: "register_routes api wapi d b off t f e s = (r, s')" by (metis surj_pair)
  note i = register_routes_inv [OF P I r]
  have reg: "HdvDoorbells_register api wapi env a v l e s =
    (case r of Inl err \<Rightarrow> (Inl err, s')
     | Inr rt \<Rightarrow> (let g = \<lparr>guard_route = rt, guard_bar = b, guard_offset = off, guard_trigger = t, guard_flags = f, guard_event = e\<rparr>
        in (Inr g, s'\<lparr>guards := guards s' @ [g]\<rparr>)))"
    unfolding HdvDoorbells_register_def Let_def f_def [symmetric] t_def [symmetric]
    using True bo d r by (simp split: sum.splits)
  show ?thesis
  proof (cases r)
    case (Inl err)
    then show ?thesis using reg i by simp
  next
    case (Inr rt)
    define g where
      "g = \<lparr>guard_route = rt, guard_bar = b, guard_offset = off, guard_trigger = t, guard_flags = f, guard_event = e\<rparr>"
    have "db_inv d armed refs R (add_mset (armed_by g) A) (if guard_route g = RouteHdv then 0 else 1) s'"
      "route_ok d (conn_of s') (guard_route g)"
      using i Inr d(2) by (cases rt; simp add: g_def armed_by_def)+
    then have "db_inv d armed refs R A 0 (s'\<lparr>guards := guards s' @ [g]\<rparr>)" by (rule db_inv_add_guard [OF _ refl])
    then show ?thesis using reg Inr by (simp add: g_def Let_def)
  qed
qed

lemma drop_guard_inv:
  assumes P: "doorbell_platform api wapi d armed refs" and I: "db_inv d armed refs R A 0 s" "guards s = xs @ g # ys"
  shows "db_inv d armed refs R A 0 (DoorbellGuard_drop api wapi g (s\<lparr>guards := xs @ ys\<rparr>))"
proof (cases "guard_route g")
  case RouteHdv
  then have "d \<noteq> 0" "db_handle s = d" using db_inv_take_guard(2) [OF I] I(1) by (simp_all add: db_inv_def)
  then show ?thesis using RouteHdv db_inv_take_guard(1) [OF I] db_inv_unregister(1) [OF P]
    by (simp add: DoorbellGuard_drop_def DeviceHandle_get_def armed_by_def)
next
  case (RouteWorker c)
  then have "conn_of s = Some c" using db_inv_take_guard(2) [OF I] by simp
  moreover have "db_inv d armed refs R A 1 (snd (on_com (worker_unregister_doorbell wapi c (guard_bar g) (guard_offset g)
      (guard_trigger g) (guard_flags g)) (s\<lparr>guards := xs @ ys\<rparr>)))"
    using db_inv_take_guard(1) [OF I] RouteWorker by (intro db_inv_unregister(2) [OF P]) (simp add: armed_by_def)
  ultimately show ?thesis using RouteWorker db_inv_drop_conn [OF P, of R A 0] by (simp add: DoorbellGuard_drop_def)
qed

lemma drop_doorbells_inv:
  assumes P: "doorbell_platform api wapi d armed refs" and I: "db_inv d armed refs R A 0 s" "db_alive s"
  shows "db_inv d armed refs R A 0 (HdvDoorbells_drop wapi s)"
proof (cases "conn_of s")
  case None
  then show ?thesis using I
    by (cases "db_worker s") (auto simp: HdvDoorbells_drop_def db_inv_def conn_of_def Let_def)
next
  case (Some c)
  then have "db_inv d armed refs R A 1 (s\<lparr>db_alive := False\<rparr>)" using I by (simp add: db_inv_def)
  then show ?thesis using Some db_inv_drop_conn [OF P, of R A 0 "s\<lparr>db_alive := False\<rparr>" c]
    by (cases "db_worker s") (auto simp: HdvDoorbells_drop_def conn_of_def Let_def)
qed

lemma doorbell_step_inv:
  assumes "doorbell_platform api wapi d armed refs" "doorbell_step api wapi env s t" "db_inv d armed refs R A 0 s"
  shows "db_inv d armed refs R A 0 t"
  using assms(2,3,1)
  by cases (auto intro: register_inv drop_guard_inv drop_doorbells_inv)

section \<open>Properties\<close>

lemma bar_and_offset_Some:
  "bar_and_offset a = Some (b, off) \<longleftrightarrow>
     unat off < 0x1000 \<and> (b = Bar0 \<and> a = BAR0_BASE + off \<or> b = Bar2 \<and> a = BAR2_BASE + off)"
proof -
  have "unat (BAR0_BASE + off) = 0x100000000 + unat off" "unat (BAR2_BASE + off) = 0x100001000 + unat off"
    if "unat off < 0x1000"
    using that by (simp_all add: BAR0_BASE_def BAR2_BASE_def unat_word_ariths)
  moreover have "unat (a - BAR0_BASE) = unat a - 0x100000000" if "0x100000000 \<le> unat a"
    using that unat_sub [of BAR0_BASE a] by (simp add: BAR0_BASE_def word_le_nat_alt)
  moreover have "unat (a - BAR2_BASE) = unat a - 0x100001000" if "0x100001000 \<le> unat a"
    using that unat_sub [of BAR2_BASE a] by (simp add: BAR2_BASE_def word_le_nat_alt)
  ultimately show ?thesis
    by (auto simp: bar_and_offset_def BAR_SPAN_def word_le_nat_alt word_less_nat_alt BAR0_BASE_def BAR2_BASE_def)
qed


text \<open>A platform whose HDV side denies registration and whose worker grants it, with both ledgers.\<close>

definition bar_of_fiov :: "i32 \<Rightarrow> HDV_PCI_BAR_SELECTOR" where
  "bar_of_fiov i = (if i = 0 then Bar0 else if i = 1 then Bar1 else if i = 2 then Bar2 else if i = 3 then Bar3
     else if i = 4 then Bar4 else Bar5)"

type_synonym ledgers = "(route \<times> doorbell) multiset \<times> ptr multiset"

definition denying_hdv :: "ledgers hdv_api" where
  "denying_hdv = not_windows\<lparr>HdvUnregisterDoorbell := (\<lambda>_ b off t f (A, R). (S_OK, A - {#(RouteHdv, b, off, t, f)#}, R))\<rparr>"

definition granting_worker :: "ledgers worker_api" where
  "granting_worker =
     \<lparr>LoadLibraryW = (\<lambda>_ w. (1, w)), GetProcAddress = (\<lambda>_ _ w. (2, w)), CoIncrementMTAUsage = (\<lambda>w. (S_OK, w)),
      GetVmWorkerProcess = (\<lambda>_ _ _ (A, R). ((S_OK, 11), A, add_mset 11 R)),
      GetDevice = (\<lambda>_ _ _ (A, R). ((S_OK, 12), A, add_mset 12 R)),
      QueryInterface = (\<lambda>_ _ (A, R). ((S_OK, 13), A, add_mset 13 R)), Release = (\<lambda>p (A, R). (0, A, R - {#p#})),
      RegisterDoorbell = (\<lambda>c b off t f e (A, R). (S_OK, add_mset (RouteWorker c, bar_of_fiov b, off, t, f) A, R)),
      UnregisterDoorbell = (\<lambda>c b off t f (A, R). (S_OK, A - {#(RouteWorker c, bar_of_fiov b, off, t, f)#}, R))\<rparr>"

lemma bar_of_fiov_bar [simp]: "bar_of_fiov (fiov_bar b) = b"
  by (cases b) (simp_all add: bar_of_fiov_def fiov_bar_def)

lemma ledgers_platform: "doorbell_platform denying_hdv granting_worker 9 fst snd"
  by (simp add: doorbell_platform_def arms_def com_rules_def com_out_rule_def keeps_def denying_hdv_def granting_worker_def
      not_windows_def case_prod_beta)


end
