(* ===== verification/Virtio_Hdv.thy ===== *)
theory Virtio_Hdv
  imports Pci_Device Doorbell Aperture_Cache
begin

text \<open>
  The bridge of \<open>virtio-hdv/src/lib.rs\<close>: \<open>Ops\<close>, which answers HDV's callbacks from OpenVMM's
  \<open>VirtioPciDevice\<close>, and \<open>attach_shared\<close>, which builds the device and its seams in order. The
  \<open>VirtioPciDevice\<close> is OpenVMM's: its config and MMIO entry points, which may panic, answer at once, fail
  or defer, are the record \<open>vapi\<close>. The device sits behind a mutex, so a panic under the lock
  poisons it. Shown: poisoning is fail-stop and never silent, the BAR sizing probe leaves the config
  space as it found it, every byte of an MMIO answer is accounted for, the addresses of the doorbells and
  of the MMIO routing agree, and what each outcome of an attach leaves behind.
\<close>

section \<open>The transport\<close>

datatype io_result = IoOk | IoErr | IoDefer

record 'v vpci_api =
  pci_cfg_read :: "u16 \<Rightarrow> 'v \<Rightarrow> (io_result \<times> u32) outcome \<times> 'v"
  pci_cfg_write :: "u16 \<Rightarrow> u32 \<Rightarrow> 'v \<Rightarrow> io_result outcome \<times> 'v"
  mmio_read :: "u64 \<Rightarrow> u8 list \<Rightarrow> 'v \<Rightarrow> io_result outcome \<times> u8 list \<times> 'v"
  mmio_write :: "u64 \<Rightarrow> u8 list \<Rightarrow> 'v \<Rightarrow> io_result outcome \<times> 'v"
  read_future :: "u8 list \<Rightarrow> 'v \<Rightarrow> bool outcome \<times> u8 list \<times> 'v"
  write_future :: "'v \<Rightarrow> unit outcome \<times> 'v"

definition obind ::
  "('s \<Rightarrow> 'a outcome \<times> 's) \<Rightarrow> ('a \<Rightarrow> 's \<Rightarrow> 'b outcome \<times> 's) \<Rightarrow> 's \<Rightarrow> 'b outcome \<times> 's" where
  "obind m k s = (case m s of (Panic, s) \<Rightarrow> (Panic, s) | (Return x, s) \<Rightarrow> k x s)"

definition oreturn :: "'a \<Rightarrow> 's \<Rightarrow> 'a outcome \<times> 's" where
  "oreturn x s = (Return x, s)"

definition cfg_read :: "'v vpci_api \<Rightarrow> u16 \<Rightarrow> 'v \<Rightarrow> u32 outcome \<times> 'v" where
  "cfg_read vapi off = obind (pci_cfg_read vapi off) (\<lambda>(r, v). oreturn (if r = IoOk then v else 0))"

definition cfg_write :: "'v vpci_api \<Rightarrow> u16 \<Rightarrow> u32 \<Rightarrow> 'v \<Rightarrow> unit outcome \<times> 'v" where
  "cfg_write vapi off val = obind (pci_cfg_write vapi off val) (\<lambda>_. oreturn ())"

definition bar_base :: "u8 \<Rightarrow> u64 option" where
  "bar_base bar = (if bar = 0 then Some BAR0_BASE else if bar = 2 then Some BAR2_BASE else None)"

definition program_internal_bars :: "'v vpci_api \<Rightarrow> 'v \<Rightarrow> unit outcome \<times> 'v" where
  "program_internal_bars vapi =
     obind (cfg_write vapi 0x10 (ucast BAR0_BASE)) (\<lambda>_.
     obind (cfg_write vapi 0x14 (ucast (drop_bit 32 BAR0_BASE))) (\<lambda>_.
     obind (cfg_write vapi 0x18 (ucast BAR2_BASE)) (\<lambda>_.
     cfg_write vapi 0x1c (ucast (drop_bit 32 BAR2_BASE)))))"

section \<open>Ops\<close>

record 'v ops_dev =
  vdev :: 'v
  poisoned :: bool

text \<open>\<open>self.dev.lock().unwrap()\<close> around a body: a poisoned lock panics, a panic poisons.\<close>

definition locked :: "('v \<Rightarrow> 'a outcome \<times> 'v) \<Rightarrow> 'v ops_dev \<Rightarrow> 'a outcome \<times> 'v ops_dev" where
  "locked f d =
     (if poisoned d then (Panic, d)
      else case f (vdev d) of
        (Panic, v) \<Rightarrow> (Panic, d\<lparr>vdev := v, poisoned := True\<rparr>)
      | (Return x, v) \<Rightarrow> (Return x, d\<lparr>vdev := v\<rparr>))"

definition bar_register :: "nat \<Rightarrow> u16" where
  "bar_register i = 0x10 + of_nat i * 4"

fun probe_bars :: "'v vpci_api \<Rightarrow> nat list \<Rightarrow> 'v \<Rightarrow> u32 list outcome \<times> 'v" where
  "probe_bars vapi [] = oreturn []"
| "probe_bars vapi (i # is) =
     obind (cfg_read vapi (bar_register i)) (\<lambda>orig.
     obind (cfg_write vapi (bar_register i) 0xFFFFFFFF) (\<lambda>_.
     obind (cfg_read vapi (bar_register i)) (\<lambda>slot.
     obind (cfg_write vapi (bar_register i) orig) (\<lambda>_.
     obind (probe_bars vapi is) (\<lambda>slots. oreturn (slot # slots))))))"

definition details_of :: "u32 \<Rightarrow> u32 \<Rightarrow> u32 \<Rightarrow> u32 list \<Rightarrow> pci_details" where
  "details_of ident cls sb probed =
     \<lparr>vendor_id = ucast ident, device_id = ucast (drop_bit 16 ident), revision_id = ucast cls,
      prog_if = ucast (drop_bit 8 cls), sub_class = ucast (drop_bit 16 cls), base_class = ucast (drop_bit 24 cls),
      sub_vendor_id = ucast sb, sub_system_id = ucast (drop_bit 16 sb), probed_bars = probed\<rparr>"

definition details_body :: "'v vpci_api \<Rightarrow> 'v \<Rightarrow> pci_details outcome \<times> 'v" where
  "details_body vapi =
     obind (cfg_read vapi 0x00) (\<lambda>ident.
     obind (cfg_read vapi 0x08) (\<lambda>cls.
     obind (cfg_read vapi 0x2c) (\<lambda>sb.
     obind (cfg_read vapi 0x04) (\<lambda>cmd.
     obind (cfg_write vapi 0x04 0) (\<lambda>_.
     obind (probe_bars vapi [0..<6]) (\<lambda>probed.
     obind (cfg_write vapi 0x04 (cmd AND 0xFFFF)) (\<lambda>_.
     oreturn (details_of ident cls sb probed))))))))"

definition fill_ff :: "u8 list \<Rightarrow> u8 list" where
  "fill_ff data = map (\<lambda>_. 0xff) data"

text \<open>The lock is released before a deferred access blocks, so a panic there poisons nothing.\<close>

definition Ops_read_bar ::
  "'v vpci_api \<Rightarrow> u8 \<Rightarrow> u64 \<Rightarrow> u8 list \<Rightarrow> 'v ops_dev \<Rightarrow> unit outcome \<times> u8 list \<times> 'v ops_dev" where
  "Ops_read_bar vapi bar offset data d =
     (if poisoned d then (Panic, data, d)
      else case bar_base bar of
        None \<Rightarrow> (Return (), fill_ff data, d)
      | Some base \<Rightarrow>
          (case mmio_read vapi (base + offset) data (vdev d) of
             (Panic, data, v) \<Rightarrow> (Panic, data, d\<lparr>vdev := v, poisoned := True\<rparr>)
           | (Return IoOk, data, v) \<Rightarrow> (Return (), data, d\<lparr>vdev := v\<rparr>)
           | (Return IoErr, data, v) \<Rightarrow> (Return (), fill_ff data, d\<lparr>vdev := v\<rparr>)
           | (Return IoDefer, data, v) \<Rightarrow>
               (case read_future vapi data v of
                  (Panic, data, v) \<Rightarrow> (Panic, data, d\<lparr>vdev := v\<rparr>)
                | (Return ok, data, v) \<Rightarrow> (Return (), if ok then data else fill_ff data, d\<lparr>vdev := v\<rparr>))))"

definition Ops_write_bar ::
  "'v vpci_api \<Rightarrow> u8 \<Rightarrow> u64 \<Rightarrow> u8 list \<Rightarrow> 'v ops_dev \<Rightarrow> unit outcome \<times> 'v ops_dev" where
  "Ops_write_bar vapi bar offset data d =
     (if poisoned d then (Panic, d)
      else case bar_base bar of
        None \<Rightarrow> (Return (), d)
      | Some base \<Rightarrow>
          (case mmio_write vapi (base + offset) data (vdev d) of
             (Panic, v) \<Rightarrow> (Panic, d\<lparr>vdev := v, poisoned := True\<rparr>)
           | (Return IoDefer, v) \<Rightarrow>
               (case write_future vapi v of
                  (Panic, v) \<Rightarrow> (Panic, d\<lparr>vdev := v\<rparr>) | (Return _, v) \<Rightarrow> (Return (), d\<lparr>vdev := v\<rparr>))
           | (Return _, v) \<Rightarrow> (Return (), d\<lparr>vdev := v\<rparr>)))"

definition virtio_ops :: "'v vpci_api \<Rightarrow> 'v ops_dev pci_ops" where
  "virtio_ops vapi =
     \<lparr>op_details = locked (details_body vapi),
      op_read_config = (\<lambda>offset. locked (cfg_read vapi (ucast offset))),
      op_write_config = (\<lambda>offset val. locked (cfg_write vapi (ucast offset) val)),
      op_read_bar = Ops_read_bar vapi, op_write_bar = Ops_write_bar vapi,
      op_set_configuration = default_set_configuration, op_start = (\<lambda>d. (Return True, d)), op_stop = default_stop\<rparr>"

text \<open>The poll pump tolerates a poisoned lock: it goes on polling the device.\<close>

definition poll_pump :: "('v \<Rightarrow> unit outcome \<times> 'v) \<Rightarrow> 'v ops_dev \<Rightarrow> unit outcome \<times> 'v ops_dev" where
  "poll_pump poll_device d =
     (case poll_device (vdev d) of
        (Panic, v) \<Rightarrow> (Panic, d\<lparr>vdev := v, poisoned := True\<rparr>)
      | (Return _, v) \<Rightarrow> (Return (), d\<lparr>vdev := v\<rparr>))"

section \<open>Attaching\<close>

datatype attach_error = AttachFs rust_str | AttachTransport rust_str | AttachHdv HRESULT

datatype fs_device = SerialDevice | OffloadDevice nat

text \<open>The objects that hold the shared handle cell; all of them see it bound at once.\<close>

record 'w seams =
  seam_mem :: hdv_aperture_mem
  seam_msi :: "'w msi_path"
  seam_doorbells :: "'w doorbells option"

definition bind_handle :: "HDV_DEVICE \<Rightarrow> 'w seams \<Rightarrow> 'w seams" where
  "bind_handle device s =
     s\<lparr>seam_mem := (seam_mem s)\<lparr>mem_handle := DeviceHandle_set device (mem_handle (seam_mem s))\<rparr>,
       seam_msi := (seam_msi s)\<lparr>msi_handle := DeviceHandle_set device (msi_handle (seam_msi s))\<rparr>,
       seam_doorbells :=
         map_option (\<lambda>db. db\<lparr>db_handle := DeviceHandle_set device (db_handle db)\<rparr>) (seam_doorbells s)\<rparr>"

record 'w virtio_hdv_device =
  vh_rearm :: rearm_net
  vh_pci :: pci_device
  vh_seams :: "'w seams"
  vh_kind :: fs_device

definition make_seams ::
  "env_var \<Rightarrow> bool \<Rightarrow> nat \<Rightarrow> u64 \<Rightarrow> flag \<Rightarrow> guid \<Rightarrow> guid option \<Rightarrow> req_stats \<Rightarrow> 'w process \<Rightarrow> 'w seams" where
  "make_seams doorbell_env stats_on now guest_mem_size alive inst rid rstats p =
     \<lparr>seam_mem = into_guest_memory DeviceHandle_new guest_mem_size alive stats_on,
      seam_msi = \<lparr>msi_handle = DeviceHandle_new, seen = InterruptLog_new now, msi_stats = rstats, msi_process = p\<rparr>,
      seam_doorbells =
        (if doorbell_enabled doorbell_env
         then Some (HdvDoorbells_new DeviceHandle_new (map_option (\<lambda>r. (r, inst)) rid)
                \<lparr>com_proc = p, once_mta = False, once_fn = None\<rparr>)
         else None)\<rparr>"

text \<open>
  \<open>fs_new\<close> is \<open>VirtioFs::new\<close> on the workspace, \<open>transport_new\<close> is \<open>VirtioPciDevice::new\<close> on the device
  and the seams; both belong to OpenVMM. The result is the attached device, an error, or a panic of
  OpenVMM's config emulator, which nothing catches here.
\<close>

definition attach_shared ::
  "'w hdv_api \<Rightarrow> 'v vpci_api \<Rightarrow> (rust_str + 'fs) \<Rightarrow> ('fs \<Rightarrow> fs_device \<Rightarrow> 'w seams \<Rightarrow> rust_str + 'v) \<Rightarrow>
     env_var \<Rightarrow> nat option \<Rightarrow> 'w seams \<Rightarrow> device_host \<Rightarrow> guid \<Rightarrow> guid \<Rightarrow> ptr \<Rightarrow> ptr \<Rightarrow>
     'v ops_dev contexts \<times> 'w process \<Rightarrow>
     (attach_error + 'w virtio_hdv_device) outcome \<times> 'v ops_dev contexts \<times> 'w process" where
  "attach_shared api vapi fs_new transport_new workers_env parallelism sm host cls inst ctx vtable st =
     (case st of (h, p) \<Rightarrow>
        (case fs_new of
           Inl e \<Rightarrow> (Return (Inl (AttachFs e)), h, p)
         | Inr fs \<Rightarrow>
             (let workers = configured_workers workers_env parallelism;
                  kind = (if 0 < workers then OffloadDevice workers else SerialDevice)
              in case transport_new fs kind sm of
                   Inl e \<Rightarrow> (Return (Inl (AttachTransport e)), h, p)
                 | Inr v \<Rightarrow>
                     (case program_internal_bars vapi v of
                        (Panic, _) \<Rightarrow> (Panic, h, p)
                      | (Return _, v) \<Rightarrow>
                          (case PciDevice_create_shared api host \<lparr>vdev = v, poisoned = False\<rparr> cls inst ctx vtable (h, p) of
                             (Inl e, h, p) \<Rightarrow> (Return (Inl (AttachHdv e)), h, p)
                           | (Inr pci, h, p) \<Rightarrow>
                               (let sm = bind_handle (pci_handle pci) sm;
                                    dev = the (h ctx)
                                in case cfg_write vapi 0x04 0x2 (vdev dev) of
                                     (Panic, v) \<Rightarrow> (Panic, h(ctx \<mapsto> dev\<lparr>vdev := v, poisoned := True\<rparr>), p)
                                   | (Return _, v) \<Rightarrow>
                                       (Return (Inr
                                          \<lparr>vh_rearm = RearmNet_spawn (pci_handle pci) (seen (seam_msi sm)), vh_pci = pci,
                                           vh_seams = sm, vh_kind = kind\<rparr>),
                                        h(ctx \<mapsto> dev\<lparr>vdev := v\<rparr>), p)))))))"

text \<open>With a host of its own, which is dropped when no device comes out.\<close>

definition attach_with_instance ::
  "'w hdv_api \<Rightarrow> 'v vpci_api \<Rightarrow> (rust_str + 'fs) \<Rightarrow> ('fs \<Rightarrow> fs_device \<Rightarrow> 'w seams \<Rightarrow> rust_str + 'v) \<Rightarrow>
     env_var \<Rightarrow> nat option \<Rightarrow> 'w seams \<Rightarrow> device_host \<Rightarrow> guid \<Rightarrow> ptr \<Rightarrow> ptr \<Rightarrow>
     'v ops_dev contexts \<times> 'w process \<Rightarrow>
     (attach_error + 'w virtio_hdv_device) outcome \<times> 'v ops_dev contexts \<times> 'w process" where
  "attach_with_instance api vapi fs_new transport_new workers_env parallelism sm host inst ctx vtable st =
     (case attach_shared api vapi fs_new transport_new workers_env parallelism sm host HVFS_DEVICE_CLASS_ID inst ctx vtable st of
        (Return (Inr d), h, p) \<Rightarrow> (Return (Inr d), h, p)
      | (r, h, p) \<Rightarrow> (r, h, DeviceHost_drop api host p))"

definition attach ::
  "'w hdv_api \<Rightarrow> 'v vpci_api \<Rightarrow> (rust_str + 'fs) \<Rightarrow> ('fs \<Rightarrow> fs_device \<Rightarrow> 'w seams \<Rightarrow> rust_str + 'v) \<Rightarrow>
     env_var \<Rightarrow> nat option \<Rightarrow> 'w seams \<Rightarrow> device_host \<Rightarrow> ptr \<Rightarrow> ptr \<Rightarrow>
     'v ops_dev contexts \<times> 'w process \<Rightarrow>
     (attach_error + 'w virtio_hdv_device) outcome \<times> 'v ops_dev contexts \<times> 'w process" where
  "attach api vapi fs_new transport_new workers_env parallelism sm host =
     attach_with_instance api vapi fs_new transport_new workers_env parallelism sm host HVFS_DEVICE_INSTANCE_ID"

section \<open>Poisoning\<close>

lemma locked_dead: "poisoned d \<Longrightarrow> locked f d = (Panic, d)"
  by (simp add: locked_def)

lemma locked_dies: "poisoned (snd (locked f d)) \<Longrightarrow> fst (locked f d) = Panic"
  by (auto simp: locked_def split: if_splits outcome.splits prod.splits)

interpretation virtio: fail_stop_device "virtio_ops vapi" poisoned
proof unfold_locales
  fix d :: "'a ops_dev" and b a bs
  show "poisoned d \<Longrightarrow> op_read_bar (virtio_ops vapi) b a bs d = (Panic, bs, d)"
    "poisoned d \<Longrightarrow> op_write_bar (virtio_ops vapi) b a bs d = (Panic, d)"
    by (simp_all add: virtio_ops_def Ops_read_bar_def Ops_write_bar_def)
  show "poisoned (snd (snd (op_read_bar (virtio_ops vapi) b a bs d))) \<Longrightarrow> fst (op_read_bar (virtio_ops vapi) b a bs d) = Panic"
    by (auto simp: virtio_ops_def Ops_read_bar_def split: if_splits option.splits outcome.splits io_result.splits prod.splits)
  show "poisoned (snd (op_write_bar (virtio_ops vapi) b a bs d)) \<Longrightarrow> fst (op_write_bar (virtio_ops vapi) b a bs d) = Panic"
    by (auto simp: virtio_ops_def Ops_write_bar_def split: if_splits option.splits outcome.splits io_result.splits prod.splits)
qed (auto simp: virtio_ops_def locked_dead dest: locked_dies)


text \<open>A transport whose config reads always panic.\<close>

definition panicking_vpci :: "unit vpci_api" where
  "panicking_vpci =
     \<lparr>pci_cfg_read = (\<lambda>_ v. (Panic, v)), pci_cfg_write = (\<lambda>_ _ v. (Return IoOk, v)),
      mmio_read = (\<lambda>_ bs v. (Return IoOk, bs, v)), mmio_write = (\<lambda>_ _ v. (Return IoOk, v)),
      read_future = (\<lambda>bs v. (Return True, bs, v)), write_future = (\<lambda>v. (Return (), v))\<rparr>"


section \<open>The sizing probe\<close>

text \<open>
  What the probe relies on of the config emulator: dwords can be read at any time; the command half of
  the register at 4 takes what is written through its writable bits, the status half ignores zeros; a
  BAR register with size mask and type bits takes an address while memory decode (bit 1 of the
  command) is off and ignores writes while it is on. \<open>rd\<close> reads the registers off the emulator's
  state.
\<close>

definition config_space ::
  "'v vpci_api \<Rightarrow> ('v \<Rightarrow> u16 \<Rightarrow> u32) \<Rightarrow> (nat \<Rightarrow> u32) \<Rightarrow> (nat \<Rightarrow> u32) \<Rightarrow> u32 \<Rightarrow> bool" where
  "config_space vapi rd size_mask type_bits cmd_bits \<longleftrightarrow>
     (\<forall>off v. pci_cfg_read vapi off v = (Return (IoOk, rd v off), v)) \<and>
     (\<forall>val v. val AND 0xFFFF = val \<longrightarrow>
        (\<exists>v'. pci_cfg_write vapi 4 val v = (Return IoOk, v') \<and>
           rd v' = (rd v)(4 := (rd v 4 AND NOT 0xFFFF) OR (val AND cmd_bits)))) \<and>
     (\<forall>i < 6. \<forall>val v. \<exists>v'. pci_cfg_write vapi (bar_register i) val v = (Return IoOk, v') \<and>
        rd v' = (if bit (rd v 4) 1 then rd v
                 else (rd v)(bar_register i := (val AND size_mask i) OR type_bits i)))"

text \<open>Registers that only hold what they can take.\<close>

definition settled :: "(u16 \<Rightarrow> u32) \<Rightarrow> (nat \<Rightarrow> u32) \<Rightarrow> (nat \<Rightarrow> u32) \<Rightarrow> u32 \<Rightarrow> bool" where
  "settled r size_mask type_bits cmd_bits \<longleftrightarrow>
     r 4 AND 0xFFFF AND cmd_bits = r 4 AND 0xFFFF \<and>
     (\<forall>i < 6. (r (bar_register i) AND size_mask i) OR type_bits i = r (bar_register i))"

lemma bar_register_cmd: "i < 6 \<Longrightarrow> bar_register i \<noteq> 4"
proof -
  assume "i < 6"
  then have "i = 0 \<or> i = 1 \<or> i = 2 \<or> i = 3 \<or> i = 4 \<or> i = 5" by linarith
  then show ?thesis by (auto simp: bar_register_def)
qed

lemma cfg_read_config:
  "config_space vapi rd sm tb cb \<Longrightarrow> cfg_read vapi off v = (Return (rd v off), v)"
  by (simp add: config_space_def cfg_read_def obind_def oreturn_def)

lemma cfg_write_bar:
  assumes "config_space vapi rd sm tb cb" "i < 6" "\<not> bit (rd v 4) 1"
  obtains v' where "cfg_write vapi (bar_register i) val v = (Return (), v')"
    "rd v' = (rd v)(bar_register i := (val AND sm i) OR tb i)"
proof -
  obtain v' where v': "pci_cfg_write vapi (bar_register i) val v = (Return IoOk, v')"
    "rd v' = (if bit (rd v 4) 1 then rd v else (rd v)(bar_register i := (val AND sm i) OR tb i))"
    using assms(1,2) unfolding config_space_def by blast
  then have "cfg_write vapi (bar_register i) val v = (Return (), v')" by (simp add: cfg_write_def obind_def oreturn_def)
  then show thesis using v'(2) assms(3) by (intro that) simp_all
qed

lemma cfg_write_cmd:
  assumes "config_space vapi rd sm tb cb" "val AND 0xFFFF = val"
  obtains v' where "cfg_write vapi 4 val v = (Return (), v')"
    "rd v' = (rd v)(4 := (rd v 4 AND NOT 0xFFFF) OR (val AND cb))"
proof -
  obtain v' where v': "pci_cfg_write vapi 4 val v = (Return IoOk, v')"
    "rd v' = (rd v)(4 := (rd v 4 AND NOT 0xFFFF) OR (val AND cb))"
    using assms unfolding config_space_def by blast
  then have "cfg_write vapi 4 val v = (Return (), v')" by (simp add: cfg_write_def obind_def oreturn_def)
  then show thesis using v'(2) by (rule that)
qed

lemma probe_bars_restores:
  assumes C: "config_space vapi rd sm tb cb" and "\<forall>i \<in> set is. i < 6" "\<not> bit (rd v 4) 1"
    "\<forall>i \<in> set is. (rd v (bar_register i) AND sm i) OR tb i = rd v (bar_register i)"
  shows "\<exists>v'. probe_bars vapi is v = (Return (map (\<lambda>i. sm i OR tb i) is), v') \<and> rd v' = rd v"
  using assms(2-)
proof (induction "is" arbitrary: v)
  case Nil
  then show ?case by (simp add: oreturn_def)
next
  case (Cons i "is")
  let ?b = "bar_register i"
  have b4: "?b \<noteq> 4" using Cons.prems(1) by (intro bar_register_cmd) simp
  have i: "i < 6" using Cons.prems(1) by simp
  obtain v1 where v1: "cfg_write vapi ?b 0xFFFFFFFF v = (Return (), v1)" "rd v1 = (rd v)(?b := (0xFFFFFFFF AND sm i) OR tb i)"
    by (rule cfg_write_bar [OF C i Cons.prems(2)])
  have "\<not> bit (rd v1 4) 1" using v1(2) b4 Cons.prems(2) by simp
  then obtain v2 where v2: "cfg_write vapi ?b (rd v ?b) v1 = (Return (), v2)" "rd v2 = (rd v1)(?b := (rd v ?b AND sm i) OR tb i)"
    by (rule cfg_write_bar [OF C i])
  have rd2: "rd v2 = rd v" using v1(2) v2(2) Cons.prems(3) by (simp add: fun_upd_idem)
  obtain v3 where v3: "probe_bars vapi is v2 = (Return (map (\<lambda>i. sm i OR tb i) is), v3)" "rd v3 = rd v2"
    using Cons.IH [of v2] Cons.prems rd2 by auto
  have "probe_bars vapi (i # is) v = (Return ((rd v1 ?b) # map (\<lambda>i. sm i OR tb i) is), v3)"
    using v1(1) by (simp add: obind_def cfg_read_config [OF C] v2(1) v3(1) oreturn_def)
  moreover have "(0xFFFFFFFF :: u32) = - 1" by simp
  ultimately show ?case using v1(2) v3(2) rd2 by (simp del: probe_bars.simps)
qed

lemma halves: "(x AND NOT m) OR (x AND m) = x" for x m :: u32
  by (rule bit_word_eqI) (auto simp: bit_simps)

text \<open>
  C21. \<open>GetDetails\<close> at any time. Over a config emulator that works as documented, with memory decode on
  or off, the probe reports for each of the six BARs its size mask with its type bits, the ids come from
  the id registers, and afterwards every register holds what it held before, the command register
  included.
\<close>

theorem details_probe_restores:
  assumes "config_space vapi rd size_mask type_bits cmd_bits"
    and "settled (rd v) size_mask type_bits cmd_bits"
  shows "\<exists>v'. details_body vapi v =
      (Return (details_of (rd v 0) (rd v 8) (rd v 0x2c) (map (\<lambda>i. size_mask i OR type_bits i) [0..<6])), v') \<and>
    rd v' = rd v"
proof -
  note R = cfg_read_config [OF assms(1)]
  obtain v1 where v1: "cfg_write vapi 4 0 v = (Return (), v1)" "rd v1 = (rd v)(4 := rd v 4 AND NOT 0xFFFF)"
    by (rule cfg_write_cmd [OF assms(1), of 0 v]) simp_all
  have b: "bar_register i \<noteq> 4" if "i \<in> set [0..<6]" for i using that by (intro bar_register_cmd) simp
  have off: "\<not> bit (rd v1 4) 1" using v1(2) by (simp add: bit_simps)
  have ok: "\<forall>i \<in> set [0..<6]. (rd v1 (bar_register i) AND size_mask i) OR type_bits i = rd v1 (bar_register i)"
    using v1(2) b assms(2) by (simp add: settled_def)
  obtain v2 where v2: "probe_bars vapi [0..<6] v1 = (Return (map (\<lambda>i. size_mask i OR type_bits i) [0..<6]), v2)" "rd v2 = rd v1"
    using probe_bars_restores [OF assms(1) _ off, of "[0..<6]"] ok by auto
  obtain v3 where v3: "cfg_write vapi 4 (rd v 4 AND 0xFFFF) v2 = (Return (), v3)"
    "rd v3 = (rd v2)(4 := (rd v2 4 AND NOT 0xFFFF) OR (rd v 4 AND 0xFFFF AND cmd_bits))"
    by (rule cfg_write_cmd [OF assms(1), of "rd v 4 AND 0xFFFF" v2]) (simp_all add: ac_simps)
  have "rd v3 = rd v"
    using v1(2) v2(2) v3(2) assms(2) halves [of "rd v 4" "0xFFFF"] by (simp add: settled_def fun_upd_idem and.assoc)
  moreover have "details_body vapi v =
      (Return (details_of (rd v 0) (rd v 8) (rd v 0x2c) (map (\<lambda>i. size_mask i OR type_bits i) [0..<6])), v3)"
    unfolding details_body_def
    using v1(1) v2(1) v3(1) by (simp add: obind_def R oreturn_def del: upt_rec_numeral)
  ultimately show ?thesis by blast
qed

text \<open>An emulator with six 4 KiB memory BARs of type bits 4.\<close>

definition mem_vpci :: "(u16 \<Rightarrow> u32) vpci_api" where
  "mem_vpci =
     \<lparr>pci_cfg_read = (\<lambda>off v. (Return (IoOk, v off), v)),
      pci_cfg_write = (\<lambda>off val v. (Return IoOk,
        if off = 4 then v(4 := (v 4 AND NOT 0xFFFF) OR (val AND 7))
        else if off \<in> bar_register ` {0..<6} \<and> \<not> bit (v 4) 1 then v(off := (val AND 0xFFFFF000) OR 4) else v)),
      mmio_read = (\<lambda>_ bs v. (Return IoOk, bs, v)), mmio_write = (\<lambda>_ _ v. (Return IoOk, v)),
      read_future = (\<lambda>bs v. (Return True, bs, v)), write_future = (\<lambda>v. (Return (), v))\<rparr>"

lemma mem_vpci_config: "config_space mem_vpci (\<lambda>v. v) (\<lambda>_. 0xFFFFF000) (\<lambda>_. 4) 7"
  using bar_register_cmd by (auto simp: config_space_def mem_vpci_def)

theorem details_probe_restores_witness:
  "\<exists>v'. details_body mem_vpci (\<lambda>off. if off = 0 then 0x105A1AF4 else if off = 4 then 2 else 4) =
     (Return (details_of 0x105A1AF4 4 4 (map (\<lambda>_. 0xFFFFF004) [0..<6])), v')"
proof -
  let ?v = "\<lambda>off :: u16. if off = 0 then 0x105A1AF4 else if off = 4 then 2 else 4 :: u32"
  have "bar_register i \<noteq> 0 \<and> bar_register i \<noteq> 4" if "i < 6" for i
  proof -
    have "i = 0 \<or> i = 1 \<or> i = 2 \<or> i = 3 \<or> i = 4 \<or> i = 5" using that by linarith
    then show ?thesis by (auto simp: bar_register_def)
  qed
  then have "settled ?v (\<lambda>_. 0xFFFFF000) (\<lambda>_. 4) 7" by (simp add: settled_def)
  from details_probe_restores [of mem_vpci "\<lambda>v. v" "\<lambda>_. 0xFFFFF000" "\<lambda>_. 4" 7 ?v, OF mem_vpci_config this] show ?thesis
    by (auto simp del: upt_rec_numeral)
qed

section \<open>MMIO routing\<close>

text \<open>
  Routing by \<open>(bar, offset)\<close>. The address the doorbell seam translates back is the address the MMIO
  path builds, for exactly the offsets below 4 KiB of BAR 0 and BAR 2; and a read of a healthy device
  returns the transport's bytes, or as many \<open>0xff\<close> as were asked for when the BAR does not exist, the
  transport refuses or a deferred access fails.
\<close>

lemma mmio_routing:
  "(bar_and_offset a = Some (b, off) \<longleftrightarrow>
      unat off < 0x1000 \<and> (\<exists>base. bar_base (of_nat (bar_discriminant b)) = Some base \<and> a = base + off)) \<and>
   (\<not> poisoned d \<longrightarrow>
      (let (r, data', d') = Ops_read_bar vapi bar offset data d in
       case bar_base bar of
         None \<Rightarrow> r = Return () \<and> data' = replicate (length data) 0xff \<and> d' = d
       | Some base \<Rightarrow>
           (\<forall>bs v. mmio_read vapi (base + offset) data (vdev d) = (Return IoOk, bs, v) \<longrightarrow>
              r = Return () \<and> data' = bs \<and> vdev d' = v \<and> \<not> poisoned d') \<and>
           (\<forall>bs v. mmio_read vapi (base + offset) data (vdev d) = (Return IoErr, bs, v) \<longrightarrow>
              r = Return () \<and> data' = replicate (length bs) 0xff \<and> vdev d' = v \<and> \<not> poisoned d') \<and>
           (\<forall>bs v bs' v'. mmio_read vapi (base + offset) data (vdev d) = (Return IoDefer, bs, v) \<longrightarrow>
              read_future vapi bs v = (Return False, bs', v') \<longrightarrow>
              r = Return () \<and> data' = replicate (length bs') 0xff \<and> \<not> poisoned d')))"
proof (intro conjI impI)
  have base: "bar_base (of_nat (bar_discriminant b)) = (if b = Bar0 then Some BAR0_BASE else if b = Bar2 then Some BAR2_BASE else None)"
    by (cases b) (simp_all add: bar_base_def)
  show "bar_and_offset a = Some (b, off) \<longleftrightarrow>
      unat off < 0x1000 \<and> (\<exists>base. bar_base (of_nat (bar_discriminant b)) = Some base \<and> a = base + off)"
    by (auto simp: bar_and_offset_Some base)
  assume "\<not> poisoned d"
  then show "let (r, data', d') = Ops_read_bar vapi bar offset data d in
       case bar_base bar of
         None \<Rightarrow> r = Return () \<and> data' = replicate (length data) 0xff \<and> d' = d
       | Some base \<Rightarrow>
           (\<forall>bs v. mmio_read vapi (base + offset) data (vdev d) = (Return IoOk, bs, v) \<longrightarrow>
              r = Return () \<and> data' = bs \<and> vdev d' = v \<and> \<not> poisoned d') \<and>
           (\<forall>bs v. mmio_read vapi (base + offset) data (vdev d) = (Return IoErr, bs, v) \<longrightarrow>
              r = Return () \<and> data' = replicate (length bs) 0xff \<and> vdev d' = v \<and> \<not> poisoned d') \<and>
           (\<forall>bs v bs' v'. mmio_read vapi (base + offset) data (vdev d) = (Return IoDefer, bs, v) \<longrightarrow>
              read_future vapi bs v = (Return False, bs', v') \<longrightarrow>
              r = Return () \<and> data' = replicate (length bs') 0xff \<and> \<not> poisoned d')"
    by (cases "bar_base bar") (auto simp: Ops_read_bar_def fill_ff_def map_replicate_const)
qed

lemma mmio_routing_example:
  "bar_and_offset 0x100001010 = Some (Bar2, 0x10) \<and>
   fst (snd (Ops_read_bar mem_vpci 3 0 [1, 2] \<lparr>vdev = (\<lambda>_. 0), poisoned = False\<rparr>)) = [0xff, 0xff]"
  using mmio_routing [of "0x100001010" Bar2 "0x10" "\<lparr>vdev = (\<lambda>_. 0), poisoned = False\<rparr>" mem_vpci 3 0 "[1, 2]"]
  by (simp add: bar_base_def BAR2_BASE_def case_prod_beta Let_def)

section \<open>Outcomes of an attach\<close>

lemma create_shared_outcome:
  assumes "h ctx = None" "PciDevice_create_shared api host dev cls inst ctx vt (h, p) = (r, h', p')"
  shows "(case r of Inl e \<Rightarrow> failed e \<and> h' = h | Inr pci \<Rightarrow> h' = h(ctx \<mapsto> dev) \<and> pci_host pci = host) \<and>
    p' = p\<lparr>platform := snd (HdvCreateDeviceInstance api (host_handle host) DevicePci cls inst vt ctx (platform p))\<rparr>"
  using assms by (auto simp: PciDevice_create_shared_def on_platform_eq fun_upd_idem Let_def case_prod_beta split: if_splits)

lemma attach_shared_outcome:
  assumes "h ctx = None"
    and "attach_shared api vapi fs_new transport_new wenv par sm host cls inst ctx vt (h, p) = (Return r, h', p')"
  shows "(case r of
       Inl e \<Rightarrow> h' = h \<and> (case e of AttachHdv c \<Rightarrow> failed c | _ \<Rightarrow> p' = p)
     | Inr dev \<Rightarrow>
         pci_host (vh_pci dev) = host \<and> vh_seams dev = bind_handle (pci_handle (vh_pci dev)) sm \<and>
         mem_handle (seam_mem (vh_seams dev)) = pci_handle (vh_pci dev) \<and>
         msi_handle (seam_msi (vh_seams dev)) = pci_handle (vh_pci dev) \<and>
         rearm_handle (vh_rearm dev) = pci_handle (vh_pci dev) \<and> \<not> stop (vh_rearm dev) \<and>
         (vh_kind dev = SerialDevice \<longleftrightarrow> configured_workers wenv par = 0) \<and>
         (\<exists>fs v v1 v2. fs_new = Inr fs \<and> transport_new fs (vh_kind dev) sm = Inr v \<and>
            program_internal_bars vapi v = (Return (), v1) \<and> cfg_write vapi 0x04 0x2 v1 = (Return (), v2) \<and>
            h' = h(ctx \<mapsto> \<lparr>vdev = v2, poisoned = False\<rparr>)))"
proof (cases fs_new)
  case (Inl e)
  with assms(2) show ?thesis by (auto simp: attach_shared_def)
next
  case (Inr fs)
  define kind where "kind = (if 0 < configured_workers wenv par then OffloadDevice (configured_workers wenv par) else SerialDevice)"
  have eq: "attach_shared api vapi fs_new transport_new wenv par sm host cls inst ctx vt (h, p) =
    (case transport_new fs kind sm of
       Inl e \<Rightarrow> (Return (Inl (AttachTransport e)), h, p)
     | Inr v \<Rightarrow>
         (case program_internal_bars vapi v of
            (Panic, _) \<Rightarrow> (Panic, h, p)
          | (Return _, v) \<Rightarrow>
              (case PciDevice_create_shared api host \<lparr>vdev = v, poisoned = False\<rparr> cls inst ctx vt (h, p) of
                 (Inl e, h, p) \<Rightarrow> (Return (Inl (AttachHdv e)), h, p)
               | (Inr pci, h, p) \<Rightarrow>
                   (case cfg_write vapi 0x04 0x2 (vdev (the (h ctx))) of
                      (Panic, v) \<Rightarrow> (Panic, h(ctx \<mapsto> (the (h ctx))\<lparr>vdev := v, poisoned := True\<rparr>), p)
                    | (Return _, v) \<Rightarrow>
                        (Return (Inr \<lparr>vh_rearm = RearmNet_spawn (pci_handle pci) (seen (seam_msi (bind_handle (pci_handle pci) sm))),
                           vh_pci = pci, vh_seams = bind_handle (pci_handle pci) sm, vh_kind = kind\<rparr>),
                         h(ctx \<mapsto> (the (h ctx))\<lparr>vdev := v\<rparr>), p)))))"
    unfolding attach_shared_def Inr Let_def kind_def [symmetric] by (simp only: prod.case sum.case)
  show ?thesis
  proof (cases "transport_new fs kind sm")
    case (Inl e)
    with assms(2) eq show ?thesis by auto
  next
    case (Inr v)
    note t = Inr
    obtain v1 where v1: "program_internal_bars vapi v = (Return (), v1)"
      using assms(2) eq Inr by (auto split: prod.splits outcome.splits)
    obtain q hq pq where q: "PciDevice_create_shared api host \<lparr>vdev = v1, poisoned = False\<rparr> cls inst ctx vt (h, p) = (q, hq, pq)"
      by (metis prod_cases3)
    note c = create_shared_outcome [OF assms(1) q]
    show ?thesis
    proof (cases q)
      case (Inl e)
      with assms(2) eq t v1 q c show ?thesis by auto
    next
      case (Inr pci)
      then have hq: "hq = h(ctx \<mapsto> \<lparr>vdev = v1, poisoned = False\<rparr>)" "pci_host pci = host" using c by simp_all
      obtain v2 where "cfg_write vapi 0x04 0x2 v1 = (Return (), v2)"
        using assms(2) eq t v1 q Inr hq by (auto split: prod.splits outcome.splits)
      moreover have "kind = SerialDevice \<longleftrightarrow> configured_workers wenv par = 0" by (simp add: kind_def)
      ultimately show ?thesis using assms(2) eq t v1 q Inr hq \<open>fs_new = Inr fs\<close>
        by (auto simp: bind_handle_def DeviceHandle_set_def RearmNet_spawn_def)
    qed
  qed
qed



end
