(* ===== verification/Proxy.thy ===== *)
theory Proxy
  imports Hdv
begin

text \<open>
  The \<open>IVmDeviceHostSupport\<close> object of \<open>hdv/src/proxy.rs\<close>: a reference-counted COM object that HDV queries
  and through which it registers its device host. The object lives on a heap of boxes; a call through a
  pointer to a freed box is the value \<open>None\<close>. The owner and HDV are clients that call the four methods
  in any order, each as often as its references allow. Shown: the count is the number of references
  held, the box is freed exactly when the last one is given back and never used afterwards, and what
  a registration records.
\<close>

section \<open>The object\<close>

definition IID_IUNKNOWN :: guid where
  "IID_IUNKNOWN = \<lparr>Data1 = 0, Data2 = 0, Data3 = 0, Data4 = [0xC0, 0, 0, 0, 0, 0, 0, 0x46]\<rparr>"

definition IID_IVMDEVICEHOSTSUPPORT :: guid where
  "IID_IVMDEVICEHOSTSUPPORT =
     \<lparr>Data1 = 0xe31aa49b, Data2 = 0x0914, Data3 = 0x465e,
      Data4 = [0xb1, 0x45, 0x1b, 0x9b, 0xa1, 0x3e, 0xfb, 0x10]\<rparr>"

record support_inner =
  refcount :: u32
  support_system :: HCS_SYSTEM
  called :: bool
  register_hr :: HRESULT
  ipc_section :: u64
  device_host_pid :: u32

type_synonym boxes = "ptr \<rightharpoonup> support_inner"

definition DeviceHostSupport_new :: "HCS_SYSTEM \<Rightarrow> ptr \<Rightarrow> boxes \<Rightarrow> boxes" where
  "DeviceHostSupport_new system fresh h =
     h(fresh \<mapsto> \<lparr>refcount = 1, support_system = system, called = False, register_hr = 0, ipc_section = 0,
                  device_host_pid = 0\<rparr>)"

text \<open>
  \<open>qi\<close> with the interface id the caller points at, if it does, and with whether the out pointer is
  non-null: the status, what is written through the out pointer (\<open>None\<close> for nothing), and the heap.
\<close>

definition qi :: "ptr \<Rightarrow> guid option \<Rightarrow> bool \<Rightarrow> boxes \<Rightarrow> (HRESULT \<times> ptr option \<times> boxes) option" where
  "qi this riid ppv h =
     (if \<not> ppv then Some (E_POINTER, None, h)
      else case riid of
        None \<Rightarrow> Some (E_POINTER, Some 0, h)
      | Some iid \<Rightarrow>
          if iid = IID_IUNKNOWN \<or> iid = IID_IVMDEVICEHOSTSUPPORT
          then (case h this of
                  None \<Rightarrow> None
                | Some b \<Rightarrow> Some (S_OK, Some this, h(this \<mapsto> b\<lparr>refcount := refcount b + 1\<rparr>)))
          else Some (E_NOINTERFACE, Some 0, h))"

definition add_ref :: "ptr \<Rightarrow> boxes \<Rightarrow> (u32 \<times> boxes) option" where
  "add_ref this h =
     (case h this of
        None \<Rightarrow> None
      | Some b \<Rightarrow> Some (refcount b + 1, h(this \<mapsto> b\<lparr>refcount := refcount b + 1\<rparr>)))"

definition release :: "ptr \<Rightarrow> boxes \<Rightarrow> (u32 \<times> boxes) option" where
  "release this h =
     (case h this of
        None \<Rightarrow> None
      | Some b \<Rightarrow>
          let prev = refcount b; h = h(this \<mapsto> b\<lparr>refcount := refcount b - 1\<rparr>)
          in if prev = 1 then Some (0, h(this := None)) else Some (prev - 1, h))"

text \<open>
  \<open>out\<close> says whether HDV passed an out pointer for the section handle; the call of
  \<open>HdvProxyDeviceHost\<close> writes through it.
\<close>

definition register_device_host ::
  "'w hdv_api \<Rightarrow> ptr \<Rightarrow> ptr \<Rightarrow> u32 \<Rightarrow> bool \<Rightarrow> boxes \<times> 'w \<Rightarrow> (HRESULT \<times> boxes \<times> 'w) option" where
  "register_device_host api this device_host pid out st =
     (case st of (h, w) \<Rightarrow>
        (case h this of
           None \<Rightarrow> None
         | Some b \<Rightarrow>
             (case HdvProxyDeviceHost api (support_system b) device_host pid w of
                ((code, section), w) \<Rightarrow>
                  let b = b\<lparr>called := True, device_host_pid := pid, register_hr := code\<rparr>;
                      b = (if \<not> failed code \<and> out then b\<lparr>ipc_section := section\<rparr> else b)
                  in Some (code, h(this \<mapsto> b), w))))"

definition was_registered :: "support_inner \<Rightarrow> bool" where
  "was_registered b = called b"

section \<open>Clients\<close>

text \<open>
  \<open>holders\<close> is the number of references outside the object: the owner's and those HDV took. A client
  calls a method only through a reference it holds and releases each once.
\<close>

record 'w support_run =
  heap :: boxes
  run_world :: 'w
  holders :: nat
  freed :: nat

inductive support_step :: "'w hdv_api \<Rightarrow> ptr \<Rightarrow> 'w support_run \<Rightarrow> 'w support_run \<Rightarrow> bool" for api this where
  do_qi: "0 < holders s \<Longrightarrow> qi this iid out (heap s) = Some (code, p, h) \<Longrightarrow> holders s + 1 < 2 ^ 32 \<Longrightarrow>
    support_step api this s (s\<lparr>heap := h, holders := holders s + (if code = S_OK then 1 else 0)\<rparr>)"
| do_add_ref: "0 < holders s \<Longrightarrow> add_ref this (heap s) = Some (n, h) \<Longrightarrow> holders s + 1 < 2 ^ 32 \<Longrightarrow>
    support_step api this s (s\<lparr>heap := h, holders := holders s + 1\<rparr>)"
| do_release: "0 < holders s \<Longrightarrow> release this (heap s) = Some (n, h) \<Longrightarrow>
    support_step api this s (s\<lparr>heap := h, holders := holders s - 1, freed := freed s + (if h this = None then 1 else 0)\<rparr>)"
| do_register: "0 < holders s \<Longrightarrow>
    register_device_host api this dh pid out (heap s, run_world s) = Some (code, h, w) \<Longrightarrow>
    support_step api this s (s\<lparr>heap := h, run_world := w\<rparr>)"

definition support_start :: "HCS_SYSTEM \<Rightarrow> ptr \<Rightarrow> boxes \<Rightarrow> 'w \<Rightarrow> 'w support_run" where
  "support_start system this h w =
     \<lparr>heap = DeviceHostSupport_new system this h, run_world = w, holders = 1, freed = 0\<rparr>"

definition support_inv :: "HCS_SYSTEM \<Rightarrow> ptr \<Rightarrow> 'w support_run \<Rightarrow> bool" where
  "support_inv system this s \<longleftrightarrow>
     holders s < 2 ^ 32 \<and> freed s = (if holders s = 0 then 1 else 0) \<and>
     (case heap s this of None \<Rightarrow> holders s = 0
      | Some b \<Rightarrow> 0 < holders s \<and> unat (refcount b) = holders s \<and> support_system b = system)"

lemma release_count:
  assumes "unat (r :: u32) = n" "0 < n"
  shows "unat (r - 1) = n - 1" "r = 1 \<longleftrightarrow> n = 1"
  using assms unat_sub [of 1 r] by (auto simp: word_le_nat_alt word_unat_eq_iff)

lemma add_count: "unat (r :: u32) = n \<Longrightarrow> n + 1 < 2 ^ 32 \<Longrightarrow> unat (r + 1) = n + 1"
  by (simp add: unat_word_ariths)

lemma support_step_inv: "support_step api this s t \<Longrightarrow> support_inv system this s \<Longrightarrow> support_inv system this t"
proof (induction rule: support_step.induct)
  case (do_qi s iid out code p h)
  then show ?case
    by (auto simp: support_inv_def qi_def S_OK_def E_POINTER_def E_NOINTERFACE_def add_count split: option.splits if_splits)
next
  case (do_add_ref s n h)
  then show ?case by (auto simp: support_inv_def add_ref_def add_count split: option.splits)
next
  case (do_release s n h)
  then obtain b where b: "heap s this = Some b" "unat (refcount b) = holders s"
    by (auto simp: support_inv_def release_def split: option.splits)
  note c = release_count [OF b(2) do_release(1)]
  show ?case using do_release b c by (auto simp: support_inv_def release_def Let_def split: if_splits)
next
  case (do_register s dh pid out code h w)
  then show ?case
    by (auto simp: support_inv_def register_device_host_def Let_def split: option.splits prod.splits if_splits)
qed

interpretation support: safe_machine "\<lambda>s. s = support_start system this h w" "support_step api this" "support_inv system this"
proof unfold_locales
  fix s assume "s = support_start system this h w"
  then show "support_inv system this s" by (simp add: support_inv_def support_start_def DeviceHostSupport_new_def)
next
  fix s t assume "support_inv system this s" "support_step api this s t"
  then show "support_inv system this t" by (blast intro: support_step_inv)
qed

text \<open>
  C32. The support object, whatever its clients do with the references they hold: its count equals the
  number of references held, no method is ever called on a freed box, the box is freed exactly once,
  by the release of the last reference, and it stays bound to its compute system.
\<close>

theorem support_object_safe:
  assumes "reach (\<lambda>s. s = support_start system this h w) (support_step api this) s"
  shows "freed s = (if holders s = 0 then 1 else 0) \<and>
    (0 < holders s \<longrightarrow> (\<exists>b. heap s this = Some b \<and> unat (refcount b) = holders s \<and> support_system b = system) \<and>
      qi this iid ppv (heap s) \<noteq> None \<and> add_ref this (heap s) \<noteq> None \<and> release this (heap s) \<noteq> None \<and>
      register_device_host api this dh pid out (heap s, run_world s) \<noteq> None)"
proof -
  have "support_inv system this s" using assms by (rule support.reach_inv)
  then show ?thesis
    by (auto simp: support_inv_def qi_def add_ref_def release_def register_device_host_def Let_def
        split: option.splits prod.splits)
qed

theorem support_object_safe_witness:
  "\<exists>s. reach (\<lambda>s. s = support_start 5 7 Map.empty ()) (support_step not_windows 7) s \<and>
     holders s = 0 \<and> freed s = 1 \<and> heap s 7 = None"
proof -
  let ?s = "support_start 5 7 Map.empty () :: unit support_run"
  define t where "t = ?s\<lparr>heap := Map.empty, holders := holders ?s - 1, freed := freed ?s + (if (Map.empty :: boxes) 7 = None then 1 else 0)\<rparr>"
  have "release 7 (heap ?s) = Some (0, Map.empty)"
    by (simp add: support_start_def DeviceHostSupport_new_def release_def)
  then have "support_step not_windows 7 ?s t"
    unfolding t_def by (intro do_release) (simp_all add: support_start_def)
  then have r: "reach (\<lambda>s. s = support_start 5 7 Map.empty ()) (support_step not_windows 7) t"
    by (blast intro: reach_init reach_step)
  have "holders t = 0" "heap t 7 = None" by (simp_all add: t_def support_start_def)
  then show ?thesis using support_object_safe [OF r] r by auto
qed

lemma register_records:
  assumes "register_device_host api this dh pid out (h, w) = Some (code, h', w')"
  shows "\<exists>b. h' this = Some b \<and> was_registered b \<and> register_hr b = code \<and> device_host_pid b = pid \<and>
    (\<not> failed code \<and> out \<longrightarrow> ipc_section b = snd (fst (HdvProxyDeviceHost api (support_system b) dh pid w)))"
  using assms by (auto simp: register_device_host_def was_registered_def Let_def split: option.splits prod.splits)

end
