(* ===== verification/Hcs.thy ===== *)
theory Hcs
  imports Hdv
begin

text \<open>
  The compute-system side: the imported functions of \<open>hcs-sys/src/lib.rs\<close> as a record of functions, their
  off-Windows stubs, and the two helpers of \<open>hyperv_virtiofs/src/lib.rs\<close> that drive one HCS operation
  to its end. A result document is a pointer into the platform's memory. Shown: every operation
  created is closed on every path, and which of the result documents are freed.
\<close>

section \<open>hcs-sys\<close>

definition GENERIC_ALL :: u32 where
  "GENERIC_ALL = 0x10000000"

text \<open>\<open>doc_at\<close> is the memory behind a result pointer: its UTF-16 units up to the terminator.\<close>

record 'w hcs_api =
  HcsCreateOperation :: "'w \<Rightarrow> ptr \<times> 'w"
  HcsCloseOperation :: "ptr \<Rightarrow> 'w \<Rightarrow> unit \<times> 'w"
  HcsWaitForOperationResult :: "ptr \<Rightarrow> u32 \<Rightarrow> 'w \<Rightarrow> (HRESULT \<times> ptr) \<times> 'w"
  HcsCreateComputeSystem :: "nat list \<Rightarrow> nat list \<Rightarrow> ptr \<Rightarrow> 'w \<Rightarrow> (HRESULT \<times> HCS_SYSTEM) \<times> 'w"
  HcsOpenComputeSystem :: "nat list \<Rightarrow> u32 \<Rightarrow> 'w \<Rightarrow> (HRESULT \<times> HCS_SYSTEM) \<times> 'w"
  HcsStartComputeSystem :: "HCS_SYSTEM \<Rightarrow> ptr \<Rightarrow> 'w \<Rightarrow> HRESULT \<times> 'w"
  HcsModifyComputeSystem :: "HCS_SYSTEM \<Rightarrow> ptr \<Rightarrow> nat list \<Rightarrow> 'w \<Rightarrow> HRESULT \<times> 'w"
  HcsTerminateComputeSystem :: "HCS_SYSTEM \<Rightarrow> ptr \<Rightarrow> 'w \<Rightarrow> HRESULT \<times> 'w"
  HcsGetComputeSystemProperties :: "HCS_SYSTEM \<Rightarrow> ptr \<Rightarrow> 'w \<Rightarrow> HRESULT \<times> 'w"
  HcsCloseComputeSystem :: "HCS_SYSTEM \<Rightarrow> 'w \<Rightarrow> unit \<times> 'w"
  LocalFree :: "ptr \<Rightarrow> 'w \<Rightarrow> ptr \<times> 'w"
  doc_at :: "ptr \<Rightarrow> 'w \<Rightarrow> nat list"

definition not_windows_hcs :: "'w hcs_api" where
  "not_windows_hcs =
     \<lparr>HcsCreateOperation = (\<lambda>w. (0, w)), HcsCloseOperation = (\<lambda>_ w. ((), w)),
      HcsWaitForOperationResult = (\<lambda>_ _ w. ((E_NOTIMPL, 0), w)),
      HcsCreateComputeSystem = (\<lambda>_ _ _ w. ((E_NOTIMPL, 0), w)),
      HcsOpenComputeSystem = (\<lambda>_ _ w. ((E_NOTIMPL, 0), w)), HcsStartComputeSystem = (\<lambda>_ _ w. (E_NOTIMPL, w)),
      HcsModifyComputeSystem = (\<lambda>_ _ _ w. (E_NOTIMPL, w)), HcsTerminateComputeSystem = (\<lambda>_ _ w. (E_NOTIMPL, w)),
      HcsGetComputeSystemProperties = (\<lambda>_ _ w. (E_NOTIMPL, w)), HcsCloseComputeSystem = (\<lambda>_ w. ((), w)),
      LocalFree = (\<lambda>_ w. (0, w)), doc_at = (\<lambda>_ _. [])\<rparr>"

section \<open>One operation\<close>

definition wide :: "rust_str \<Rightarrow> nat list" where
  "wide s = encode_utf16 s @ [0]"

text \<open>\<open>String::from_utf16_lossy\<close>: an unpaired surrogate becomes U+FFFD.\<close>

fun from_utf16_lossy :: "nat list \<Rightarrow> rust_str" where
  "from_utf16_lossy [] = []"
| "from_utf16_lossy (u # us) =
     (if 0xD800 \<le> u \<and> u \<le> 0xDBFF
      then (case us of
              [] \<Rightarrow> [0xFFFD]
            | l # rest \<Rightarrow>
                if 0xDC00 \<le> l \<and> l \<le> 0xDFFF
                then (0x10000 + (u - 0xD800) * 1024 + (l - 0xDC00)) # from_utf16_lossy rest
                else 0xFFFD # from_utf16_lossy us)
      else if 0xDC00 \<le> u \<and> u \<le> 0xDFFF then 0xFFFD # from_utf16_lossy us
      else u # from_utf16_lossy us)"

definition hcs_modify :: "'w hcs_api \<Rightarrow> HCS_SYSTEM \<Rightarrow> rust_str \<Rightarrow> 'w process \<Rightarrow> (HRESULT + unit) \<times> 'w process" where
  "hcs_modify hcs system request p =
     (case on_platform (HcsCreateOperation hcs) p of
        (op, p) \<Rightarrow>
          if op = 0 then (Inl 0, p)
          else case on_platform (HcsModifyComputeSystem hcs system op (wide request)) p of
            (code, p) \<Rightarrow>
              (case on_platform (HcsWaitForOperationResult hcs op 30000) p of
                 ((whr, result), p) \<Rightarrow>
                   (case on_platform (HcsCloseOperation hcs op) p of
                      (_, p) \<Rightarrow>
                        (if failed code then Inl code else if failed whr then Inl whr else Inr (), p))))"

text \<open>
  \<open>runtime_id_of\<close> is \<open>serde_json::from_str\<close> followed by the look-up of the string \<open>RuntimeId\<close>: \<open>None\<close> for
  bad JSON or no such string. The parse of the id may panic.
\<close>

definition hcs_runtime_id ::
  "'w hcs_api \<Rightarrow> (rust_str \<Rightarrow> rust_str option) \<Rightarrow> HCS_SYSTEM \<Rightarrow> 'w process \<Rightarrow> guid option outcome \<times> 'w process" where
  "hcs_runtime_id hcs runtime_id_of system p =
     (case on_platform (HcsCreateOperation hcs) p of
        (op, p) \<Rightarrow>
          if op = 0 then (Return None, p)
          else case on_platform (HcsGetComputeSystemProperties hcs system op) p of
            (code, p) \<Rightarrow>
              (case on_platform (HcsWaitForOperationResult hcs op 30000) p of
                 ((whr, result), p) \<Rightarrow>
                   (case on_platform (HcsCloseOperation hcs op) p of
                      (_, p) \<Rightarrow>
                        if failed code \<or> failed whr \<or> result = 0 then (Return None, p)
                        else (let doc = from_utf16_lossy (doc_at hcs result (platform p));
                                  p = snd (on_platform (LocalFree hcs result) p)
                              in case runtime_id_of doc of
                                   None \<Rightarrow> (Return None, p)
                                 | Some s \<Rightarrow> (guid_from_string s, p)))))"

section \<open>Operations and documents\<close>

text \<open>
  The HCS contract on what the caller must give back: an operation handle until it is closed, a result
  document until it is freed. \<open>ops\<close> and \<open>docs\<close> read what is outstanding.
\<close>

definition hcs_ledger :: "'w hcs_api \<Rightarrow> ('w \<Rightarrow> ptr multiset) \<Rightarrow> ('w \<Rightarrow> ptr multiset) \<Rightarrow> bool" where
  "hcs_ledger hcs ops docs \<longleftrightarrow>
     (\<forall>w. ops (snd (HcsCreateOperation hcs w)) =
        (if fst (HcsCreateOperation hcs w) = 0 then ops w else add_mset (fst (HcsCreateOperation hcs w)) (ops w)) \<and>
        docs (snd (HcsCreateOperation hcs w)) = docs w) \<and>
     (\<forall>op w. ops (snd (HcsCloseOperation hcs op w)) = ops w - {#op#} \<and> docs (snd (HcsCloseOperation hcs op w)) = docs w) \<and>
     (\<forall>op t w. ops (snd (HcsWaitForOperationResult hcs op t w)) = ops w \<and>
        docs (snd (HcsWaitForOperationResult hcs op t w)) =
          (if snd (fst (HcsWaitForOperationResult hcs op t w)) = 0 then docs w
           else add_mset (snd (fst (HcsWaitForOperationResult hcs op t w))) (docs w))) \<and>
     (\<forall>s op r w. ops (snd (HcsModifyComputeSystem hcs s op r w)) = ops w \<and>
        docs (snd (HcsModifyComputeSystem hcs s op r w)) = docs w) \<and>
     (\<forall>s op w. ops (snd (HcsGetComputeSystemProperties hcs s op w)) = ops w \<and>
        docs (snd (HcsGetComputeSystemProperties hcs s op w)) = docs w) \<and>
     (\<forall>d w. ops (snd (LocalFree hcs d w)) = ops w \<and> docs (snd (LocalFree hcs d w)) = docs w - {#d#})"

text \<open>
  Operations are balanced, documents are not. Both helpers close the operation they create, on
  every path. \<open>hcs_runtime_id\<close> frees the document of a successful query; \<open>hcs_modify\<close> keeps whatever
  document the wait handed out, so each such modification leaves one behind.
\<close>

lemma hcs_operations_balanced:
  assumes "hcs_ledger hcs ops docs"
  shows "ops (platform (snd (hcs_modify hcs system request p))) = ops (platform p) \<and>
    ops (platform (snd (hcs_runtime_id hcs runtime_id_of system p))) = ops (platform p) \<and>
    (\<exists>d. docs (platform (snd (hcs_modify hcs system request p))) = docs (platform p) + d \<and>
      (let op = fst (HcsCreateOperation hcs (platform p));
           w = snd (HcsModifyComputeSystem hcs system op (wide request) (snd (HcsCreateOperation hcs (platform p))));
           result = snd (fst (HcsWaitForOperationResult hcs op 30000 w))
       in d = (if op = 0 \<or> result = 0 then {#} else {#result#}))) \<and>
    (fst (hcs_runtime_id hcs runtime_id_of system p) \<noteq> Return None \<longrightarrow>
      docs (platform (snd (hcs_runtime_id hcs runtime_id_of system p))) = docs (platform p))"
proof (intro conjI impI)
  have L: "\<And>w. ops (snd (HcsCreateOperation hcs w)) =
        (if fst (HcsCreateOperation hcs w) = 0 then ops w else add_mset (fst (HcsCreateOperation hcs w)) (ops w))"
    "\<And>w. docs (snd (HcsCreateOperation hcs w)) = docs w"
    "\<And>op w. ops (snd (HcsCloseOperation hcs op w)) = ops w - {#op#}"
    "\<And>op w. docs (snd (HcsCloseOperation hcs op w)) = docs w"
    "\<And>op t w. ops (snd (HcsWaitForOperationResult hcs op t w)) = ops w"
    "\<And>op t w. docs (snd (HcsWaitForOperationResult hcs op t w)) =
          (if snd (fst (HcsWaitForOperationResult hcs op t w)) = 0 then docs w
           else add_mset (snd (fst (HcsWaitForOperationResult hcs op t w))) (docs w))"
    "\<And>s op r w. ops (snd (HcsModifyComputeSystem hcs s op r w)) = ops w"
    "\<And>s op r w. docs (snd (HcsModifyComputeSystem hcs s op r w)) = docs w"
    "\<And>s op w. ops (snd (HcsGetComputeSystemProperties hcs s op w)) = ops w"
    "\<And>s op w. docs (snd (HcsGetComputeSystemProperties hcs s op w)) = docs w"
    "\<And>d w. ops (snd (LocalFree hcs d w)) = ops w" "\<And>d w. docs (snd (LocalFree hcs d w)) = docs w - {#d#}"
    using assms unfolding hcs_ledger_def by blast+
  note E = on_platform_eq case_prod_beta Let_def
  show "ops (platform (snd (hcs_modify hcs system request p))) = ops (platform p)"
    by (simp add: hcs_modify_def E L)
  show "ops (platform (snd (hcs_runtime_id hcs runtime_id_of system p))) = ops (platform p)"
    by (simp add: hcs_runtime_id_def E L split: option.splits)
  show "\<exists>d. docs (platform (snd (hcs_modify hcs system request p))) = docs (platform p) + d \<and>
      (let op = fst (HcsCreateOperation hcs (platform p));
           w = snd (HcsModifyComputeSystem hcs system op (wide request) (snd (HcsCreateOperation hcs (platform p))));
           result = snd (fst (HcsWaitForOperationResult hcs op 30000 w))
       in d = (if op = 0 \<or> result = 0 then {#} else {#result#}))"
    by (simp add: hcs_modify_def E L)
  show "fst (hcs_runtime_id hcs runtime_id_of system p) \<noteq> Return None \<Longrightarrow>
      docs (platform (snd (hcs_runtime_id hcs runtime_id_of system p))) = docs (platform p)"
    by (simp add: hcs_runtime_id_def E L split: if_splits option.splits)
qed

text \<open>A platform that hands out operation 1 and document 2 each time.\<close>

definition ledger_hcs :: "(ptr multiset \<times> ptr multiset) hcs_api" where
  "ledger_hcs = not_windows_hcs\<lparr>HcsCreateOperation := (\<lambda>(a, d). (1, add_mset 1 a, d)),
     HcsCloseOperation := (\<lambda>op (a, d). ((), a - {#op#}, d)),
     HcsWaitForOperationResult := (\<lambda>op t (a, d). ((S_OK, 2), a, add_mset 2 d)),
     HcsModifyComputeSystem := (\<lambda>_ _ _ w. (S_OK, w)), HcsGetComputeSystemProperties := (\<lambda>_ _ w. (S_OK, w)),
     LocalFree := (\<lambda>x (a, d). (0, a, d - {#x#}))\<rparr>"

lemma hcs_operations_balanced_example:
  "platform (snd (hcs_modify ledger_hcs 5 [] \<lparr>flags = (\<lambda>_. True), next_flag = 0, platform = ({#}, {#})\<rparr>)) = ({#}, {#2#})"
proof -
  let ?p = "\<lparr>flags = (\<lambda>_. True), next_flag = 0, platform = ({#}, {#})\<rparr> :: (ptr multiset \<times> ptr multiset) process"
  have "hcs_ledger ledger_hcs fst snd"
    by (simp add: hcs_ledger_def ledger_hcs_def not_windows_hcs_def case_prod_beta)
  from hcs_operations_balanced [OF this, of 5 "[]" ?p]
  show ?thesis by (auto simp: ledger_hcs_def not_windows_hcs_def Let_def prod_eq_iff)
qed

end
