(* ===== verification/C_Abi.thy ===== *)
theory C_Abi
  imports Virtio_Hdv Proxy Hcs
begin

text \<open>
  The C ABI of the DLL, \<open>hyperv_virtiofs/src/lib.rs\<close>: opening a device host on a compute system, adding
  and removing shares, closing. Hosts and shares are boxes on two heaps, known to the caller by
  their addresses; using an address that is not live is the value \<open>None\<close>. The shared \<open>DeviceHost\<close> has
  its strong count, the COM support object its box. JSON is \<open>serde_json\<close>'s and the file system and
  the transport are OpenVMM's: with the platform and the environment they are the record \<open>E\<close>. The
  addresses the allocator returns are arguments. One thread's last error is modelled; log events are
  not part of the state, and the mutex around the list of shares never is poisoned, because
  nothing panics under it. Shown: the status codes and messages, that no call on a live handle
  touches a dead one, and what closing a host tears down in which order.
\<close>

section \<open>Codes and messages\<close>

definition HVFS_ABI_VERSION :: u32 where
  "HVFS_ABI_VERSION = 2"

definition HVFS_OK :: i32 where
  "HVFS_OK = 0"

definition HVFS_ERR_INVALID_ARG :: i32 where
  "HVFS_ERR_INVALID_ARG = - 1"

definition HVFS_ERR_NOT_IMPLEMENTED :: i32 where
  "HVFS_ERR_NOT_IMPLEMENTED = - 2"

definition HVFS_ERR_PANIC :: i32 where
  "HVFS_ERR_PANIC = - 3"

definition HVFS_ERR_HDV :: i32 where
  "HVFS_ERR_HDV = - 4"

definition HVFS_ERR_UNSUPPORTED :: i32 where
  "HVFS_ERR_UNSUPPORTED = - 5"

definition HRESULT_NOT_SUPPORTED :: HRESULT where
  "HRESULT_NOT_SUPPORTED = 0x80070032"

record share_config =
  cfg_tag :: rust_str
  cfg_path :: rust_str
  cfg_instance_id :: rust_str
  cfg_ro :: bool

record ('w, 'v, 'fs) abi_env =
  e_hdv :: "'w hdv_api"
  e_hcs :: "'w hcs_api"
  e_vapi :: "'v vpci_api"
  e_fs :: "rust_str \<Rightarrow> rust_str + 'fs"
  e_transport :: "rust_str \<Rightarrow> 'fs \<Rightarrow> fs_device \<Rightarrow> 'w seams \<Rightarrow> rust_str + 'v"
  e_workers :: env_var
  e_parallelism :: "nat option"
  e_doorbell :: env_var
  e_stats :: bool
  e_req_stats :: req_stats
  e_now :: nat
  parse_host :: "rust_str \<Rightarrow> rust_str + u64"
  parse_share :: "rust_str \<Rightarrow> rust_str + share_config"
  json_runtime_id :: "rust_str \<Rightarrow> rust_str option"
  json_slot :: "rust_str \<Rightarrow> rust_str \<Rightarrow> rust_str \<Rightarrow> rust_str \<Rightarrow> rust_str"

section \<open>State\<close>

record hvfs_host =
  hh_shares :: "ptr list"
  hh_host :: device_host
  hh_support :: ptr
  hh_owned :: HCS_SYSTEM
  hh_memory :: u64
  hh_runtime_id :: "guid option"

record 'w hvfs_share =
  sh_device :: "'w virtio_hdv_device"
  sh_system :: HCS_SYSTEM
  sh_host :: ptr
  sh_instance_id :: rust_str
  sh_emulator_id :: rust_str

record ('w, 'v) abi =
  last_error :: "rust_str option"
  hosts :: "ptr \<rightharpoonup> hvfs_host"
  shares :: "ptr \<rightharpoonup> 'w hvfs_share"
  supports :: boxes
  devices :: "'v ops_dev contexts"
  host_arcs :: "flag \<Rightarrow> nat"
  abi_proc :: "'w process"

definition on_abi :: "('w process \<Rightarrow> 'a \<times> 'w process) \<Rightarrow> ('w, 'v) abi \<Rightarrow> 'a \<times> ('w, 'v) abi" where
  "on_abi f s = (case f (abi_proc s) of (a, p) \<Rightarrow> (a, s\<lparr>abi_proc := p\<rparr>))"

text \<open>A message with an interior NUL is replaced.\<close>

definition set_last_error :: "rust_str \<Rightarrow> ('w, 'v) abi \<Rightarrow> ('w, 'v) abi" where
  "set_last_error msg s = s\<lparr>last_error := Some (if 0 \<in> set msg then lit ''error'' else msg)\<rparr>"

definition fail :: "i32 \<Rightarrow> rust_str \<Rightarrow> ('w, 'v) abi \<Rightarrow> i32 \<times> ('w, 'v) abi" where
  "fail code msg s = (code, set_last_error msg s)"

definition guard :: "i32 outcome \<Rightarrow> ('w, 'v) abi \<Rightarrow> i32 \<times> ('w, 'v) abi" where
  "guard r s =
     (case catch_unwind r of
        Inr code \<Rightarrow> (code, s)
      | Inl _ \<Rightarrow> (HVFS_ERR_PANIC, set_last_error (lit ''panic caught at FFI boundary'') s))"

text \<open>A C string argument is its bytes up to the NUL, or the null pointer.\<close>

definition cstr :: "nat list option \<Rightarrow> rust_str \<Rightarrow> ('w, 'v) abi \<Rightarrow> (i32 + rust_str) \<times> ('w, 'v) abi" where
  "cstr p what s =
     (case p of
        None \<Rightarrow> (Inl HVFS_ERR_INVALID_ARG, set_last_error (lit ''null argument: '' @ what) s)
      | Some bytes \<Rightarrow>
          (case utf8_decode bytes of
             Some t \<Rightarrow> (Inr t, s)
           | None \<Rightarrow> (Inl HVFS_ERR_INVALID_ARG, set_last_error (lit ''non-UTF-8 argument: '' @ what) s)))"

definition hresult_text :: "HRESULT \<Rightarrow> rust_str" where
  "hresult_text code = lit ''HRESULT 0x'' @ fmt_hex 8 (unat code)"

definition hdv_error_text :: "HRESULT \<Rightarrow> rust_str" where
  "hdv_error_text code = lit ''HDV call failed: '' @ hresult_text code"

fun attach_error_text :: "attach_error \<Rightarrow> rust_str" where
  "attach_error_text (AttachFs e) = lit ''virtio-fs backend: '' @ e"
| "attach_error_text (AttachTransport e) = lit ''virtio PCI transport: '' @ e"
| "attach_error_text (AttachHdv e) = lit ''HDV: '' @ hdv_error_text e"

definition slot_request :: "('w, 'v, 'fs) abi_env \<Rightarrow> rust_str \<Rightarrow> rust_str \<Rightarrow> rust_str \<Rightarrow> rust_str" where
  "slot_request E request_type inst emulator =
     json_slot E (lit ''VirtualMachine/Devices/FlexibleIov/'' @ inst) request_type emulator (lit ''ExternalRestricted'')"

section \<open>Drops\<close>

definition drop_host_arc :: "('w, 'v, 'fs) abi_env \<Rightarrow> device_host \<Rightarrow> ('w, 'v) abi \<Rightarrow> ('w, 'v) abi" where
  "drop_host_arc E h s =
     (let n = host_arcs s (host_alive h) - 1; s = s\<lparr>host_arcs := (host_arcs s)(host_alive h := n)\<rparr>
      in if n = 0 then s\<lparr>abi_proc := DeviceHost_drop (e_hdv E) h (abi_proc s)\<rparr> else s)"

text \<open>The drop of a device stops and joins the re-arm net and drops the device's clone of the host.\<close>

definition drop_device :: "('w, 'v, 'fs) abi_env \<Rightarrow> 'w virtio_hdv_device \<Rightarrow> ('w, 'v) abi \<Rightarrow> ('w, 'v) abi" where
  "drop_device E d s = drop_host_arc E (pci_host (vh_pci d)) s"

definition drop_support :: "ptr \<Rightarrow> ('w, 'v) abi \<Rightarrow> ('w, 'v) abi option" where
  "drop_support p s = map_option (\<lambda>(_, b). s\<lparr>supports := b\<rparr>) (release p (supports s))"

definition OwnedSystem_drop :: "('w, 'v, 'fs) abi_env \<Rightarrow> HCS_SYSTEM \<Rightarrow> ('w, 'v) abi \<Rightarrow> ('w, 'v) abi" where
  "OwnedSystem_drop E system s =
     (if system \<noteq> 0 then snd (on_abi (on_platform (HcsCloseComputeSystem (e_hcs E) system)) s) else s)"

section \<open>Entry points\<close>

definition hvfs_abi_version :: u32 where
  "hvfs_abi_version = HVFS_ABI_VERSION"

text \<open>
  The result is the status with what was written through \<open>out\<close>; \<open>out\<close> says whether the pointer was
  non-null. \<open>bx\<close> and \<open>spt\<close> are the addresses of the boxes allocated for the host and its support object.
\<close>

definition hvfs_host_open ::
  "('w, 'v, 'fs) abi_env \<Rightarrow> ptr \<Rightarrow> ptr \<Rightarrow> nat list option \<Rightarrow> nat list option \<Rightarrow> bool \<Rightarrow> ('w, 'v) abi \<Rightarrow>
     ((i32 \<times> ptr option) \<times> ('w, 'v) abi) option" where
  "hvfs_host_open E bx spt hcs_system_id host_json out s =
     (if \<not> out then Some ((HVFS_ERR_INVALID_ARG, None), set_last_error (lit ''null out parameter'') s)
      else case cstr hcs_system_id (lit ''hcs_system_id'') s of
        (Inl e, s) \<Rightarrow> Some ((e, Some 0), s)
      | (Inr ident, s) \<Rightarrow>
          (case cstr host_json (lit ''host_json'') s of
             (Inl e, s) \<Rightarrow> Some ((e, Some 0), s)
           | (Inr js, s) \<Rightarrow>
               (case parse_host E js of
                  Inl e \<Rightarrow> Some ((HVFS_ERR_INVALID_ARG, Some 0), set_last_error (lit ''host_json parse error: '' @ e) s)
                | Inr memory_mb \<Rightarrow>
                    (case on_abi (on_platform (HcsOpenComputeSystem (e_hcs E) (wide ident) GENERIC_ALL)) s of
                       ((code, system), s) \<Rightarrow>
                         if failed code
                         then Some ((HVFS_ERR_HDV, Some 0),
                                set_last_error (lit ''HcsOpenComputeSystem failed: '' @ hresult_text code) s)
                         else (let s = s\<lparr>supports := DeviceHostSupport_new system spt (supports s)\<rparr>
                               in case on_abi (DeviceHost_from_proxy (e_hdv E) HVFS_DEVICE_HOST_ID spt) s of
                                    (Inl e, s) \<Rightarrow>
                                      (let s = set_last_error (lit ''HdvInitializeDeviceHostForProxy failed: '' @ hdv_error_text e) s
                                       in map_option (\<lambda>s. ((HVFS_ERR_HDV, Some 0), OwnedSystem_drop E system s)) (drop_support spt s))
                                  | (Inr host, s) \<Rightarrow>
                                      Some ((HVFS_OK, Some bx),
                                        s\<lparr>hosts := (hosts s)(bx \<mapsto> \<lparr>hh_shares = [], hh_host = host, hh_support = spt,
                                             hh_owned = system, hh_memory = saturating_mul memory_mb (1024 * 1024),
                                             hh_runtime_id = None\<rparr>),
                                          host_arcs := (host_arcs s)(host_alive host := 1)\<rparr>))))))"

text \<open>The cached runtime id; the query writes the cache also when it finds none.\<close>

definition host_runtime_id ::
  "('w, 'v, 'fs) abi_env \<Rightarrow> ptr \<Rightarrow> hvfs_host \<Rightarrow> ('w, 'v) abi \<Rightarrow> guid option outcome \<times> ('w, 'v) abi" where
  "host_runtime_id E host h s =
     (if hh_runtime_id h \<noteq> None then (Return (hh_runtime_id h), s)
      else case on_abi (hcs_runtime_id (e_hcs E) (json_runtime_id E) (hh_owned h)) s of
        (Panic, s) \<Rightarrow> (Panic, s)
      | (Return r, s) \<Rightarrow> (Return r, s\<lparr>hosts := (hosts s)(host \<mapsto> h\<lparr>hh_runtime_id := r\<rparr>)\<rparr>))"

text \<open>The device of a share: \<open>attach_shared\<close> with a clone of the host, given back on an error.\<close>

definition attach_share ::
  "('w, 'v, 'fs) abi_env \<Rightarrow> ptr \<Rightarrow> ptr \<Rightarrow> hvfs_host \<Rightarrow> share_config \<Rightarrow> guid \<Rightarrow> guid option \<Rightarrow> ('w, 'v) abi \<Rightarrow>
     (attach_error + 'w virtio_hdv_device) outcome \<times> ('w, 'v) abi" where
  "attach_share E ctx vt h cfg inst rid s =
     (case attach_shared (e_hdv E) (e_vapi E) (e_fs E (cfg_path cfg)) (e_transport E (cfg_tag cfg)) (e_workers E)
             (e_parallelism E)
             (make_seams (e_doorbell E) (e_stats E) (e_now E) (hh_memory h) (host_alive (hh_host h)) inst rid (e_req_stats E) (abi_proc s))
             (hh_host h) VIRTIO_FS_DEVICE_CLASS_ID inst ctx vt (devices s, abi_proc s) of
        (r, ds, p) \<Rightarrow>
          (let s = s\<lparr>devices := ds, abi_proc := p\<rparr>
           in case r of
                Return (Inr d) \<Rightarrow>
                  (Return (Inr d), s\<lparr>host_arcs := (host_arcs s)(host_alive (hh_host h) := host_arcs s (host_alive (hh_host h)) + 1)\<rparr>)
              | _ \<Rightarrow> (r, s)))"

text \<open>From the attached device on: hot-add the slot, box the share, register it with the host.\<close>

definition add_slot ::
  "('w, 'v, 'fs) abi_env \<Rightarrow> ptr \<Rightarrow> ptr \<Rightarrow> HCS_SYSTEM \<Rightarrow> guid \<Rightarrow> 'w virtio_hdv_device \<Rightarrow> ('w, 'v) abi \<Rightarrow>
     (i32 \<times> ptr option) \<times> ('w, 'v) abi" where
  "add_slot E bx host system inst dev s =
     (case on_abi (hcs_modify (e_hcs E) system
             (slot_request E (lit ''Add'') (guid_to_string inst) (guid_to_string VIRTIO_FS_DEVICE_CLASS_ID))) s of
        (Inl code, s) \<Rightarrow>
          ((HVFS_ERR_HDV, Some 0),
           set_last_error (lit ''HcsModifyComputeSystem Add FlexibleIov: '' @ hresult_text code) (drop_device E dev s))
      | (Inr _, s) \<Rightarrow>
          (let sh = \<lparr>sh_device = dev, sh_system = system, sh_host = host, sh_instance_id = guid_to_string inst,
                     sh_emulator_id = guid_to_string VIRTIO_FS_DEVICE_CLASS_ID\<rparr>
           in ((HVFS_OK, Some bx),
               s\<lparr>shares := (shares s)(bx \<mapsto> sh),
                 hosts := (hosts s)(host := map_option (\<lambda>h. h\<lparr>hh_shares := hh_shares h @ [bx]\<rparr>) (hosts s host))\<rparr>)))"

definition hvfs_add_share ::
  "('w, 'v, 'fs) abi_env \<Rightarrow> ptr \<Rightarrow> ptr \<Rightarrow> ptr \<Rightarrow> ptr \<Rightarrow> nat list option \<Rightarrow> bool \<Rightarrow> ('w, 'v) abi \<Rightarrow>
     ((i32 \<times> ptr option) \<times> ('w, 'v) abi) option" where
  "hvfs_add_share E bx ctx vt host share_json out s =
     (if \<not> out then Some ((HVFS_ERR_INVALID_ARG, None), set_last_error (lit ''null out parameter'') s)
      else if host = 0 then Some ((HVFS_ERR_INVALID_ARG, Some 0), set_last_error (lit ''null host handle'') s)
      else case hosts s host of
        None \<Rightarrow> None
      | Some h \<Rightarrow>
          (case cstr share_json (lit ''share_json'') s of
             (Inl e, s) \<Rightarrow> Some ((e, Some 0), s)
           | (Inr js, s) \<Rightarrow>
               (case parse_share E js of
                  Inl e \<Rightarrow> Some ((HVFS_ERR_INVALID_ARG, Some 0), set_last_error (lit ''share_json parse error: '' @ e) s)
                | Inr cfg \<Rightarrow>
                    if cfg_ro cfg
                    then Some ((HVFS_ERR_NOT_IMPLEMENTED, Some 0),
                           set_last_error (lit ''ro:true not supported'' @ [32, 8212, 32] @
                             lit ''the FUSE backend does not yet enforce read-only'') s)
                    else case guid_from_string (cfg_instance_id cfg) of
                      Panic \<Rightarrow> (case guard Panic s of (c, s) \<Rightarrow> Some ((c, Some 0), s))
                    | Return None \<Rightarrow>
                        Some ((HVFS_ERR_INVALID_ARG, Some 0),
                          set_last_error (lit ''instance_id is not a valid GUID: '' @ cfg_instance_id cfg) s)
                    | Return (Some inst) \<Rightarrow>
                        (case host_runtime_id E host h s of
                           (Panic, s) \<Rightarrow> (case guard Panic s of (c, s) \<Rightarrow> Some ((c, Some 0), s))
                         | (Return rid, s) \<Rightarrow>
                             (case attach_share E ctx vt h cfg inst rid s of
                                (Panic, s) \<Rightarrow> (case guard Panic s of (c, s) \<Rightarrow> Some ((c, Some 0), s))
                              | (Return (Inl e), s) \<Rightarrow>
                                  Some ((HVFS_ERR_HDV, Some 0),
                                    set_last_error (lit ''attach virtio-fs over HDV: '' @ attach_error_text e) s)
                              | (Return (Inr dev), s) \<Rightarrow> Some (add_slot E bx host (hh_owned h) inst dev s))))))"

definition hvfs_share_instance_id :: "ptr \<Rightarrow> ('w, 'v) abi \<Rightarrow> rust_str option option" where
  "hvfs_share_instance_id share s =
     (if share = 0 then Some None else map_option (\<lambda>sh. Some (sh_instance_id sh)) (shares s share))"

definition hvfs_remove_share ::
  "('w, 'v, 'fs) abi_env \<Rightarrow> ptr \<Rightarrow> ('w, 'v) abi \<Rightarrow> (i32 \<times> ('w, 'v) abi) option" where
  "hvfs_remove_share E share s =
     (if share = 0 then Some (HVFS_OK, s)
      else case shares s share of
        None \<Rightarrow> None
      | Some sh \<Rightarrow>
          (case on_abi (hcs_modify (e_hcs E) (sh_system sh)
                  (slot_request E (lit ''Remove'') (sh_instance_id sh) (sh_emulator_id sh))) s of
             (r, s) \<Rightarrow>
               (case (case r of
                        Inr _ \<Rightarrow> (HVFS_OK, s)
                      | Inl code \<Rightarrow>
                          if code = HRESULT_NOT_SUPPORTED
                          then (HVFS_ERR_UNSUPPORTED,
                                set_last_error (lit ''FlexibleIov live Remove unsupported on this Windows; device reclaimed when the compute system is torn down'') s)
                          else fail HVFS_ERR_HDV (lit ''HcsModifyComputeSystem Remove FlexibleIov: '' @ hresult_text code) s) of
                  (outcome, s) \<Rightarrow>
                    if outcome = HVFS_OK \<or> outcome = HVFS_ERR_UNSUPPORTED
                    then if sh_host sh = 0
                         then Some (outcome, drop_device E (sh_device sh) (s\<lparr>shares := (shares s)(share := None)\<rparr>))
                         else (case hosts s (sh_host sh) of
                                 None \<Rightarrow> None
                               | Some h \<Rightarrow>
                                   (let s = s\<lparr>hosts := (hosts s)(sh_host sh \<mapsto> h\<lparr>hh_shares := filter (\<lambda>p. p \<noteq> share) (hh_shares h)\<rparr>)\<rparr>
                                    in Some (outcome, drop_device E (sh_device sh) (s\<lparr>shares := (shares s)(share := None)\<rparr>))))
                    else Some (outcome, s))))"

fun close_shares :: "('w, 'v, 'fs) abi_env \<Rightarrow> ptr list \<Rightarrow> ('w, 'v) abi \<Rightarrow> ('w, 'v) abi option" where
  "close_shares E [] s = Some s"
| "close_shares E (p # ps) s =
     (if p = 0 then close_shares E ps s
      else case shares s p of
        None \<Rightarrow> None
      | Some sh \<Rightarrow> close_shares E ps (drop_device E (sh_device sh) (s\<lparr>shares := (shares s)(p := None)\<rparr>)))"

text \<open>The fields of the host drop in their order: the device host, the support object, the system.\<close>

definition hvfs_host_close :: "('w, 'v, 'fs) abi_env \<Rightarrow> ptr \<Rightarrow> ('w, 'v) abi \<Rightarrow> (i32 \<times> ('w, 'v) abi) option" where
  "hvfs_host_close E host s =
     (if host = 0 then Some (HVFS_OK, s)
      else case hosts s host of
        None \<Rightarrow> None
      | Some h \<Rightarrow>
          (case close_shares E (hh_shares h) (s\<lparr>hosts := (hosts s)(host := None)\<rparr>) of
             None \<Rightarrow> None
           | Some s \<Rightarrow>
               (case drop_support (hh_support h) (drop_host_arc E (hh_host h) s) of
                  None \<Rightarrow> None
                | Some s \<Rightarrow> Some (HVFS_OK, OwnedSystem_drop E (hh_owned h) s))))"

definition hvfs_last_error :: "('w, 'v) abi \<Rightarrow> rust_str option" where
  "hvfs_last_error s = last_error s"

section \<open>The invariant of the handles\<close>

definition host_ok :: "('w, 'v) abi \<Rightarrow> ptr \<Rightarrow> hvfs_host \<Rightarrow> bool" where
  "host_ok s hp h \<longleftrightarrow>
     distinct (hh_shares h) \<and> 0 \<notin> set (hh_shares h) \<and>
     (\<forall>sp \<in> set (hh_shares h). \<exists>sh. shares s sp = Some sh \<and> sh_host sh = hp \<and> pci_host (vh_pci (sh_device sh)) = hh_host h) \<and>
     host_arcs s (host_alive (hh_host h)) = Suc (length (hh_shares h)) \<and>
     host_alive (hh_host h) < next_flag (abi_proc s) \<and>
     (\<exists>b. supports s (hh_support h) = Some b \<and> refcount b = 1)"

definition apart :: "hvfs_host \<Rightarrow> hvfs_host \<Rightarrow> bool" where
  "apart h k \<longleftrightarrow> host_alive (hh_host h) \<noteq> host_alive (hh_host k) \<and> hh_support h \<noteq> hh_support k"

definition abi_inv :: "('w, 'v) abi \<Rightarrow> bool" where
  "abi_inv s \<longleftrightarrow>
     hosts s 0 = None \<and>
     (\<forall>hp h. hosts s hp = Some h \<longrightarrow> host_ok s hp h) \<and>
     (\<forall>sp sh. shares s sp = Some sh \<longrightarrow> (\<exists>h. hosts s (sh_host sh) = Some h \<and> sp \<in> set (hh_shares h))) \<and>
     (\<forall>hp kp h k. hosts s hp = Some h \<longrightarrow> hosts s kp = Some k \<longrightarrow> hp \<noteq> kp \<longrightarrow> apart h k)"

lemma abi_inv_frame:
  assumes "abi_inv s" "hosts t = hosts s" "shares t = shares s" "supports t = supports s" "host_arcs t = host_arcs s"
    "next_flag (abi_proc s) \<le> next_flag (abi_proc t)"
  shows "abi_inv t"
proof -
  have "host_ok s hp h \<Longrightarrow> host_ok t hp h" for hp h
    using assms(2-) by (auto simp: host_ok_def)
  then show ?thesis using assms by (simp add: abi_inv_def)
qed

lemma set_last_error_fields [simp]:
  "hosts (set_last_error m s) = hosts s" "shares (set_last_error m s) = shares s"
  "supports (set_last_error m s) = supports s" "host_arcs (set_last_error m s) = host_arcs s"
  "abi_proc (set_last_error m s) = abi_proc s" "devices (set_last_error m s) = devices s"
  "last_error (set_last_error m s) \<noteq> None"
  by (simp_all add: set_last_error_def)

lemma on_abi_fields [simp]:
  "hosts (snd (on_abi f s)) = hosts s" "shares (snd (on_abi f s)) = shares s"
  "supports (snd (on_abi f s)) = supports s" "host_arcs (snd (on_abi f s)) = host_arcs s"
  "devices (snd (on_abi f s)) = devices s" "last_error (snd (on_abi f s)) = last_error s"
  "abi_proc (snd (on_abi f s)) = snd (f (abi_proc s))" "fst (on_abi f s) = fst (f (abi_proc s))"
  by (simp_all add: on_abi_def case_prod_beta)

lemma abi_inv_set_last_error [simp]: "abi_inv (set_last_error m s) \<longleftrightarrow> abi_inv s"
  by (auto intro: abi_inv_frame [of s] abi_inv_frame [of "set_last_error m s"])

lemma cstr_fields:
  "cstr p what s = (r, t) \<Longrightarrow> (case r of Inl e \<Rightarrow> e = HVFS_ERR_INVALID_ARG \<and> (\<exists>m. t = set_last_error m s) | Inr _ \<Rightarrow> t = s)"
  by (auto simp: cstr_def split: option.splits)

lemma next_flag_keeps [simp]:
  "next_flag (snd (hcs_modify hcs sy r p)) = next_flag p"
  "next_flag (snd (hcs_runtime_id hcs f sy p)) = next_flag p"
  "next_flag (DeviceHost_drop api h p) = next_flag p"
  by (simp_all add: hcs_modify_def hcs_runtime_id_def DeviceHost_drop_def on_platform_eq case_prod_beta Let_def split: option.splits)

lemma next_flag_attach:
  assumes "h ctx = None" "attach_shared api vapi fs tr we par sm host cls inst ctx vt (h, p) = (r, h', p')"
  shows "next_flag p' = next_flag p"
proof -
  have "next_flag (snd (snd (PciDevice_create_shared api host d cls inst ctx vt (h, p)))) = next_flag p" for d
    by (simp add: PciDevice_create_shared_def on_platform_eq case_prod_beta Let_def)
  then have *: "PciDevice_create_shared api host d cls inst ctx vt (h, p) = (q, k, p1) \<Longrightarrow> next_flag p1 = next_flag p" for d q k p1
    by (metis snd_conv)
  show ?thesis using assms(2)
    by (auto simp: attach_shared_def Let_def dest!: * split: sum.splits prod.splits outcome.splits)
qed

section \<open>Closing\<close>

lemma drop_host_arc_fields [simp]:
  "hosts (drop_host_arc E h s) = hosts s" "shares (drop_host_arc E h s) = shares s"
  "supports (drop_host_arc E h s) = supports s" "devices (drop_host_arc E h s) = devices s"
  "last_error (drop_host_arc E h s) = last_error s" "next_flag (abi_proc (drop_host_arc E h s)) = next_flag (abi_proc s)"
  "host_arcs (drop_host_arc E h s) = (host_arcs s)(host_alive h := host_arcs s (host_alive h) - 1)"
  by (simp_all add: drop_host_arc_def Let_def)

lemma drop_host_arc_proc:
  "abi_proc (drop_host_arc E h s) =
     (if host_arcs s (host_alive h) \<le> 1 then DeviceHost_drop (e_hdv E) h (abi_proc s) else abi_proc s)"
  by (simp add: drop_host_arc_def Let_def)

lemma close_shares_all:
  assumes "distinct ps" "0 \<notin> set ps" "host_arcs s (host_alive H) = Suc (length ps)"
    "\<forall>p \<in> set ps. \<exists>sh. shares s p = Some sh \<and> pci_host (vh_pci (sh_device sh)) = H"
  shows "\<exists>t. close_shares E ps s = Some t \<and> shares t = shares s |` (- set ps) \<and> hosts t = hosts s \<and>
    supports t = supports s \<and> devices t = devices s \<and> abi_proc t = abi_proc s \<and>
    host_arcs t = (host_arcs s)(host_alive H := 1) \<and> last_error t = last_error s"
  using assms
proof (induction ps arbitrary: s)
  case Nil
  then show ?case by (auto simp: restrict_map_def fun_upd_idem)
next
  case (Cons p ps)
  obtain sh where sh: "shares s p = Some sh" "pci_host (vh_pci (sh_device sh)) = H" using Cons.prems(4) by auto
  define u where "u = drop_device E (sh_device sh) (s\<lparr>shares := (shares s)(p := None)\<rparr>)"
  have u: "shares u = (shares s)(p := None)" "hosts u = hosts s" "supports u = supports s" "devices u = devices s"
    "abi_proc u = abi_proc s" "host_arcs u = (host_arcs s)(host_alive H := Suc (length ps))" "last_error u = last_error s"
    using sh(2) Cons.prems(3) by (simp_all add: u_def drop_device_def drop_host_arc_proc)
  have "distinct ps" "0 \<notin> set ps" "host_arcs u (host_alive H) = Suc (length ps)"
    "\<forall>q \<in> set ps. \<exists>sh. shares u q = Some sh \<and> pci_host (vh_pci (sh_device sh)) = H"
    using Cons.prems u(1,6) by auto
  from Cons.IH [OF this] obtain t where
    t: "close_shares E ps u = Some t" "shares t = shares u |` (- set ps)" "hosts t = hosts u"
    "supports t = supports u" "devices t = devices u" "abi_proc t = abi_proc u"
    "host_arcs t = (host_arcs u)(host_alive H := 1)" "last_error t = last_error u"
    by blast
  moreover have "close_shares E (p # ps) s = close_shares E ps u" using Cons.prems(2) sh(1) by (simp add: u_def)
  moreover have "shares u |` (- set ps) = shares s |` (- set (p # ps))" using u(1) by (auto simp: restrict_map_def)
  ultimately show ?case using u by (intro exI [of _ t]) (simp add: fun_upd_upd)
qed

lemma host_close_effect:
  assumes "abi_inv s" "hosts s hp = Some h"
  shows "\<exists>t. hvfs_host_close E hp s = Some (HVFS_OK, t) \<and> hosts t = (hosts s)(hp := None) \<and>
    shares t = shares s |` (- set (hh_shares h)) \<and> supports t = (supports s)(hh_support h := None) \<and> devices t = devices s \<and>
    host_arcs t = (host_arcs s)(host_alive (hh_host h) := 0) \<and> last_error t = last_error s \<and>
    abi_proc t = (let p = DeviceHost_drop (e_hdv E) (hh_host h) (abi_proc s)
      in if hh_owned h = 0 then p else snd (on_platform (HcsCloseComputeSystem (e_hcs E) (hh_owned h)) p))"
proof -
  have ok: "host_ok s hp h" "hp \<noteq> 0" using assms by (auto simp: abi_inv_def)
  let ?s = "s\<lparr>hosts := (hosts s)(hp := None)\<rparr>"
  obtain u where u: "close_shares E (hh_shares h) ?s = Some u" "shares u = shares s |` (- set (hh_shares h))"
    "hosts u = (hosts s)(hp := None)" "supports u = supports s" "devices u = devices s" "abi_proc u = abi_proc s"
    "host_arcs u = (host_arcs s)(host_alive (hh_host h) := 1)" "last_error u = last_error s"
  proof -
    have "distinct (hh_shares h)" "0 \<notin> set (hh_shares h)" "host_arcs ?s (host_alive (hh_host h)) = Suc (length (hh_shares h))"
      "\<forall>p \<in> set (hh_shares h). \<exists>sh. shares ?s p = Some sh \<and> pci_host (vh_pci (sh_device sh)) = hh_host h"
      using ok(1) by (auto simp: host_ok_def)
    from close_shares_all [OF this, of E] show thesis using that by auto
  qed
  obtain b where b: "supports s (hh_support h) = Some b" "refcount b = 1" using ok(1) by (auto simp: host_ok_def)
  define v where "v = drop_host_arc E (hh_host h) u"
  have v: "supports v = supports s" "abi_proc v = DeviceHost_drop (e_hdv E) (hh_host h) (abi_proc s)"
    "host_arcs v = (host_arcs s)(host_alive (hh_host h) := 0)"
    using u by (simp_all add: v_def drop_host_arc_proc)
  have "drop_support (hh_support h) v = Some (v\<lparr>supports := (supports s)(hh_support h := None)\<rparr>)"
    using b v(1) by (simp add: drop_support_def release_def)
  then have "hvfs_host_close E hp s =
      Some (HVFS_OK, OwnedSystem_drop E (hh_owned h) (v\<lparr>supports := (supports s)(hh_support h := None)\<rparr>))"
    using assms(2) ok(2) u(1) by (simp add: hvfs_host_close_def v_def)
  then show ?thesis using u v by (simp add: OwnedSystem_drop_def v_def)
qed

lemma close_inv:
  assumes "abi_inv s" "hosts s hp = Some h" "hvfs_host_close E hp s = Some (c, t)"
  shows "abi_inv t"
proof -
  have T: "hosts t = (hosts s)(hp := None)" "shares t = shares s |` (- set (hh_shares h))"
    "supports t = (supports s)(hh_support h := None)" "host_arcs t = (host_arcs s)(host_alive (hh_host h) := 0)"
    "next_flag (abi_proc t) = next_flag (abi_proc s)"
    using host_close_effect [OF assms(1,2), of E] assms(3) by (auto simp: Let_def)
  have own: "sp \<in> set (hh_shares h) \<longleftrightarrow> sh_host sh = hp" if "shares s sp = Some sh" for sp sh
    using assms(1,2) that by (fastforce simp: abi_inv_def host_ok_def)
  have "host_ok t kp k" if k: "hosts s kp = Some k" "kp \<noteq> hp" for kp k
  proof -
    have "host_ok s kp k" "apart k h" using assms(1,2) k unfolding abi_inv_def by blast+
    moreover have "sp \<notin> set (hh_shares h)" if "sp \<in> set (hh_shares k)" for sp
      using \<open>host_ok s kp k\<close> that own k(2) by (fastforce simp: host_ok_def)
    ultimately show ?thesis using T by (auto simp: host_ok_def apart_def restrict_map_def)
  qed
  moreover have "\<exists>k. hosts t (sh_host sh) = Some k \<and> sp \<in> set (hh_shares k)" if "shares t sp = Some sh" for sp sh
  proof -
    have s: "shares s sp = Some sh" "sp \<notin> set (hh_shares h)" using that T(2) by (auto simp: restrict_map_def split: if_splits)
    then have "sh_host sh \<noteq> hp" using own by blast
    then show ?thesis using assms(1) s(1) T(1) by (auto simp: abi_inv_def)
  qed
  ultimately show ?thesis using assms(1) T(1) unfolding abi_inv_def by (auto split: if_splits)
qed

section \<open>Opening and adding\<close>

text \<open>The part of a host the invariant sees, and states that agree on the handles.\<close>

definition core :: "hvfs_host \<Rightarrow> hvfs_host" where
  "core h = h\<lparr>hh_runtime_id := None\<rparr>"

definition same_handles :: "('w, 'v) abi \<Rightarrow> ('w, 'v) abi \<Rightarrow> bool" where
  "same_handles s t \<longleftrightarrow>
     (\<forall>p. map_option core (hosts t p) = map_option core (hosts s p)) \<and> shares t = shares s \<and>
     supports t = supports s \<and> host_arcs t = host_arcs s \<and> next_flag (abi_proc s) \<le> next_flag (abi_proc t)"

lemma core_eq: "core h = core k \<longleftrightarrow> hh_shares h = hh_shares k \<and> hh_host h = hh_host k \<and> hh_support h = hh_support k \<and>
    hh_owned h = hh_owned k \<and> hh_memory h = hh_memory k"
  by (cases h; cases k) (auto simp: core_def)

lemma same_handles_hosts: "same_handles s t \<Longrightarrow> map_option core (hosts t p) = map_option core (hosts s p)"
  by (simp add: same_handles_def)

lemma same_handles_Some: "same_handles s t \<Longrightarrow> hosts t p = Some k \<Longrightarrow> \<exists>h. hosts s p = Some h \<and> core h = core k"
  using same_handles_hosts [of s t p] by (cases "hosts s p") auto

lemma same_handles_Some': "same_handles s t \<Longrightarrow> hosts s p = Some h \<Longrightarrow> \<exists>k. hosts t p = Some k \<and> core h = core k"
  using same_handles_hosts [of s t p] by (cases "hosts t p") auto

lemma same_handles_refl [simp]: "same_handles s s"
  by (simp add: same_handles_def)

lemma same_handles_error [simp]: "same_handles s (set_last_error m t) \<longleftrightarrow> same_handles s t"
  by (simp add: same_handles_def)

lemma same_handles_inv:
  assumes "abi_inv s" "same_handles s t"
  shows "abi_inv t"
proof -
  have ok: "host_ok t p k" if k: "hosts t p = Some k" for p k
  proof -
    obtain h where "hosts s p = Some h" "core h = core k" using same_handles_Some [OF assms(2) k] by blast
    then have "host_ok s p h" "core h = core k" using assms(1) by (auto simp: abi_inv_def)
    then show ?thesis using assms(2) by (auto simp: host_ok_def core_eq same_handles_def)
  qed
  have ap: "apart h k" if th: "hosts t p = Some h" "hosts t q = Some k" "p \<noteq> q" for p q h k
  proof -
    obtain h' where "hosts s p = Some h'" "core h' = core h" using same_handles_Some [OF assms(2) th(1)] by blast
    moreover obtain k' where "hosts s q = Some k'" "core k' = core k" using same_handles_Some [OF assms(2) th(2)] by blast
    moreover have "apart h' k'" using assms(1) th(3) calculation unfolding abi_inv_def by blast
    ultimately show ?thesis by (simp add: apart_def core_eq)
  qed
  have sh: "\<exists>k. hosts t (sh_host sh) = Some k \<and> sp \<in> set (hh_shares k)" if "shares t sp = Some sh" for sp sh
  proof -
    have "shares s sp = Some sh" using that assms(2) by (simp add: same_handles_def)
    then obtain h where "hosts s (sh_host sh) = Some h" "sp \<in> set (hh_shares h)" using assms(1) unfolding abi_inv_def by blast
    moreover obtain k where "hosts t (sh_host sh) = Some k" "core h = core k"
      using same_handles_Some' [OF assms(2) calculation(1)] by blast
    ultimately show ?thesis by (auto simp: core_eq)
  qed
  have "hosts t 0 = None"
    using assms(1) same_handles_hosts [OF assms(2), of 0] by (simp add: abi_inv_def)
  with ok ap sh show ?thesis by (simp add: abi_inv_def)
qed

lemma OwnedSystem_drop_fields [simp]:
  "hosts (OwnedSystem_drop E sy s) = hosts s" "shares (OwnedSystem_drop E sy s) = shares s"
  "supports (OwnedSystem_drop E sy s) = supports s" "host_arcs (OwnedSystem_drop E sy s) = host_arcs s"
  "last_error (OwnedSystem_drop E sy s) = last_error s"
  "next_flag (abi_proc (OwnedSystem_drop E sy s)) = next_flag (abi_proc s)"
  by (simp_all add: OwnedSystem_drop_def)

lemma from_proxy_outcome:
  assumes "DeviceHost_from_proxy api i sp p = (r, p')"
  shows "case r of Inl _ \<Rightarrow> next_flag p' = next_flag p
    | Inr h \<Rightarrow> host_alive h = next_flag p \<and> next_flag p' = Suc (next_flag p)"
  using assms
  by (auto simp: DeviceHost_from_proxy_def DeviceHost_from_def DeviceHost_wrap_def checked_out_eq case_prod_beta Let_def
      split: sum.splits if_splits)

definition rejected :: "i32 \<Rightarrow> ('w, 'v) abi \<Rightarrow> ('w, 'v) abi \<Rightarrow> bool" where
  "rejected c s t \<longleftrightarrow> sint c < 0 \<and> last_error t \<noteq> None \<and> same_handles s t"

lemma codes_negative [simp]:
  "sint HVFS_ERR_INVALID_ARG < 0" "sint HVFS_ERR_NOT_IMPLEMENTED < 0" "sint HVFS_ERR_PANIC < 0" "sint HVFS_ERR_HDV < 0"
  "sint HVFS_ERR_UNSUPPORTED < 0" "sint HVFS_OK = 0"
  by (simp_all add: HVFS_ERR_INVALID_ARG_def HVFS_ERR_NOT_IMPLEMENTED_def HVFS_ERR_PANIC_def HVFS_ERR_HDV_def
      HVFS_ERR_UNSUPPORTED_def HVFS_OK_def)

lemma rejected_error [simp]: "rejected c s (set_last_error m t) \<longleftrightarrow> sint c < 0 \<and> same_handles s t"
  by (simp add: rejected_def)

lemma cstr_rejected: "cstr p what s = (Inl e, t) \<Longrightarrow> rejected e s t"
  using cstr_fields [of p what s "Inl e" t] by auto

lemma cstr_ok: "cstr p what s = (Inr x, t) \<Longrightarrow> t = s"
  using cstr_fields [of p what s "Inr x" t] by auto

definition new_host :: "device_host \<Rightarrow> ptr \<Rightarrow> HCS_SYSTEM \<Rightarrow> u64 \<Rightarrow> hvfs_host" where
  "new_host host spt system mb =
     \<lparr>hh_shares = [], hh_host = host, hh_support = spt, hh_owned = system,
      hh_memory = saturating_mul mb (1024 * 1024), hh_runtime_id = None\<rparr>"

lemma host_open_outcome:
  assumes "supports s spt = None"
  shows "\<exists>c o' t. hvfs_host_open E bx spt ident js out s = Some ((c, o'), t) \<and>
    (rejected c s t \<and> o' = (if out then Some 0 else None) \<or>
     c = HVFS_OK \<and> o' = Some bx \<and> out \<and> (\<exists>host sy mb b. host_alive host = next_flag (abi_proc s) \<and>
       next_flag (abi_proc t) = Suc (next_flag (abi_proc s)) \<and> hosts t = (hosts s)(bx \<mapsto> new_host host spt sy mb) \<and>
       shares t = shares s \<and> supports t = (supports s)(spt \<mapsto> b) \<and> refcount b = 1 \<and>
       host_arcs t = (host_arcs s)(host_alive host := 1)))"
proof (cases "out")
  case False
  then show ?thesis by (simp add: hvfs_host_open_def)
next
  case out: True
  obtain r1 s1 where r1: "cstr ident (lit ''hcs_system_id'') s = (r1, s1)" by (metis surj_pair)
  obtain r2 s2 where r2: "cstr js (lit ''host_json'') s = (r2, s2)" by (metis surj_pair)
  show ?thesis
  proof (cases "(\<exists>e. r1 = Inl e) \<or> (\<exists>e. r2 = Inl e) \<or> (\<exists>x e. r2 = Inr x \<and> parse_host E x = Inl e)")
    case True
    then show ?thesis
    proof (cases r1)
      case (Inl e)
      then have "rejected e s s1" using r1 cstr_rejected by blast
      then show ?thesis using out r1 Inl by (simp add: hvfs_host_open_def)
    next
      case (Inr x)
      then have "s1 = s" using r1 cstr_ok by simp
      note one = this Inr
      show ?thesis
      proof (cases r2)
        case (Inl e)
        then have "rejected e s s2" using r2 cstr_rejected by blast
        then show ?thesis using out r1 r2 Inl one by (simp add: hvfs_host_open_def)
      next
        case (Inr y)
        then have "s2 = s" using r2 cstr_ok by simp
        then show ?thesis using out r1 r2 Inr one True by (auto simp: hvfs_host_open_def)
      qed
    qed
  next
    case False
    then obtain x y mb where xy: "r1 = Inr x" "r2 = Inr y" "parse_host E y = Inr mb" by (metis sum.exhaust)
    then have s12: "s1 = s" "s2 = s" using r1 r2 cstr_ok by simp_all
    obtain code sy s3 where s3: "on_abi (on_platform (HcsOpenComputeSystem (e_hcs E) (wide x) GENERIC_ALL)) s = ((code, sy), s3)"
      by (metis surj_pair)
    have f3: "hosts s3 = hosts s" "shares s3 = shares s" "supports s3 = supports s" "host_arcs s3 = host_arcs s"
      "next_flag (abi_proc s3) = next_flag (abi_proc s)"
      using on_abi_fields [of "on_platform (HcsOpenComputeSystem (e_hcs E) (wide x) GENERIC_ALL)" s] unfolding s3 by simp_all
    show ?thesis
    proof (cases "failed code")
      case True
      then show ?thesis using out r1 r2 xy s12 s3 f3 by (simp add: hvfs_host_open_def same_handles_def)
    next
      case False
      let ?s4 = "s3\<lparr>supports := DeviceHostSupport_new sy spt (supports s3)\<rparr>"
      obtain q s5 where q: "on_abi (DeviceHost_from_proxy (e_hdv E) HVFS_DEVICE_HOST_ID spt) ?s4 = (q, s5)" by (metis surj_pair)
      have f5: "hosts s5 = hosts s" "shares s5 = shares s" "supports s5 = DeviceHostSupport_new sy spt (supports s)"
        "host_arcs s5 = host_arcs s"
        using on_abi_fields [of "DeviceHost_from_proxy (e_hdv E) HVFS_DEVICE_HOST_ID spt" ?s4] f3 unfolding q by simp_all
      have nf: "case q of Inl _ \<Rightarrow> next_flag (abi_proc s5) = next_flag (abi_proc s)
        | Inr h \<Rightarrow> host_alive h = next_flag (abi_proc s) \<and> next_flag (abi_proc s5) = Suc (next_flag (abi_proc s))"
        using from_proxy_outcome [of "e_hdv E" HVFS_DEVICE_HOST_ID spt "abi_proc ?s4" q "abi_proc s5"] q f3
        by (auto simp: on_abi_def split: prod.splits sum.splits)
      show ?thesis
      proof (cases q)
        case (Inl e)
        have "drop_support spt (set_last_error m s5) = Some ((set_last_error m s5)\<lparr>supports := supports s\<rparr>)" for m
          using f5(3) assms by (simp add: drop_support_def release_def DeviceHostSupport_new_def fun_upd_idem)
        then obtain m where eq: "hvfs_host_open E bx spt ident js out s =
            Some ((HVFS_ERR_HDV, Some 0), OwnedSystem_drop E sy ((set_last_error m s5)\<lparr>supports := supports s\<rparr>))"
          using out r1 r2 xy s12 s3 False q Inl by (simp add: hvfs_host_open_def Let_def)
        moreover have "rejected HVFS_ERR_HDV s (OwnedSystem_drop E sy ((set_last_error m s5)\<lparr>supports := supports s\<rparr>))"
          using f5 nf Inl by (simp add: rejected_def same_handles_def)
        ultimately show ?thesis using out by auto
      next
        case (Inr host)
        let ?b = "\<lparr>refcount = 1, support_system = sy, called = False, register_hr = 0, ipc_section = 0, device_host_pid = 0\<rparr>"
        have sup: "supports s5 = (supports s)(spt \<mapsto> ?b)" "refcount ?b = 1" using f5(3) by (simp_all add: DeviceHostSupport_new_def)
        define t where "t = s5\<lparr>hosts := (hosts s5)(bx \<mapsto> new_host host spt sy mb), host_arcs := (host_arcs s5)(host_alive host := 1)\<rparr>"
        have eq: "hvfs_host_open E bx spt ident js out s = Some ((HVFS_OK, Some bx), t)"
          using out r1 r2 xy s12 s3 False q Inr by (simp add: hvfs_host_open_def new_host_def t_def)
        have "host_alive host = next_flag (abi_proc s)" "next_flag (abi_proc t) = Suc (next_flag (abi_proc s))"
          "hosts t = (hosts s)(bx \<mapsto> new_host host spt sy mb)" "shares t = shares s" "supports t = (supports s)(spt \<mapsto> ?b)"
          "host_arcs t = (host_arcs s)(host_alive host := 1)"
          using f5 nf Inr sup by (simp_all add: t_def)
        with eq out sup(2) show ?thesis by blast
      qed
    qed
  qed
qed

lemma open_inv:
  assumes "abi_inv s" "hosts s bx = None" "bx \<noteq> 0" "supports s spt = None"
    "hvfs_host_open E bx spt ident js out s = Some (r, t)"
  shows "abi_inv t"
proof -
  obtain c o' where r: "r = (c, o')" by (cases r)
  consider "rejected c s t"
    | host sy mb b where "host_alive host = next_flag (abi_proc s)" "next_flag (abi_proc t) = Suc (next_flag (abi_proc s))"
        "hosts t = (hosts s)(bx \<mapsto> new_host host spt sy mb)" "shares t = shares s" "supports t = (supports s)(spt \<mapsto> b)"
        "refcount b = 1" "host_arcs t = (host_arcs s)(host_alive host := 1)"
    using host_open_outcome [OF assms(4), of E bx ident js out] assms(5) unfolding r by auto
  then show ?thesis
  proof cases
    case 1
    then show ?thesis using same_handles_inv [OF assms(1)] by (simp add: rejected_def)
  next
    case 2
    have old: "host_ok t p k \<and> apart k (new_host host spt sy mb)" if k: "hosts s p = Some k" for p k
    proof -
      have ok: "host_ok s p k" using assms(1) k by (simp add: abi_inv_def)
      then have "host_alive (hh_host k) \<noteq> host_alive host" "hh_support k \<noteq> spt"
        using 2(1) assms(4) by (auto simp: host_ok_def)
      then show ?thesis using ok 2 by (auto simp: host_ok_def apart_def new_host_def)
    qed
    have new: "host_ok t bx (new_host host spt sy mb)" using 2 by (simp add: host_ok_def new_host_def)
    have sym: "apart h k \<Longrightarrow> apart k h" for h k by (auto simp: apart_def)
    have "apart h k" if "hosts t p = Some h" "hosts t q = Some k" "p \<noteq> q" for p q h k
      using that 2(3) old sym assms(1) unfolding abi_inv_def by (auto split: if_splits)
    moreover have "\<exists>h. hosts t (sh_host sh) = Some h \<and> sp \<in> set (hh_shares h)" if "shares t sp = Some sh" for sp sh
      using that 2(3,4) assms(1,2) unfolding abi_inv_def by (metis fun_upd_other option.distinct(1))
    moreover have "hosts t 0 = None" using 2(3) assms(1,3) by (simp add: abi_inv_def)
    moreover have "host_ok t p k" if "hosts t p = Some k" for p k
      using that 2(3) old new by (auto split: if_splits)
    ultimately show ?thesis by (simp add: abi_inv_def)
  qed
qed

lemma host_runtime_id_outcome:
  assumes "hosts s host = Some h" "host_runtime_id E host h s = (r, t)"
  shows "same_handles s t \<and> devices t = devices s \<and> (\<exists>k. hosts t host = Some k \<and> core k = core h)"
proof (cases "hh_runtime_id h = None")
  case False
  then show ?thesis using assms by (simp add: host_runtime_id_def)
next
  case True
  obtain q u where q: "on_abi (hcs_runtime_id (e_hcs E) (json_runtime_id E) (hh_owned h)) s = (q, u)" by (metis surj_pair)
  have u: "hosts u = hosts s" "shares u = shares s" "supports u = supports s" "host_arcs u = host_arcs s"
    "devices u = devices s" "next_flag (abi_proc u) = next_flag (abi_proc s)"
    using on_abi_fields [of "hcs_runtime_id (e_hcs E) (json_runtime_id E) (hh_owned h)" s] unfolding q by simp_all
  have "core (h\<lparr>hh_runtime_id := x\<rparr>) = core h" for x by (simp add: core_def)
  then show ?thesis using assms True q u
    by (cases q) (auto simp: host_runtime_id_def same_handles_def)
qed

lemma attach_share_outcome:
  assumes "devices s ctx = None" "attach_share E ctx vt h cfg inst rid s = (r, t)"
  shows "hosts t = hosts s \<and> shares t = shares s \<and> supports t = supports s \<and>
    next_flag (abi_proc t) = next_flag (abi_proc s) \<and>
    ((\<exists>d. r = Return (Inr d) \<and> pci_host (vh_pci d) = hh_host h \<and>
        host_arcs t = (host_arcs s)(host_alive (hh_host h) := host_arcs s (host_alive (hh_host h)) + 1)) \<or>
     (\<forall>d. r \<noteq> Return (Inr d)) \<and> host_arcs t = host_arcs s)"
proof -
  let ?att = "attach_shared (e_hdv E) (e_vapi E) (e_fs E (cfg_path cfg)) (e_transport E (cfg_tag cfg)) (e_workers E)
    (e_parallelism E)
    (make_seams (e_doorbell E) (e_stats E) (e_now E) (hh_memory h) (host_alive (hh_host h)) inst rid (e_req_stats E) (abi_proc s))
    (hh_host h) VIRTIO_FS_DEVICE_CLASS_ID inst ctx vt (devices s, abi_proc s)"
  obtain q ds p where q: "?att = (q, ds, p)" by (metis surj_pair)
  have nf: "next_flag p = next_flag (abi_proc s)" using next_flag_attach [OF assms(1) q] .
  have host: "pci_host (vh_pci d) = hh_host h" if "q = Return (Inr d)" for d
    using attach_shared_outcome [OF assms(1) q [unfolded that]] by simp
  show ?thesis using assms(2) q nf host
    by (auto simp: attach_share_def Let_def split: outcome.splits sum.splits)
qed

text \<open>What a successful add does to the handles, from a state \<open>u\<close> with the handles of before.\<close>

definition registered :: "ptr \<Rightarrow> ptr \<Rightarrow> ('w, 'v) abi \<Rightarrow> ('w, 'v) abi \<Rightarrow> bool" where
  "registered host bx u t \<longleftrightarrow>
     (\<exists>k sh. hosts u host = Some k \<and> sh_host sh = host \<and> pci_host (vh_pci (sh_device sh)) = hh_host k \<and>
        hosts t = (hosts u)(host \<mapsto> k\<lparr>hh_shares := hh_shares k @ [bx]\<rparr>) \<and> shares t = (shares u)(bx \<mapsto> sh) \<and>
        supports t = supports u \<and> host_arcs t = (host_arcs u)(host_alive (hh_host k) := host_arcs u (host_alive (hh_host k)) + 1) \<and>
        next_flag (abi_proc u) \<le> next_flag (abi_proc t))"

lemma add_slot_outcome:
  assumes u: "hosts u host = Some k" "pci_host (vh_pci dev) = hh_host k" "0 < host_arcs u (host_alive (hh_host k))"
    and s: "hosts s = hosts u" "shares s = shares u" "supports s = supports u"
      "host_arcs s = (host_arcs u)(host_alive (hh_host k) := host_arcs u (host_alive (hh_host k)) + 1)"
      "next_flag (abi_proc s) = next_flag (abi_proc u)"
    and r: "add_slot E bx host sy inst dev s = ((c, o'), t)"
  shows "rejected c u t \<and> o' = Some 0 \<or> c = HVFS_OK \<and> o' = Some bx \<and> registered host bx u t"
proof -
  let ?m = "hcs_modify (e_hcs E) sy (slot_request E (lit ''Add'') (guid_to_string inst) (guid_to_string VIRTIO_FS_DEVICE_CLASS_ID))"
  obtain q v where q: "on_abi ?m s = (q, v)" by (metis surj_pair)
  have v: "hosts v = hosts u" "shares v = shares u" "supports v = supports u" "host_arcs v = host_arcs s"
    "next_flag (abi_proc v) = next_flag (abi_proc u)"
    using on_abi_fields [of ?m s] s unfolding q by simp_all
  show ?thesis
  proof (cases q)
    case (Inl e)
    have "host_arcs (drop_device E dev v) = host_arcs u"
      using u(2) v(4) s(4) by (simp add: drop_device_def)
    moreover have "hosts (drop_device E dev v) = hosts u" "shares (drop_device E dev v) = shares u"
      "supports (drop_device E dev v) = supports u" "next_flag (abi_proc (drop_device E dev v)) = next_flag (abi_proc u)"
      using v by (simp_all add: drop_device_def)
    ultimately have "same_handles u (drop_device E dev v)" by (simp add: same_handles_def)
    then show ?thesis using r q Inl by (auto simp: add_slot_def)
  next
    case (Inr x)
    define sh where "sh = \<lparr>sh_device = dev, sh_system = sy, sh_host = host, sh_instance_id = guid_to_string inst,
      sh_emulator_id = guid_to_string VIRTIO_FS_DEVICE_CLASS_ID\<rparr>"
    have "c = HVFS_OK" "o' = Some bx" and t: "t = v\<lparr>shares := (shares u)(bx \<mapsto> sh),
        hosts := (hosts u)(host \<mapsto> k\<lparr>hh_shares := hh_shares k @ [bx]\<rparr>)\<rparr>"
      using r q Inr v u(1) by (simp_all add: add_slot_def Let_def sh_def)
    moreover have "sh_host sh = host" "pci_host (vh_pci (sh_device sh)) = hh_host k" using u(2) by (simp_all add: sh_def)
    then have "registered host bx u t" unfolding registered_def t
      using u(1) v s(4) by (intro exI [of _ k] exI [of _ sh]) simp
    ultimately show ?thesis by simp
  qed
qed

lemma add_share_attached:
  assumes "abi_inv s" "hosts s host = Some h" "devices s ctx = None"
    and rid: "host_runtime_id E host h s = (Return rid, u)"
    and att: "attach_share E ctx vt h cfg inst rid u = (Return (Inr dev), v)"
    and slot: "add_slot E bx host (hh_owned h) inst dev v = ((c, o'), t)"
  shows "rejected c s t \<and> o' = Some 0 \<or> c = HVFS_OK \<and> o' = Some bx \<and> (\<exists>u. same_handles s u \<and> registered host bx u t)"
proof -
  obtain k where u: "same_handles s u" "devices u = devices s" "hosts u host = Some k" "core k = core h"
    using host_runtime_id_outcome [OF assms(2) rid] by blast
  have hk: "hh_host h = hh_host k" using u(4) by (simp add: core_eq)
  have "abi_inv u" using assms(1) u(1) same_handles_inv by blast
  then have "host_ok u host k" using u(3) unfolding abi_inv_def by blast
  then have arcs: "0 < host_arcs u (host_alive (hh_host k))" by (simp add: host_ok_def)
  have dev: "pci_host (vh_pci dev) = hh_host k"
    and v: "hosts v = hosts u" "shares v = shares u" "supports v = supports u"
      "host_arcs v = (host_arcs u)(host_alive (hh_host k) := host_arcs u (host_alive (hh_host k)) + 1)"
      "next_flag (abi_proc v) = next_flag (abi_proc u)"
    using attach_share_outcome [OF _ att] u(2) assms(3) hk by auto
  have "rejected c u t \<and> o' = Some 0 \<or> c = HVFS_OK \<and> o' = Some bx \<and> registered host bx u t"
    by (rule add_slot_outcome [OF u(3) dev arcs v slot])
  moreover have "same_handles s t" if "same_handles u t"
    using u(1) that by (simp add: same_handles_def)
  ultimately show ?thesis using u(1) by (auto simp: rejected_def)
qed

text \<open>The rejections before the device is attached.\<close>

lemma guard_panic [simp]: "guard Panic s = (HVFS_ERR_PANIC, set_last_error (lit ''panic caught at FFI boundary'') s)"
  by (simp add: guard_def catch_unwind_def)

lemma add_share_outcome:
  assumes "abi_inv s" "host = 0 \<or> hosts s host = Some h" "devices s ctx = None"
  shows "\<exists>c o' t. hvfs_add_share E bx ctx vt host js out s = Some ((c, o'), t) \<and>
    (rejected c s t \<and> o' = (if out then Some 0 else None) \<or>
     c = HVFS_OK \<and> o' = Some bx \<and> out \<and> host \<noteq> 0 \<and> (\<exists>u. same_handles s u \<and> registered host bx u t))"
proof (cases "out \<and> host \<noteq> 0")
  case False
  then show ?thesis by (auto simp: hvfs_add_share_def)
next
  case True
  then have h: "hosts s host = Some h" and out: "out" "host \<noteq> 0" using assms(2) by auto
  obtain r1 s1 where r1: "cstr js (lit ''share_json'') s = (r1, s1)" by (metis surj_pair)
  show ?thesis
  proof (cases r1)
    case (Inl e)
    then have "rejected e s s1" using r1 cstr_rejected by blast
    then show ?thesis using out h r1 Inl by (simp add: hvfs_add_share_def)
  next
    case (Inr x)
    then have s1: "s1 = s" using r1 cstr_ok by simp
    show ?thesis
    proof (cases "\<exists>cfg inst. parse_share E x = Inr cfg \<and> \<not> cfg_ro cfg \<and> guid_from_string (cfg_instance_id cfg) = Return (Some inst)")
      case False
      then show ?thesis using out h r1 Inr s1
        by (auto simp: hvfs_add_share_def split: sum.splits outcome.splits option.splits)
    next
      case True
      then obtain cfg inst where cfg: "parse_share E x = Inr cfg" "\<not> cfg_ro cfg"
        "guid_from_string (cfg_instance_id cfg) = Return (Some inst)" by blast
      obtain q u where q: "host_runtime_id E host h s = (q, u)" by (metis surj_pair)
      have u: "same_handles s u" "devices u = devices s" using host_runtime_id_outcome [OF h q] by auto
      note eq = hvfs_add_share_def out h r1 Inr s1 cfg q
      show ?thesis
      proof (cases q)
        case Panic
        then show ?thesis using u by (simp add: eq)
      next
        case (Return rid)
        obtain a v where a: "attach_share E ctx vt h cfg inst rid u = (a, v)" by (metis surj_pair)
        have v: "same_handles s v" if "\<forall>d. a \<noteq> Return (Inr d)"
          using attach_share_outcome [OF _ a] u assms(3) that by (auto simp: same_handles_def)
        show ?thesis
        proof (cases "\<exists>d. a = Return (Inr d)")
          case False
          then have "same_handles s v" using v by blast
          then show ?thesis using False a Return by (auto simp: eq split: outcome.splits sum.splits)
        next
          case True
          then obtain dev where dev: "a = Return (Inr dev)" by blast
          obtain c o' t where t: "add_slot E bx host (hh_owned h) inst dev v = ((c, o'), t)" by (metis surj_pair)
          show ?thesis
            using add_share_attached [OF assms(1) h assms(3) q [unfolded Return] a [unfolded dev] t] a Return dev t
            by (auto simp: eq)
        qed
      qed
    qed
  qed
qed

lemma registered_inv:
  assumes "abi_inv u" "registered host bx u t" "shares u bx = None" "bx \<noteq> 0"
  shows "abi_inv t"
proof -
  obtain k sh where k: "hosts u host = Some k" "sh_host sh = host" "pci_host (vh_pci (sh_device sh)) = hh_host k"
    and t: "hosts t = (hosts u)(host \<mapsto> k\<lparr>hh_shares := hh_shares k @ [bx]\<rparr>)" "shares t = (shares u)(bx \<mapsto> sh)"
      "supports t = supports u" "host_arcs t = (host_arcs u)(host_alive (hh_host k) := host_arcs u (host_alive (hh_host k)) + 1)"
      "next_flag (abi_proc u) \<le> next_flag (abi_proc t)"
    using assms(2) unfolding registered_def by blast
  have kok: "host_ok u host k" using assms(1) k(1) by (simp add: abi_inv_def)
  have fresh: "bx \<notin> set (hh_shares k)" using kok assms(3) by (auto simp: host_ok_def)
  have new: "host_ok t host (k\<lparr>hh_shares := hh_shares k @ [bx]\<rparr>)"
    using kok fresh k t assms(4) by (auto simp: host_ok_def)
  have old: "host_ok t p h" if p: "hosts u p = Some h" "p \<noteq> host" for p h
  proof -
    have "host_ok u p h" "apart h k" using assms(1) p k(1) unfolding abi_inv_def by blast+
    then show ?thesis using t assms(3) by (fastforce simp: host_ok_def apart_def)
  qed
  have "host_ok t p h" if "hosts t p = Some h" for p h
    using that new old t(1) by (auto split: if_splits)
  moreover have "apart h h'" if "hosts t p = Some h" "hosts t q = Some h'" "p \<noteq> q" for p q h h'
    using that t(1) assms(1) k(1) unfolding abi_inv_def apart_def by (auto split: if_splits)
  moreover have "\<exists>h. hosts t (sh_host sh') = Some h \<and> p \<in> set (hh_shares h)" if px: "shares t p = Some sh'" for p sh'
  proof (cases "p = bx")
    case True
    then show ?thesis using px t(1,2) k(2) by auto
  next
    case False
    then have "shares u p = Some sh'" using px t(2) by simp
    then obtain h where "hosts u (sh_host sh') = Some h" "p \<in> set (hh_shares h)"
      using assms(1) unfolding abi_inv_def by blast
    then show ?thesis using t(1) k(1) by (cases "sh_host sh' = host") auto
  qed
  moreover have "hosts t 0 = None" using t(1) assms(1) k(1) by (auto simp: abi_inv_def)
  ultimately show ?thesis by (simp add: abi_inv_def)
qed

lemma add_inv:
  assumes "abi_inv s" "host = 0 \<or> hosts s host \<noteq> None" "devices s ctx = None" "shares s bx = None" "bx \<noteq> 0"
    "hvfs_add_share E bx ctx vt host js out s = Some (r, t)"
  shows "abi_inv t"
proof -
  obtain h where h: "host = 0 \<or> hosts s host = Some h" using assms(2) by auto
  obtain c o' where r: "r = (c, o')" by (cases r)
  consider "rejected c s t" | u where "same_handles s u" "registered host bx u t"
    using add_share_outcome [OF assms(1) h assms(3), of E bx vt js out] assms(6) unfolding r by auto
  then show ?thesis
  proof cases
    case 1
    then show ?thesis using same_handles_inv [OF assms(1)] by (simp add: rejected_def)
  next
    case 2
    moreover from 2(1) have "shares u bx = None" using assms(4) by (simp add: same_handles_def)
    ultimately show ?thesis using same_handles_inv [OF assms(1)] registered_inv assms(5) by blast
  qed
qed

section \<open>Removing\<close>

text \<open>What a remove that frees the handle does to the handles.\<close>

definition deregistered :: "ptr \<Rightarrow> 'w hvfs_share \<Rightarrow> ('w, 'v) abi \<Rightarrow> ('w, 'v) abi \<Rightarrow> bool" where
  "deregistered sp sh s t \<longleftrightarrow>
     (\<exists>k. hosts s (sh_host sh) = Some k \<and>
        hosts t = (hosts s)(sh_host sh \<mapsto> k\<lparr>hh_shares := filter (\<lambda>p. p \<noteq> sp) (hh_shares k)\<rparr>) \<and>
        shares t = (shares s)(sp := None) \<and> supports t = supports s \<and> devices t = devices s \<and>
        host_arcs t = (host_arcs s)(host_alive (hh_host k) := host_arcs s (host_alive (hh_host k)) - 1) \<and>
        next_flag (abi_proc t) = next_flag (abi_proc s))"

lemma share_owner:
  assumes "abi_inv s" "shares s sp = Some sh"
  obtains k where "hosts s (sh_host sh) = Some k" "sp \<in> set (hh_shares k)" "host_ok s (sh_host sh) k" "sh_host sh \<noteq> 0"
    "sp \<noteq> 0" "pci_host (vh_pci (sh_device sh)) = hh_host k" "1 < host_arcs s (host_alive (hh_host k))"
proof -
  obtain k where k: "hosts s (sh_host sh) = Some k" "sp \<in> set (hh_shares k)" using assms unfolding abi_inv_def by blast
  then have ok: "host_ok s (sh_host sh) k" using assms(1) by (simp add: abi_inv_def)
  moreover have "sh_host sh \<noteq> 0" using k(1) assms(1) by (metis abi_inv_def option.distinct(1))
  moreover have "sp \<noteq> 0" "pci_host (vh_pci (sh_device sh)) = hh_host k" using ok k(2) assms(2) by (auto simp: host_ok_def)
  moreover have "1 < host_arcs s (host_alive (hh_host k))" using ok k(2) by (cases "hh_shares k") (auto simp: host_ok_def)
  ultimately show thesis using that k by blast
qed

lemma remove_outcome:
  fixes E :: "('w, 'v, 'fs) abi_env"
  assumes "abi_inv s" "shares s sp = Some sh"
  defines "m \<equiv> hcs_modify (e_hcs E) (sh_system sh) (slot_request E (lit ''Remove'') (sh_instance_id sh) (sh_emulator_id sh))
    (abi_proc s)"
  shows "\<exists>c t. hvfs_remove_share E sp s = Some (c, t) \<and> abi_proc t = snd m \<and>
    (case fst m of
       Inr _ \<Rightarrow> c = HVFS_OK \<and> deregistered sp sh s t
     | Inl e \<Rightarrow> last_error t \<noteq> None \<and>
         (if e = HRESULT_NOT_SUPPORTED then c = HVFS_ERR_UNSUPPORTED \<and> deregistered sp sh s t
          else c = HVFS_ERR_HDV \<and> same_handles s t \<and> devices t = devices s))"
proof -
  obtain k where k: "hosts s (sh_host sh) = Some k" "sh_host sh \<noteq> 0" "sp \<noteq> 0" "pci_host (vh_pci (sh_device sh)) = hh_host k"
    "1 < host_arcs s (host_alive (hh_host k))"
    using share_owner [OF assms(1,2)] by blast
  let ?f = "hcs_modify (e_hcs E) (sh_system sh) (slot_request E (lit ''Remove'') (sh_instance_id sh) (sh_emulator_id sh))"
  obtain r v where r: "on_abi ?f s = (r, v)" by (metis surj_pair)
  have v: "hosts v = hosts s" "shares v = shares s" "supports v = supports s" "host_arcs v = host_arcs s"
    "devices v = devices s" "abi_proc v = snd m" "fst m = r" "next_flag (abi_proc v) = next_flag (abi_proc s)"
    using on_abi_fields [of ?f s] unfolding r by (simp_all add: m_def)
  define w where "w x = drop_device E (sh_device sh) (x\<lparr>hosts := (hosts x)(sh_host sh \<mapsto> k\<lparr>hh_shares := filter (\<lambda>p. p \<noteq> sp) (hh_shares k)\<rparr>),
      shares := (shares x)(sp := None)\<rparr>)" for x :: "('w, 'v) abi"
  have w: "deregistered sp sh s (w x) \<and> abi_proc (w x) = abi_proc x \<and> last_error (w x) = last_error x"
    if x: "x = v \<or> (\<exists>m. x = set_last_error m v)" for x
  proof -
    have "hosts x = hosts s" "shares x = shares s" "supports x = supports s" "host_arcs x = host_arcs s"
      "devices x = devices s" "abi_proc x = abi_proc v" using x v by auto
    then show ?thesis using k v(8)
      by (auto simp: w_def drop_device_def drop_host_arc_proc deregistered_def)
  qed
  have neq: "HVFS_ERR_HDV \<noteq> HVFS_OK" "HVFS_ERR_HDV \<noteq> HVFS_ERR_UNSUPPORTED"
    by (simp_all add: HVFS_ERR_HDV_def HVFS_OK_def HVFS_ERR_UNSUPPORTED_def)
  show ?thesis
  proof (cases r)
    case (Inr x)
    then have "hvfs_remove_share E sp s = Some (HVFS_OK, w v)"
      using k r v(1) assms(2) by (simp add: hvfs_remove_share_def w_def Let_def)
    then show ?thesis using w [of v] v Inr by simp
  next
    case (Inl e)
    show ?thesis
    proof (cases "e = HRESULT_NOT_SUPPORTED")
      case True
      then obtain msg where "hvfs_remove_share E sp s = Some (HVFS_ERR_UNSUPPORTED, w (set_last_error msg v))"
        using k r v(1) assms(2) Inl by (simp add: hvfs_remove_share_def w_def Let_def)
      moreover have wm: "deregistered sp sh s (w (set_last_error msg v)) \<and> abi_proc (w (set_last_error msg v)) = abi_proc v \<and>
          last_error (w (set_last_error msg v)) = last_error (set_last_error msg v)"
        using w [of "set_last_error msg v"] by auto
      moreover have "last_error (w (set_last_error msg v)) \<noteq> None" using wm set_last_error_fields(7) by simp
      ultimately show ?thesis using v Inl True by (simp del: not_None_eq)
    next
      case False
      then show ?thesis using k r v assms(2) Inl neq
        by (simp add: hvfs_remove_share_def fail_def same_handles_def del: not_None_eq)
    qed
  qed
qed

lemma deregistered_inv:
  assumes "abi_inv s" "shares s sp = Some sh" "deregistered sp sh s t"
  shows "abi_inv t"
proof -
  obtain k where k: "hosts s (sh_host sh) = Some k" "sp \<in> set (hh_shares k)" "host_ok s (sh_host sh) k" "sh_host sh \<noteq> 0"
    using share_owner [OF assms(1,2)] by blast
  have t: "hosts t = (hosts s)(sh_host sh \<mapsto> k\<lparr>hh_shares := filter (\<lambda>p. p \<noteq> sp) (hh_shares k)\<rparr>)"
    "shares t = (shares s)(sp := None)" "supports t = supports s"
    "host_arcs t = (host_arcs s)(host_alive (hh_host k) := host_arcs s (host_alive (hh_host k)) - 1)"
    "next_flag (abi_proc t) = next_flag (abi_proc s)"
    using assms(3) k(1) by (auto simp: deregistered_def)
  have len: "Suc (length (filter (\<lambda>p. p \<noteq> sp) (hh_shares k))) = length (hh_shares k)"
  proof -
    have "distinct (hh_shares k)" using k(3) by (simp add: host_ok_def)
    then have "filter (\<lambda>p. p \<noteq> sp) (hh_shares k) = remove1 sp (hh_shares k)"
      by (simp add: distinct_remove1_removeAll removeAll_filter_not_eq eq_commute [of sp])
    moreover have "0 < length (hh_shares k)" using k(2) by (cases "hh_shares k") auto
    ultimately show ?thesis using k(2) by (simp add: length_remove1)
  qed
  have new: "host_ok t (sh_host sh) (k\<lparr>hh_shares := filter (\<lambda>p. p \<noteq> sp) (hh_shares k)\<rparr>)"
    using k(3) t len by (auto simp: host_ok_def)
  have old: "host_ok t p h" if p: "hosts s p = Some h" "p \<noteq> sh_host sh" for p h
  proof -
    have h: "host_ok s p h" "apart h k" using assms(1) p k(1) unfolding abi_inv_def by blast+
    then have "sp \<notin> set (hh_shares h)" using assms(2) p(2) by (auto simp: host_ok_def)
    then show ?thesis using h t by (auto simp: host_ok_def apart_def)
  qed
  have "host_ok t p h" if "hosts t p = Some h" for p h
    using that new old t(1) by (auto split: if_splits)
  moreover have "apart h h'" if "hosts t p = Some h" "hosts t q = Some h'" "p \<noteq> q" for p q h h'
    using that t(1) assms(1) k(1) unfolding abi_inv_def apart_def by (auto split: if_splits)
  moreover have "\<exists>h. hosts t (sh_host x) = Some h \<and> p \<in> set (hh_shares h)" if px: "shares t p = Some x" for p x
  proof -
    have "p \<noteq> sp" "shares s p = Some x" using px t(2) by (auto split: if_splits)
    moreover then obtain h where "hosts s (sh_host x) = Some h" "p \<in> set (hh_shares h)"
      using assms(1) unfolding abi_inv_def by blast
    ultimately show ?thesis using t(1) k(1) by (cases "sh_host x = sh_host sh") auto
  qed
  moreover have "hosts t 0 = None" using t(1) assms(1) k(4) by (simp add: abi_inv_def)
  ultimately show ?thesis by (simp add: abi_inv_def)
qed

lemma remove_inv:
  assumes "abi_inv s" "shares s sp = Some sh" "hvfs_remove_share E sp s = Some (c, t)"
  shows "abi_inv t"
proof -
  have "deregistered sp sh s t \<or> same_handles s t"
    using remove_outcome [OF assms(1,2), of E] assms(3) by (auto split: sum.splits if_splits)
  then show ?thesis using deregistered_inv [OF assms(1,2)] same_handles_inv [OF assms(1)] by blast
qed

section \<open>The caller\<close>

text \<open>
  A caller that keeps the contract of the header: handles it passes are null or live, and the
  allocator returns addresses that are not in use. Between the calls the guest and the other threads
  may change the devices and the platform in any way.
\<close>

inductive abi_step :: "('w, 'v, 'fs) abi_env set \<Rightarrow> ('w, 'v) abi \<Rightarrow> ('w, 'v) abi \<Rightarrow> bool"
  for Es :: "('w, 'v, 'fs) abi_env set"
where
  Open: "E \<in> Es \<Longrightarrow> hosts s bx = None \<Longrightarrow> bx \<noteq> 0 \<Longrightarrow> supports s spt = None \<Longrightarrow>
    hvfs_host_open E bx spt ident js out s = Some (r, t) \<Longrightarrow> abi_step Es s t"
| Add: "E \<in> Es \<Longrightarrow> host = 0 \<or> hosts s host \<noteq> None \<Longrightarrow> devices s ctx = None \<Longrightarrow> shares s bx = None \<Longrightarrow> bx \<noteq> 0 \<Longrightarrow>
    hvfs_add_share E bx ctx vt host js out s = Some (r, t) \<Longrightarrow> abi_step Es s t"
| Remove: "E \<in> Es \<Longrightarrow> sp = 0 \<or> shares s sp \<noteq> None \<Longrightarrow> hvfs_remove_share E sp s = Some (c, t) \<Longrightarrow> abi_step Es s t"
| Close: "E \<in> Es \<Longrightarrow> hp = 0 \<or> hosts s hp \<noteq> None \<Longrightarrow> hvfs_host_close E hp s = Some (c, t) \<Longrightarrow> abi_step Es s t"
| World: "abi_step Es s (s\<lparr>devices := ds, abi_proc := (abi_proc s)\<lparr>platform := w\<rparr>\<rparr>)"

definition abi_init :: "('w, 'v) abi \<Rightarrow> bool" where
  "abi_init s \<longleftrightarrow> hosts s = Map.empty \<and> shares s = Map.empty"

lemma null_handles [simp]: "hvfs_remove_share E 0 s = Some (HVFS_OK, s)" "hvfs_host_close E 0 s = Some (HVFS_OK, s)"
  by (simp_all add: hvfs_remove_share_def hvfs_host_close_def)

interpretation abi: safe_machine abi_init "abi_step Es" abi_inv
proof
  show "abi_inv s" if "abi_init s" for s :: "('a, 'b) abi"
    using that by (simp add: abi_init_def abi_inv_def)
  show "abi_inv t" if "abi_inv s" "abi_step Es s t" for s t :: "('a, 'b) abi"
    using that(2)
  proof cases
    case (Open E bx spt ident js out r)
    then show ?thesis using open_inv [OF that(1)] by blast
  next
    case (Add E host ctx bx vt js out r)
    then show ?thesis using add_inv [OF that(1)] by blast
  next
    case (Remove E sp c)
    then show ?thesis using remove_inv [OF that(1)] that(1) by (cases "sp = 0") auto
  next
    case (Close E hp c)
    then show ?thesis using close_inv [OF that(1)] that(1) by (cases "hp = 0") auto
  next
    case World
    then show ?thesis by (intro abi_inv_frame [OF that(1)]) simp_all
  qed
qed

text \<open>
  C9. Handle safety. In every state a caller who keeps the contract can reach, each share that is
  live is in the list of a live host, and no entry point reaches a freed handle, support object or
  share when it is called on a null or live handle: opening, adding a share, reading its instance
  id, removing it and closing the host all return.
\<close>

theorem abi_handles_safe:
  assumes "reach abi_init (abi_step Es) s"
  shows "(\<forall>sp sh. shares s sp = Some sh \<longrightarrow> (\<exists>h. hosts s (sh_host sh) = Some h \<and> sp \<in> set (hh_shares h))) \<and>
    (supports s spt = None \<longrightarrow> hvfs_host_open E bx spt ident js out s \<noteq> None) \<and>
    (hp = 0 \<or> hosts s hp \<noteq> None \<longrightarrow>
       hvfs_host_close E hp s \<noteq> None \<and> (devices s ctx = None \<longrightarrow> hvfs_add_share E bx ctx vt hp js out s \<noteq> None)) \<and>
    (sp = 0 \<or> shares s sp \<noteq> None \<longrightarrow> hvfs_remove_share E sp s \<noteq> None \<and> hvfs_share_instance_id sp s \<noteq> None)"
proof (intro conjI impI)
  have inv: "abi_inv s" using assms by (rule abi.reach_inv)
  then show "\<forall>sp sh. shares s sp = Some sh \<longrightarrow> (\<exists>h. hosts s (sh_host sh) = Some h \<and> sp \<in> set (hh_shares h))"
    by (simp add: abi_inv_def)
  show "hvfs_host_open E bx spt ident js out s \<noteq> None" if "supports s spt = None"
    using host_open_outcome [OF that, of E bx ident js out] by auto
  assume hp: "hp = 0 \<or> hosts s hp \<noteq> None"
  show "hvfs_host_close E hp s \<noteq> None"
  proof (cases "hp = 0")
    case False
    then obtain h where "hosts s hp = Some h" using hp by auto
    then show ?thesis using host_close_effect [OF inv, of hp h E] by auto
  qed simp
  obtain h where h: "hp = 0 \<or> hosts s hp = Some h" using hp by auto
  show "hvfs_add_share E bx ctx vt hp js out s \<noteq> None" if "devices s ctx = None"
    using add_share_outcome [OF inv h that, of E bx vt js out] by auto
next
  have inv: "abi_inv s" using assms by (rule abi.reach_inv)
  assume sp: "sp = 0 \<or> shares s sp \<noteq> None"
  show "hvfs_remove_share E sp s \<noteq> None"
  proof (cases "sp = 0")
    case False
    then obtain sh where "shares s sp = Some sh" using sp by auto
    then show ?thesis using remove_outcome [OF inv, of sp sh E] by auto
  qed simp
  show "hvfs_share_instance_id sp s \<noteq> None" using sp by (auto simp: hvfs_share_instance_id_def)
qed

text \<open>A platform that accepts everything and logs the teardowns, for concrete runs.\<close>

definition demo_env :: "(nat list, u16 \<Rightarrow> u32, unit) abi_env" where
  "demo_env =
     \<lparr>e_hdv = not_windows\<lparr>HdvInitializeDeviceHostForProxy := (\<lambda>_ _ w. ((0, 5), w)),
        HdvTeardownDeviceHost := (\<lambda>_ w. (0, w @ [1])), HdvCreateDeviceInstance := (\<lambda>_ _ _ _ _ _ w. ((0, 9), w))\<rparr>,
      e_hcs = not_windows_hcs\<lparr>HcsCreateOperation := (\<lambda>w. (3, w)), HcsOpenComputeSystem := (\<lambda>_ _ w. ((0, 7), w)),
        HcsModifyComputeSystem := (\<lambda>_ _ _ w. (0, w)), HcsWaitForOperationResult := (\<lambda>_ _ w. ((0, 0), w)),
        HcsCloseComputeSystem := (\<lambda>_ w. ((), w @ [2]))\<rparr>,
      e_vapi = mem_vpci, e_fs = (\<lambda>_. Inr ()), e_transport = (\<lambda>_ _ _ _. Inr (\<lambda>_. 4)), e_workers = EnvUnset,
      e_parallelism = None, e_doorbell = EnvUnset, e_stats = False, e_req_stats = ReqStats_new False 0, e_now = 0,
      parse_host = (\<lambda>_. Inr 512),
      parse_share = (\<lambda>_. Inr \<lparr>cfg_tag = lit ''ws'', cfg_path = lit ''C:'',
        cfg_instance_id = guid_to_string HVFS_DEVICE_INSTANCE_ID, cfg_ro = False\<rparr>),
      json_runtime_id = (\<lambda>_. None), json_slot = (\<lambda>a b c d. a @ b @ c @ d)\<rparr>"

definition demo_init :: "(nat list, u16 \<Rightarrow> u32) abi" where
  "demo_init = \<lparr>last_error = None, hosts = Map.empty, shares = Map.empty, supports = Map.empty, devices = Map.empty,
     host_arcs = (\<lambda>_. 0), abi_proc = \<lparr>flags = (\<lambda>_. False), next_flag = 0, platform = []\<rparr>\<rparr>"

definition demo_open :: "(nat list, u16 \<Rightarrow> u32) abi" where
  "demo_open = snd (the (hvfs_host_open demo_env 16 32 (Some []) (Some []) True demo_init))"

lemma demo_open_fields:
  "hvfs_host_open demo_env 16 32 (Some []) (Some []) True demo_init = Some ((HVFS_OK, Some 16), demo_open)"
  "hosts demo_open = [16 \<mapsto> new_host \<lparr>host_handle = 5, host_alive = 0\<rparr> 32 7 512]" "shares demo_open = Map.empty"
  "devices demo_open = Map.empty" "platform (abi_proc demo_open) = []"
  by (simp_all add: demo_open_def demo_init_def demo_env_def hvfs_host_open_def cstr_def on_abi_def on_platform_eq
      not_windows_hcs_def DeviceHost_from_proxy_def DeviceHost_from_def DeviceHost_wrap_def checked_out_eq Let_def new_host_def
      failed_def)

lemma demo_open_reach: "reach abi_init (abi_step {demo_env}) demo_open"
proof (rule reach_step)
  show "reach abi_init (abi_step {demo_env}) demo_init" by (rule reach_init) (simp add: abi_init_def demo_init_def)
  show "abi_step {demo_env} demo_init demo_open"
    by (rule abi_step.Open [OF _ _ _ _ demo_open_fields(1)]) (simp_all add: demo_init_def)
qed

theorem abi_handles_safe_witness:
  "hvfs_host_close demo_env 16 demo_open \<noteq> None \<and> hvfs_host_close demo_env 16 demo_init = None"
  using abi_handles_safe [OF demo_open_reach, of 48 demo_env 64 None None True 16 0 0 0]
  by (auto simp: demo_open_fields hvfs_host_close_def demo_init_def)

text \<open>
  C27. The error contract of opening a host and adding a share. Both return for every argument; a
  negative status comes with a message in the last error, a nulled \<open>out\<close> and no change to the
  handles, shares, support objects and reference counts; the status is zero otherwise, with the
  handle in \<open>out\<close>. A new host has the next liveness flag, one reference and no shares; a new share
  is appended to the list of its host and holds one more reference.
\<close>

theorem abi_error_contract:
  assumes "reach abi_init (abi_step Es) s"
    and "supports s spt = None" and "host = 0 \<or> hosts s host \<noteq> None" and "devices s ctx = None"
  shows "(\<exists>c o' t. hvfs_host_open E bx spt ident js out s = Some ((c, o'), t) \<and>
      (sint c < 0 \<and> last_error t \<noteq> None \<and> same_handles s t \<and> o' = (if out then Some 0 else None) \<or>
       c = 0 \<and> o' = Some bx \<and> (\<exists>host sy mb. hosts t = (hosts s)(bx \<mapsto> new_host host spt sy mb) \<and> shares t = shares s \<and>
         host_alive host = next_flag (abi_proc s) \<and> host_arcs t = (host_arcs s)(host_alive host := 1)))) \<and>
    (\<exists>c o' t. hvfs_add_share E bx ctx vt host js out s = Some ((c, o'), t) \<and>
      (sint c < 0 \<and> last_error t \<noteq> None \<and> same_handles s t \<and> o' = (if out then Some 0 else None) \<or>
       c = 0 \<and> o' = Some bx \<and> host \<noteq> 0 \<and> (\<exists>u. same_handles s u \<and> registered host bx u t)))"
proof -
  have inv: "abi_inv s" using assms(1) by (rule abi.reach_inv)
  obtain h where h: "host = 0 \<or> hosts s host = Some h" using assms(3) by auto
  show ?thesis
    using host_open_outcome [OF assms(2), of E bx ident js out] add_share_outcome [OF inv h assms(4), of E bx vt js out]
    unfolding rejected_def HVFS_OK_def by blast
qed

theorem abi_error_contract_witness:
  "\<exists>c t. hvfs_add_share demo_env 48 64 0 0 None True demo_init = Some ((c, Some 0), t) \<and> last_error t \<noteq> None \<and> same_handles demo_init t"
proof -
  have "reach abi_init (abi_step {demo_env}) demo_init" by (rule reach_init) (simp add: abi_init_def demo_init_def)
  from abi_error_contract [OF this, of 32 0 64 demo_env 48 None None True 0]
  show ?thesis by (auto simp: demo_init_def)
qed

text \<open>
  C28. Removing a share. The platform's answer to the Remove request decides: on success and on
  ``not supported'' the share is freed, taken off the list of its host and its reference to the
  device host is given back (the host itself stays up, and so does the device's context on the HDV
  side); on any other error every handle stays as it was, so the call can be repeated. A failure
  leaves a message. Nothing but the platform call touches the platform.
\<close>

theorem remove_share_contract:
  assumes "reach abi_init (abi_step Es) s" and "shares s sp = Some sh"
  shows "\<exists>c t r p. hvfs_remove_share E sp s = Some (c, t) \<and> abi_proc t = p \<and>
    hcs_modify (e_hcs E) (sh_system sh) (slot_request E (lit ''Remove'') (sh_instance_id sh) (sh_emulator_id sh)) (abi_proc s) = (r, p) \<and>
    (case r of
       Inr _ \<Rightarrow> c = HVFS_OK \<and> deregistered sp sh s t
     | Inl e \<Rightarrow> last_error t \<noteq> None \<and>
         (if e = HRESULT_NOT_SUPPORTED then c = HVFS_ERR_UNSUPPORTED \<and> deregistered sp sh s t
          else c = HVFS_ERR_HDV \<and> same_handles s t \<and> devices t = devices s))"
proof -
  obtain r p where rp: "hcs_modify (e_hcs E) (sh_system sh) (slot_request E (lit ''Remove'') (sh_instance_id sh) (sh_emulator_id sh))
      (abi_proc s) = (r, p)" by (metis surj_pair)
  show ?thesis using remove_outcome [OF abi.reach_inv [OF assms(1)] assms(2), of E] unfolding rp fst_conv snd_conv by blast
qed

lemma demo_guid: "guid_from_string (guid_to_string HVFS_DEVICE_INSTANCE_ID) = Return (Some HVFS_DEVICE_INSTANCE_ID)"
proof -
  let ?g = "HVFS_DEVICE_INSTANCE_ID"
  have wf: "guid_wf ?g" by (simp add: guid_wf_def HVFS_DEVICE_INSTANCE_ID_def)
  have low: "map ascii_lower (guid_to_string ?g) = guid_to_string ?g"
    by (simp add: guid_to_string_def HVFS_DEVICE_INSTANCE_ID_def fmt_hex_def hex_digits.simps hex_char_def ascii_lower_def lit_def)
  show ?thesis
    using wf low guid_body_plain [OF guid_string_ends [OF wf low], of "[]" "[]"] by (auto intro: guid_from_body)
qed

lemma demo_attach:
  "\<exists>d ds p. attach_shared (e_hdv demo_env) mem_vpci (Inr ()) (\<lambda>_ _ _. Inr (\<lambda>_. 4)) EnvUnset None sm host cls inst 64 0 (Map.empty, q) =
     (Return (Inr d), ds, p)"
  by (simp add: attach_shared_def program_internal_bars_def cfg_write_def obind_def oreturn_def mem_vpci_def
      PciDevice_create_shared_def on_platform_eq demo_env_def not_windows_def Let_def failed_def)

lemma demo_modify: "hcs_modify (e_hcs demo_env) sy rq p = (Inr (), p)"
  by (simp add: hcs_modify_def on_platform_eq demo_env_def not_windows_hcs_def failed_def Let_def)

lemma demo_add_runs:
  "\<exists>t sh. hvfs_add_share demo_env 48 64 0 16 (Some []) True demo_open = Some ((HVFS_OK, Some 48), t) \<and> shares t 48 = Some sh"
proof -
  obtain k where k: "hosts demo_open 16 = Some (new_host k 32 7 512)" by (simp add: demo_open_fields)
  have cfg: "parse_share demo_env [] = Inr \<lparr>cfg_tag = lit ''ws'', cfg_path = lit ''C:'',
      cfg_instance_id = guid_to_string HVFS_DEVICE_INSTANCE_ID, cfg_ro = False\<rparr>" (is "_ = Inr ?cfg")
    by (simp add: demo_env_def)
  obtain rid u where u: "host_runtime_id demo_env 16 (new_host k 32 7 512) demo_open = (Return rid, u)"
    by (simp add: host_runtime_id_def new_host_def on_abi_def hcs_runtime_id_def on_platform_eq demo_env_def not_windows_hcs_def
        failed_def Let_def)
  have "devices u = Map.empty" using host_runtime_id_outcome [OF k u] by (simp add: demo_open_fields)
  moreover have "e_vapi demo_env = mem_vpci" "e_fs demo_env x = Inr ()" "e_transport demo_env y = (\<lambda>_ _ _. Inr (\<lambda>_. 4))"
    "e_workers demo_env = EnvUnset" "e_parallelism demo_env = None" for x y
    by (simp_all add: demo_env_def)
  moreover obtain d es p where "attach_shared (e_hdv demo_env) mem_vpci (Inr ()) (\<lambda>_ _ _. Inr (\<lambda>_. 4)) EnvUnset None
      (make_seams (e_doorbell demo_env) (e_stats demo_env) (e_now demo_env) (hh_memory (new_host k 32 7 512))
        (host_alive (hh_host (new_host k 32 7 512))) HVFS_DEVICE_INSTANCE_ID rid (e_req_stats demo_env) (abi_proc u))
      (hh_host (new_host k 32 7 512)) VIRTIO_FS_DEVICE_CLASS_ID HVFS_DEVICE_INSTANCE_ID 64 0 (Map.empty, abi_proc u) =
     (Return (Inr d), es, p)"
    using demo_attach by blast
  ultimately obtain v where
    v: "attach_share demo_env 64 0 (new_host k 32 7 512) ?cfg HVFS_DEVICE_INSTANCE_ID rid u = (Return (Inr d), v)"
    by (simp add: attach_share_def Let_def)
  show ?thesis using k cfg u v
    by (simp add: hvfs_add_share_def cstr_def demo_guid add_slot_def on_abi_def demo_modify Let_def)
qed

theorem remove_share_contract_witness:
  "\<exists>s c t. shares s 48 \<noteq> None \<and> hvfs_remove_share demo_env 48 s = Some (c, t) \<and> c = HVFS_OK \<and> shares t 48 = None"
proof -
  obtain s sh where s: "hvfs_add_share demo_env 48 64 0 16 (Some []) True demo_open = Some ((HVFS_OK, Some 48), s)"
    "shares s 48 = Some sh" using demo_add_runs by blast
  have "abi_step {demo_env} demo_open s"
  proof (rule abi_step.Add [OF _ _ _ _ _ s(1)])
    show "(16::ptr) = 0 \<or> hosts demo_open 16 \<noteq> None" by (simp add: demo_open_fields)
    show "devices demo_open 64 = None" "shares demo_open 48 = None"
      by (simp_all add: demo_open_fields)
  qed simp_all
  then have "reach abi_init (abi_step {demo_env}) s" using demo_open_reach by (rule reach_step [rotated])
  from remove_share_contract [OF this s(2), of demo_env] show ?thesis
    using s(2) by (auto simp: demo_modify deregistered_def)
qed



end
