(* ===== verification/Abi_Texts.thy ===== *)
theory Abi_Texts
  imports C_Abi
begin

text \<open>
  What the C ABI (\<open>hyperv_virtiofs/src/lib.rs\<close>) hands to a C caller is well-typed for C: a status is
  one of the codes of the header, a message and an id are strings without an interior NUL, and the
  ids kept with a share are the canonical texts of GUIDs that parse back to them.
\<close>

section \<open>Status codes\<close>

definition header_status :: "i32 \<Rightarrow> bool" where
  "header_status c \<longleftrightarrow>
     c \<in> {HVFS_OK, HVFS_ERR_INVALID_ARG, HVFS_ERR_NOT_IMPLEMENTED, HVFS_ERR_PANIC, HVFS_ERR_HDV, HVFS_ERR_UNSUPPORTED}"

lemma header_status_codes [simp]:
  "header_status HVFS_OK" "header_status HVFS_ERR_INVALID_ARG" "header_status HVFS_ERR_NOT_IMPLEMENTED"
  "header_status HVFS_ERR_PANIC" "header_status HVFS_ERR_HDV" "header_status HVFS_ERR_UNSUPPORTED"
  by (simp_all add: header_status_def)

lemma cstr_status: "cstr p what s = (Inl e, t) \<Longrightarrow> header_status e"
  by (auto simp: cstr_def split: option.splits)

lemma host_open_status: "hvfs_host_open E bx spt ident js out s = Some ((c, r), t) \<Longrightarrow> header_status c"
  by (auto simp: hvfs_host_open_def Let_def dest: cstr_status
      split: if_splits prod.splits sum.splits)

lemma add_share_status: "hvfs_add_share E bx ctx vt host js out s = Some ((c, r), t) \<Longrightarrow> header_status c"
  by (auto simp: hvfs_add_share_def add_slot_def guard_panic Let_def dest: cstr_status
      split: if_splits prod.splits sum.splits option.splits outcome.splits)

lemma remove_share_status: "hvfs_remove_share E sp s = Some (c, t) \<Longrightarrow> header_status c"
  by (auto simp: hvfs_remove_share_def fail_def Let_def split: if_splits prod.splits sum.splits option.splits)

lemma host_close_status: "hvfs_host_close E hp s = Some (c, t) \<Longrightarrow> header_status c"
  by (auto simp: hvfs_host_close_def split: if_splits option.splits)

section \<open>Texts\<close>

definition c_string :: "rust_str \<Rightarrow> bool" where
  "c_string t \<longleftrightarrow> 0 \<notin> set t"

definition guid_text :: "rust_str \<Rightarrow> bool" where
  "guid_text t \<longleftrightarrow> (\<exists>g. guid_wf g \<and> t = guid_to_string g)"

definition texts_ok :: "('w, 'v) abi \<Rightarrow> bool" where
  "texts_ok s \<longleftrightarrow> (\<forall>m. last_error s = Some m \<longrightarrow> c_string m) \<and>
     (\<forall>sp sh. shares s sp = Some sh \<longrightarrow> guid_text (sh_instance_id sh) \<and> guid_text (sh_emulator_id sh))"

lemma guid_to_string_hex: "guid_wf g \<Longrightarrow> c \<in> set (guid_to_string g) \<Longrightarrow> is_hex c \<or> c = 45"
  by (auto simp: guid_to_string_groups dest: hex_pad_is_hex)

lemma guid_text_c_string:
  assumes "guid_text t"
  shows "c_string t"
proof -
  obtain g where g: "guid_wf g" "t = guid_to_string g" using assms by (auto simp: guid_text_def)
  then have "is_hex c \<or> c = 45" if "c \<in> set t" for c using guid_to_string_hex that by simp
  then show ?thesis unfolding c_string_def is_hex_def by force
qed

lemma guid_from_string_wf: "guid_from_string x = Return (Some g) \<Longrightarrow> guid_wf g"
  by (erule guid_from_string_SomeD) (use data4_loop_length in \<open>force simp: guid_wf_def\<close>)

lemma lower_hex_pad: "map ascii_lower (hex_pad w n) = hex_pad w n"
proof -
  have "ascii_lower (hex_char d) = hex_char d" if "d < 16" for d using that by (auto simp: ascii_lower_def hex_char_def)
  then show ?thesis by (induction w arbitrary: n) simp_all
qed

lemma guid_text_parses:
  assumes "guid_wf g"
  shows "guid_from_string (guid_to_string g) = Return (Some g)"
proof -
  have lower: "map ascii_lower (guid_to_string g) = guid_to_string g"
    unfolding guid_to_string_groups [OF assms]
    by (simp add: map_concat comp_def lower_hex_pad ascii_lower_dash)
  have "guid_body ([] @ guid_to_string g @ []) = guid_to_string g"
    by (rule guid_body_plain [OF guid_string_ends [OF assms lower]]) simp_all
  then show ?thesis using guid_from_body [OF assms] lower by simp
qed

lemma texts_ok_error [simp]: "texts_ok s \<Longrightarrow> texts_ok (set_last_error m s)"
  by (simp add: texts_ok_def set_last_error_def c_string_def lit_def)

lemma texts_ok_frame [simp]:
  "texts_ok (s\<lparr>hosts := x\<rparr>) = texts_ok s" "texts_ok (s\<lparr>supports := b\<rparr>) = texts_ok s" "texts_ok (s\<lparr>devices := d\<rparr>) = texts_ok s"
  "texts_ok (s\<lparr>host_arcs := n\<rparr>) = texts_ok s" "texts_ok (s\<lparr>abi_proc := p\<rparr>) = texts_ok s"
  by (simp_all add: texts_ok_def)

lemma texts_ok_drop [simp]:
  "texts_ok (drop_host_arc E h s) = texts_ok s" "texts_ok (drop_device E d s) = texts_ok s"
  "texts_ok (OwnedSystem_drop E sy s) = texts_ok s"
  by (simp_all add: drop_host_arc_def drop_device_def OwnedSystem_drop_def on_abi_def Let_def split: prod.split)

lemma texts_ok_remove [simp]: "texts_ok s \<Longrightarrow> shares u = shares s \<Longrightarrow> texts_ok (s\<lparr>shares := (shares u)(p := None)\<rparr>)"
  by (auto simp: texts_ok_def split: if_splits)

lemma texts_ok_remove_hosts [simp]:
  "texts_ok (s\<lparr>hosts := h, shares := m\<rparr>) = texts_ok (s\<lparr>shares := m\<rparr>)"
  by (simp add: texts_ok_def)

lemma texts_ok_calls:
  "on_abi f s = (a, t) \<Longrightarrow> texts_ok s \<Longrightarrow> texts_ok t"
  "cstr p what s = (r, t) \<Longrightarrow> texts_ok s \<Longrightarrow> texts_ok t"
  "drop_support q s = Some t \<Longrightarrow> texts_ok s \<Longrightarrow> texts_ok t"
  "host_runtime_id E hp h s = (rid, t) \<Longrightarrow> texts_ok s \<Longrightarrow> texts_ok t"
  "attach_share E ctx vt h cfg inst ri s = (at, t) \<Longrightarrow> texts_ok s \<Longrightarrow> texts_ok t"
proof -
  show on: "on_abi f s = (a, t) \<Longrightarrow> texts_ok s \<Longrightarrow> texts_ok t" for f s a t
    by (auto simp: on_abi_def split: prod.splits)
  show "cstr p what s = (r, t) \<Longrightarrow> texts_ok s \<Longrightarrow> texts_ok t"
    by (auto simp: cstr_def split: option.splits)
  show "drop_support q s = Some t \<Longrightarrow> texts_ok s \<Longrightarrow> texts_ok t" by (auto simp: drop_support_def)
  show "host_runtime_id E hp h s = (rid, t) \<Longrightarrow> texts_ok s \<Longrightarrow> texts_ok t"
    by (auto simp: host_runtime_id_def split: if_splits prod.splits outcome.splits dest: on)
  show "attach_share E ctx vt h cfg inst ri s = (at, t) \<Longrightarrow> texts_ok s \<Longrightarrow> texts_ok t"
    by (auto simp: attach_share_def Let_def split: prod.splits outcome.splits sum.splits)
qed

section \<open>Every call keeps them\<close>

lemma open_texts:
  "hvfs_host_open E bx spt ident js out s = Some (r, t) \<Longrightarrow> texts_ok s \<Longrightarrow> texts_ok t"
  by (auto simp: hvfs_host_open_def Let_def dest!: texts_ok_calls split: if_splits prod.splits sum.splits)

lemma add_slot_texts:
  assumes "add_slot E bx host sy inst dev s = (r, t)" "guid_wf inst" "texts_ok s"
  shows "texts_ok t"
proof -
  have "guid_wf VIRTIO_FS_DEVICE_CLASS_ID" by (simp add: guid_wf_def VIRTIO_FS_DEVICE_CLASS_ID_def)
  then have "guid_text (guid_to_string inst)" "guid_text (guid_to_string VIRTIO_FS_DEVICE_CLASS_ID)"
    using assms(2) unfolding guid_text_def by blast+
  then have new: "texts_ok u \<Longrightarrow> texts_ok (u\<lparr>shares := (shares u)(bx \<mapsto> \<lparr>sh_device = dev, sh_system = sy, sh_host = host,
      sh_instance_id = guid_to_string inst, sh_emulator_id = guid_to_string VIRTIO_FS_DEVICE_CLASS_ID\<rparr>)\<rparr>)" for u
    by (simp add: texts_ok_def)
  show ?thesis using assms(1,3) by (auto simp: add_slot_def Let_def new dest: texts_ok_calls(1) split: prod.splits sum.splits)
qed

lemma add_texts:
  assumes "hvfs_add_share E bx ctx vt host js out s = Some (r, t)" "texts_ok s"
  shows "texts_ok t"
  using assms
  by (auto simp: hvfs_add_share_def guard_panic dest!: texts_ok_calls intro: add_slot_texts guid_from_string_wf
      split: if_splits prod.splits sum.splits option.splits outcome.splits)

lemma remove_texts: "hvfs_remove_share E sp s = Some (c, t) \<Longrightarrow> texts_ok s \<Longrightarrow> texts_ok t"
  by (auto simp: hvfs_remove_share_def fail_def Let_def dest!: texts_ok_calls(1)
      split: if_splits prod.splits sum.splits option.splits)

lemma close_shares_texts: "close_shares E ps s = Some t \<Longrightarrow> texts_ok s \<Longrightarrow> texts_ok t"
  by (induction ps arbitrary: s) (auto split: if_splits option.splits)

lemma close_texts: "hvfs_host_close E hp s = Some (c, t) \<Longrightarrow> texts_ok s \<Longrightarrow> texts_ok t"
  by (auto simp: hvfs_host_close_def dest!: close_shares_texts texts_ok_calls(3) split: if_splits option.splits)

section \<open>What a caller sees\<close>

text \<open>A thread that has not called yet has no last error.\<close>

definition abi_fresh :: "('w, 'v) abi \<Rightarrow> bool" where
  "abi_fresh s \<longleftrightarrow> abi_init s \<and> last_error s = None"

interpretation texts: safe_machine abi_fresh "abi_step Es" texts_ok
proof
  show "texts_ok s" if "abi_fresh s" for s :: "('a, 'b) abi"
    using that by (simp add: abi_fresh_def abi_init_def texts_ok_def)
  show "texts_ok t" if ok: "texts_ok s" and step: "abi_step Es s t" for s t :: "('a, 'b) abi"
    using step
  proof cases
    case Open
    then show ?thesis using open_texts ok by blast
  next
    case Add
    then show ?thesis using add_texts ok by blast
  next
    case Remove
    then show ?thesis using remove_texts ok by blast
  next
    case Close
    then show ?thesis using close_texts ok by blast
  qed (simp add: ok)
qed

text \<open>
  C29. The values that cross the ABI have the types the header gives them, in every state the calls
  of a thread can reach: the last error is a C string, whatever went into the message; the instance
  id of a share is a C string and the canonical text of a well-formed GUID, which parses back to that
  GUID; and the status of a call is one of the codes of the header.
\<close>

theorem abi_values_typed:
  assumes "reach abi_fresh (abi_step Es) s"
  shows "(\<forall>m. hvfs_last_error s = Some m \<longrightarrow> c_string m) \<and>
    (\<forall>sp x. hvfs_share_instance_id sp s = Some (Some x) \<longrightarrow>
       c_string x \<and> (\<exists>g. guid_wf g \<and> x = guid_to_string g \<and> guid_from_string x = Return (Some g))) \<and>
    (\<forall>E bx spt ident js out c o' t. hvfs_host_open E bx spt ident js out s = Some ((c, o'), t) \<longrightarrow> header_status c) \<and>
    (\<forall>E bx ctx vt hp js out c o' t. hvfs_add_share E bx ctx vt hp js out s = Some ((c, o'), t) \<longrightarrow> header_status c) \<and>
    (\<forall>E sp c t. hvfs_remove_share E sp s = Some (c, t) \<longrightarrow> header_status c) \<and>
    (\<forall>E hp c t. hvfs_host_close E hp s = Some (c, t) \<longrightarrow> header_status c)"
proof (intro conjI allI impI)
  have ok: "texts_ok s" using assms by (rule texts.reach_inv)
  show "c_string m" if "hvfs_last_error s = Some m" for m
    using ok that by (simp add: texts_ok_def hvfs_last_error_def)
  have id: "guid_text x" if "hvfs_share_instance_id sp s = Some (Some x)" for sp x
    using ok that by (auto simp: texts_ok_def hvfs_share_instance_id_def split: if_splits)
  show "c_string x" if "hvfs_share_instance_id sp s = Some (Some x)" for sp x
    by (rule guid_text_c_string [OF id [OF that]])
  show "\<exists>g. guid_wf g \<and> x = guid_to_string g \<and> guid_from_string x = Return (Some g)"
    if "hvfs_share_instance_id sp s = Some (Some x)" for sp x
    using id [OF that] guid_text_parses unfolding guid_text_def by blast
qed (erule host_open_status, erule add_share_status, erule remove_share_status, erule host_close_status)

theorem abi_values_typed_witness:
  "\<exists>s x. hvfs_add_share demo_env 48 64 0 16 (Some []) True demo_open = Some ((HVFS_OK, Some 48), s) \<and>
     hvfs_share_instance_id 48 s = Some (Some x) \<and> c_string x \<and> (\<exists>g. guid_from_string x = Return (Some g))"
proof -
  obtain s sh where s: "hvfs_add_share demo_env 48 64 0 16 (Some []) True demo_open = Some ((HVFS_OK, Some 48), s)"
    "shares s 48 = Some sh" using demo_add_runs by blast
  have "reach abi_fresh (abi_step {demo_env}) demo_init"
    by (rule reach_init) (simp add: abi_fresh_def abi_init_def demo_init_def)
  moreover have "abi_step {demo_env} demo_init demo_open"
    by (rule abi_step.Open [OF _ _ _ _ demo_open_fields(1)]) (simp_all add: demo_init_def)
  moreover have "abi_step {demo_env} demo_open s"
    by (rule abi_step.Add [OF _ _ _ _ _ s(1)]) (simp_all add: demo_open_fields)
  ultimately have "reach abi_fresh (abi_step {demo_env}) s" by (blast intro: reach_step)
  note typed = abi_values_typed [OF this]
  have "hvfs_share_instance_id 48 s = Some (Some (sh_instance_id sh))" using s(2) by (simp add: hvfs_share_instance_id_def)
  with typed [THEN conjunct2, THEN conjunct1, rule_format, OF this] s(1) show ?thesis by blast
qed

end
