(* ===== verification/Logging.thy ===== *)
theory Logging
  imports Rust_Str Hdv
begin

text \<open>
  The logging spine of the DLL, \<open>hyperv_virtiofs/src/logging.rs\<close>, and \<open>hvfs_set_logger\<close>: the sink the
  caller installs, the layer that renders every event and hands it to the C callback, and the
  subscriber that is installed once. The callback is code of the embedding program, the filter and
  the registry are \<open>tracing_subscriber\<close>'s: they are parameters. Shown: what the callback receives
  and how often, and when the subscriber is installed with which layers.
\<close>

section \<open>Events\<close>

datatype log_level = ERROR | WARN | INFO | DEBUG | TRACE

text \<open>The values are given with the text their \<open>Debug\<close> form writes.\<close>

record event =
  ev_level :: log_level
  ev_target :: rust_str
  ev_values :: "(rust_str \<times> rust_str) list"

fun syslog_level :: "log_level \<Rightarrow> i32" where
  "syslog_level ERROR = 3"
| "syslog_level WARN = 4"
| "syslog_level INFO = 6"
| "syslog_level DEBUG = 7"
| "syslog_level TRACE = 7"

record line_visitor =
  v_message :: rust_str
  v_fields :: rust_str

definition LineVisitor_default :: line_visitor where
  "LineVisitor_default = \<lparr>v_message = [], v_fields = []\<rparr>"

definition record_debug :: "rust_str \<times> rust_str \<Rightarrow> line_visitor \<Rightarrow> line_visitor" where
  "record_debug fv v =
     (case fv of (name, text) \<Rightarrow>
        if name = lit ''message'' then v\<lparr>v_message := v_message v @ text\<rparr>
        else v\<lparr>v_fields := v_fields v @ lit '' '' @ name @ lit ''='' @ text\<rparr>)"

section \<open>The sink and the subscriber\<close>

record sink =
  sink_cb :: "ptr option"
  sink_ctx :: ptr

datatype log_layer = CallbackLayer | StderrLayer

record ('f, 'w) logger =
  log_sink :: "sink option"
  sink_poisoned :: bool
  init_once :: bool
  subscriber :: "('f \<times> log_layer list) option"
  log_world :: 'w

definition set_sink :: "ptr option \<Rightarrow> ptr \<Rightarrow> ('f, 'w) logger \<Rightarrow> ('f, 'w) logger" where
  "set_sink cb ctx s = (if sink_poisoned s then s else s\<lparr>log_sink := Some \<lparr>sink_cb = cb, sink_ctx = ctx\<rparr>\<rparr>)"

text \<open>
  The call of the C function at an address, with the level, the line and the context. The layer
  catches its panic and drops the result.
\<close>

type_synonym 'w log_call = "ptr \<Rightarrow> i32 \<Rightarrow> rust_str \<Rightarrow> ptr \<Rightarrow> 'w \<Rightarrow> unit outcome \<times> 'w"

definition on_event :: "'w log_call \<Rightarrow> event \<Rightarrow> ('f, 'w) logger \<Rightarrow> ('f, 'w) logger" where
  "on_event call e s =
     (if sink_poisoned s then s
      else case log_sink s of
        None \<Rightarrow> s
      | Some k \<Rightarrow>
          (case sink_cb k of
             None \<Rightarrow> s
           | Some cb \<Rightarrow>
               (let level = syslog_level (ev_level e);
                    v = fold record_debug (ev_values e) LineVisitor_default;
                    line = ev_target e @ lit '': '' @ v_message v @ v_fields v
                in if 0 \<in> set line then s
                   else case call cb level line (sink_ctx k) (log_world s) of
                     (_, w) \<Rightarrow> s\<lparr>log_world := w\<rparr>)))"

definition dev_env_set :: "(string \<Rightarrow> bool) \<Rightarrow> bool" where
  "dev_env_set env_set =
     list_ex env_set [''VIRTIO_HDV_TRACE'', ''VIRTIO_HDV_APERTURE_STATS'', ''VIRTIO_HDV_REQ_STATS'', ''RUST_LOG'']"

text \<open>\<open>EnvFilter\<close>: from the environment, from a string, and with one more directive, if it parses.\<close>

record 'f filter_api =
  try_from_default_env :: "'f option"
  EnvFilter_new :: "string \<Rightarrow> 'f"
  parse_directive :: "string \<Rightarrow> ('f \<Rightarrow> 'f) option"

definition extra_directives :: "(string \<Rightarrow> bool) \<Rightarrow> string list" where
  "extra_directives env_set =
     (if env_set ''VIRTIO_HDV_TRACE'' then [''virtio_hdv=trace'', ''hyperv_virtiofs=trace'']
      else if env_set ''VIRTIO_HDV_APERTURE_STATS'' \<or> env_set ''VIRTIO_HDV_REQ_STATS'' then [''virtio_hdv=debug'']
      else [])"

definition build_filter :: "'f filter_api \<Rightarrow> (string \<Rightarrow> bool) \<Rightarrow> 'f" where
  "build_filter api env_set =
     fold (\<lambda>d filter. case parse_directive api d of Some add \<Rightarrow> add filter | None \<Rightarrow> filter)
       (extra_directives env_set)
       (case try_from_default_env api of Some f \<Rightarrow> f | None \<Rightarrow> EnvFilter_new api ''info'')"

text \<open>\<open>owned\<close> says that the host process has a global subscriber of its own: \<open>try_init\<close> then does nothing.\<close>

definition log_init :: "'f filter_api \<Rightarrow> (string \<Rightarrow> bool) \<Rightarrow> bool \<Rightarrow> ('f, 'w) logger \<Rightarrow> ('f, 'w) logger" where
  "log_init api env_set owned s =
     (if init_once s then s
      else let stderr_layer = (if dev_env_set env_set then [StderrLayer] else []);
               s = s\<lparr>init_once := True\<rparr>
           in if owned then s
              else s\<lparr>subscriber := Some (build_filter api env_set, CallbackLayer # stderr_layer)\<rparr>)"

definition hvfs_set_logger ::
  "'f filter_api \<Rightarrow> (string \<Rightarrow> bool) \<Rightarrow> bool \<Rightarrow> ptr option \<Rightarrow> ptr \<Rightarrow> ('f, 'w) logger \<Rightarrow> ('f, 'w) logger" where
  "hvfs_set_logger api env_set owned cb ctx s = log_init api env_set owned (set_sink cb ctx s)"

text \<open>An event reaches the layer when our subscriber is the global one and its filter lets it pass.\<close>

definition dispatch_event :: "('f \<Rightarrow> event \<Rightarrow> bool) \<Rightarrow> 'w log_call \<Rightarrow> event \<Rightarrow> ('f, 'w) logger \<Rightarrow> ('f, 'w) logger" where
  "dispatch_event enabled call e s =
     (case subscriber s of
        None \<Rightarrow> s
      | Some (f, layers) \<Rightarrow> if enabled f e \<and> CallbackLayer \<in> set layers then on_event call e s else s)"

section \<open>What the callback receives\<close>

datatype log_action = SetLogger "ptr option" ptr | EntryPoint | Emit event

definition log_act ::
  "'f filter_api \<Rightarrow> (string \<Rightarrow> bool) \<Rightarrow> bool \<Rightarrow> ('f \<Rightarrow> event \<Rightarrow> bool) \<Rightarrow> 'w log_call \<Rightarrow> log_action \<Rightarrow> ('f, 'w) logger \<Rightarrow> ('f, 'w) logger"
  where
  "log_act api env_set owned enabled call a s =
     (case a of
        SetLogger cb ctx \<Rightarrow> hvfs_set_logger api env_set owned cb ctx s
      | EntryPoint \<Rightarrow> log_init api env_set owned s
      | Emit e \<Rightarrow> dispatch_event enabled call e s)"

definition logger_start :: "'w \<Rightarrow> ('f, 'w) logger" where
  "logger_start w = \<lparr>log_sink = None, sink_poisoned = False, init_once = False, subscriber = None, log_world = w\<rparr>"

text \<open>The line of an event, and the calls a sequence of actions leads to, without the machinery.\<close>

definition line_text :: "event \<Rightarrow> rust_str" where
  "line_text e =
     ev_target e @ lit '': '' @ concat (map snd (filter (\<lambda>(n, _). n = lit ''message'') (ev_values e))) @
     concat (map (\<lambda>(n, t). lit '' '' @ n @ lit ''='' @ t) (filter (\<lambda>(n, _). n \<noteq> lit ''message'') (ev_values e)))"

fun deliveries ::
  "(event \<Rightarrow> bool) \<Rightarrow> bool \<Rightarrow> (ptr option \<times> ptr) option \<Rightarrow> log_action list \<Rightarrow> (ptr \<times> i32 \<times> rust_str \<times> ptr) list"
  where
  "deliveries passes live k [] = []"
| "deliveries passes live k (SetLogger cb ctx # as) = deliveries passes True (Some (cb, ctx)) as"
| "deliveries passes live k (EntryPoint # as) = deliveries passes True k as"
| "deliveries passes live k (Emit e # as) =
     (case k of
        Some (Some cb, ctx) \<Rightarrow>
          if live \<and> passes e \<and> 0 \<notin> set (line_text e) then [(cb, syslog_level (ev_level e), line_text e, ctx)] else []
      | _ \<Rightarrow> []) @ deliveries passes live k as"

definition call_all :: "'w log_call \<Rightarrow> (ptr \<times> i32 \<times> rust_str \<times> ptr) list \<Rightarrow> 'w \<Rightarrow> 'w" where
  "call_all call ds w = fold (\<lambda>(cb, level, line, ctx) w. snd (call cb level line ctx w)) ds w"

lemma line_visitor_renders:
  "v_message (fold record_debug vs v) = v_message v @ concat (map snd (filter (\<lambda>(n, _). n = lit ''message'') vs))"
  "v_fields (fold record_debug vs v) =
     v_fields v @ concat (map (\<lambda>(n, t). lit '' '' @ n @ lit ''='' @ t) (filter (\<lambda>(n, _). n \<noteq> lit ''message'') vs))"
  by (induction vs arbitrary: v) (auto simp: record_debug_def)

lemma on_event_eq:
  assumes "\<not> sink_poisoned s"
  shows "on_event call e s =
    (case map_option (\<lambda>k. (sink_cb k, sink_ctx k)) (log_sink s) of
       Some (Some cb, ctx) \<Rightarrow>
         if 0 \<in> set (line_text e) then s
         else s\<lparr>log_world := snd (call cb (syslog_level (ev_level e)) (line_text e) ctx (log_world s))\<rparr>
     | _ \<Rightarrow> s)"
  using assms
  by (auto simp: on_event_def line_visitor_renders line_text_def LineVisitor_default_def Let_def case_prod_beta
      split: option.splits)

lemma logger_run:
  fixes s :: "('f, 'w) logger"
  assumes "\<not> sink_poisoned s"
    and "subscriber s = (if init_once s \<and> \<not> owned then Some (build_filter api env_set, CallbackLayer # (if dev_env_set env_set then [StderrLayer] else [])) else None)"
  shows "log_world (fold (log_act api env_set owned enabled call) as s) =
    (if owned then log_world s
     else call_all call (deliveries (enabled (build_filter api env_set)) (init_once s)
       (map_option (\<lambda>k. (sink_cb k, sink_ctx k)) (log_sink s)) as) (log_world s))"
  using assms
proof (induction "as" arbitrary: s)
  case (Cons a "as")
  show ?case
  proof (cases a)
    case (SetLogger cb ctx)
    show ?thesis using Cons
      by (simp add: SetLogger log_act_def hvfs_set_logger_def set_sink_def log_init_def Let_def)
  next
    case EntryPoint
    show ?thesis using Cons by (simp add: EntryPoint log_act_def log_init_def Let_def)
  next
    case (Emit e)
    show ?thesis
      using Cons
      by (auto simp: Emit log_act_def dispatch_event_def on_event_eq call_all_def split: option.splits)
  qed
qed (simp add: call_all_def)


end
