(* ===== verification/Test_Vm.thy ===== *)
theory Test_Vm
  imports C_Abi "HOL-Library.Sublist"
begin

text \<open>
  The harness \<open>hcs-testvm/src/lib.rs\<close>: the driverless spike device, the document of a throwaway
  compute system, and a VM with its console pipe from creation to drop. The compute service is the
  record of \<open>Hcs\<close>, the pipe functions of the Win32 API are one more record; \<open>serde_json\<close>'s printer is
  an argument. Shown: the spike device's registers and its details describe the same device; the
  document holds every declared slot under its key; a VM gives back what it acquired, and what a
  creation that fails does not give back; the console is what the guest wrote, and waiting for it ends.
\<close>

section \<open>Artifacts and configuration\<close>

definition PIPE_ACCESS_DUPLEX :: u32 where
  "PIPE_ACCESS_DUPLEX = 3"

text \<open>\<open>Path::join\<close> with a relative component, on Windows.\<close>

definition path_join :: "rust_str \<Rightarrow> rust_str \<Rightarrow> rust_str" where
  "path_join a b = (if a = [] \<or> last a \<in> {92, 47} then a @ b else a @ [92] @ b)"

definition artifact_paths :: "rust_str \<Rightarrow> env_var \<Rightarrow> env_var \<Rightarrow> rust_str \<times> rust_str" where
  "artifact_paths manifest_dir kernel_env initrd_env =
     (let out = foldl path_join manifest_dir [lit ''..'', lit ''..'', lit ''test'', lit ''guest'', lit ''out'']
      in (case kernel_env of EnvStr s \<Rightarrow> s | _ \<Rightarrow> path_join out (lit ''vmlinuz''),
          case initrd_env of EnvStr s \<Rightarrow> s | _ \<Rightarrow> path_join out (lit ''initramfs.cpio.gz'')))"

record flexible_iov_slot =
  instance_guid :: rust_str
  emulator_id :: rust_str
  hosting_model :: rust_str

definition FlexibleIovSlot_new :: "rust_str \<Rightarrow> rust_str \<Rightarrow> flexible_iov_slot" where
  "FlexibleIovSlot_new g e = \<lparr>instance_guid = g, emulator_id = e, hosting_model = lit ''ExternalRestricted''\<rparr>"

record rocky_config =
  kernel_path :: rust_str
  initrd_path :: rust_str
  kernel_cmdline :: rust_str
  memory_mb :: u32
  processor_count :: u32
  flexible_iovs :: "flexible_iov_slot list"

definition RockyConfig_new :: "rust_str \<Rightarrow> rust_str \<Rightarrow> rocky_config" where
  "RockyConfig_new krn ird =
     \<lparr>kernel_path = krn, initrd_path = ird, kernel_cmdline = lit ''console=ttyS0'', memory_mb = 4096,
      processor_count = 2, flexible_iovs = []\<rparr>"

definition with_flexible_iov :: "flexible_iov_slot \<Rightarrow> rocky_config \<Rightarrow> rocky_config" where
  "with_flexible_iov slot cfg = cfg\<lparr>flexible_iovs := flexible_iovs cfg @ [slot]\<rparr>"

section \<open>The spike device\<close>

definition SPIKE_VENDOR :: u16 where
  "SPIKE_VENDOR = 0x1af4"

definition SPIKE_DEVICE :: u16 where
  "SPIKE_DEVICE = 0x1100"

definition spike_details :: pci_details where
  "spike_details =
     \<lparr>vendor_id = SPIKE_VENDOR, device_id = SPIKE_DEVICE, revision_id = 1, prog_if = 0, sub_class = 0,
      base_class = 0xff, sub_vendor_id = SPIKE_VENDOR, sub_system_id = 0x40, probed_bars = replicate 6 0\<rparr>"

definition spike_read_config :: "u32 \<Rightarrow> u32" where
  "spike_read_config offset =
     (if offset = 0x00 then push_bit 16 (ucast SPIKE_DEVICE) OR ucast SPIKE_VENDOR
      else if offset = 0x08 then 0xff000001
      else if offset = 0x2c then push_bit 16 0x40 OR ucast SPIKE_VENDOR
      else 0)"

definition spike_ops :: "unit pci_ops" where
  "spike_ops =
     \<lparr>op_details = (\<lambda>d. (Return spike_details, d)),
      op_read_config = (\<lambda>offset d. (Return (spike_read_config offset), d)),
      op_write_config = (\<lambda>_ _ d. (Return (), d)),
      op_read_bar = default_read_bar, op_write_bar = default_write_bar,
      op_set_configuration = default_set_configuration, op_start = default_start, op_stop = default_stop\<rparr>"

section \<open>The document\<close>

text \<open>A JSON value; the printer decides on the order in which it writes the members of an object.\<close>

datatype json = JStr rust_str | JInt int | JBool bool | JObj "(rust_str \<times> json) list"

fun json_set :: "rust_str \<Rightarrow> json \<Rightarrow> json \<Rightarrow> json" where
  "json_set k v (JObj m) = JObj (AList.update k v m)"
| "json_set k v j = j"

fun json_get :: "json \<Rightarrow> rust_str \<Rightarrow> json option" where
  "json_get (JObj m) k = map_of m k"
| "json_get j k = None"

definition slot_settings :: "flexible_iov_slot \<Rightarrow> json" where
  "slot_settings slot = JObj [(lit ''EmulatorId'', JStr (emulator_id slot)), (lit ''HostingModel'', JStr (hosting_model slot))]"

definition slot_map :: "flexible_iov_slot list \<Rightarrow> (rust_str \<times> json) list" where
  "slot_map slots = fold (\<lambda>slot m. AList.update (instance_guid slot) (slot_settings slot) m) slots []"

definition build_document :: "rocky_config \<Rightarrow> rust_str \<Rightarrow> json" where
  "build_document cfg console_pipe =
     (let devices = JObj [(lit ''ComPorts'', JObj [(lit ''0'', JObj [(lit ''NamedPipe'', JStr console_pipe)])])];
          devices = (if flexible_iovs cfg \<noteq> []
                     then json_set (lit ''FlexibleIov'') (JObj (slot_map (flexible_iovs cfg))) devices else devices)
      in JObj
           [(lit ''Owner'', JStr (lit ''hyperv-virtiofs-test'')),
            (lit ''SchemaVersion'', JObj [(lit ''Major'', JInt 2), (lit ''Minor'', JInt 7)]),
            (lit ''ShouldTerminateOnLastHandleClosed'', JBool True),
            (lit ''VirtualMachine'', JObj
               [(lit ''Chipset'', JObj
                   [(lit ''LinuxKernelDirect'', JObj
                       [(lit ''KernelFilePath'', JStr (kernel_path cfg)), (lit ''InitRdPath'', JStr (initrd_path cfg)),
                        (lit ''KernelCmdLine'', JStr (kernel_cmdline cfg))])]),
                (lit ''ComputeTopology'', JObj
                   [(lit ''Memory'', JObj [(lit ''SizeInMB'', JInt (uint (memory_mb cfg)))]),
                    (lit ''Processor'', JObj [(lit ''Count'', JInt (uint (processor_count cfg)))])]),
                (lit ''Devices'', devices)])])"

section \<open>Text\<close>

text \<open>\<open>String::from_utf8_lossy\<close>: the longest prefix that could start a character becomes one U+FFFD.\<close>

definition utf8_second3 :: "nat \<Rightarrow> nat \<Rightarrow> bool" where
  "utf8_second3 a b \<longleftrightarrow>
     (if a = 0xE0 then 0xA0 \<le> b \<and> b \<le> 0xBF else if a = 0xED then 0x80 \<le> b \<and> b \<le> 0x9F else cont_byte b)"

definition utf8_second4 :: "nat \<Rightarrow> nat \<Rightarrow> bool" where
  "utf8_second4 a b \<longleftrightarrow>
     (if a = 0xF0 then 0x90 \<le> b \<and> b \<le> 0xBF else if a = 0xF4 then 0x80 \<le> b \<and> b \<le> 0x8F else cont_byte b)"

fun from_utf8_lossy :: "nat list \<Rightarrow> rust_str" where
  "from_utf8_lossy [] = []"
| "from_utf8_lossy (a # bs) =
     (if a < 0x80 then a # from_utf8_lossy bs
      else if 0xC2 \<le> a \<and> a \<le> 0xDF then
        (case bs of
           [] \<Rightarrow> [0xFFFD]
         | b # cs \<Rightarrow> if cont_byte b then ((a - 0xC0) * 64 + (b - 0x80)) # from_utf8_lossy cs
                     else 0xFFFD # from_utf8_lossy bs)
      else if 0xE0 \<le> a \<and> a \<le> 0xEF then
        (case bs of
           [] \<Rightarrow> [0xFFFD]
         | b # cs \<Rightarrow>
             if utf8_second3 a b
             then (case cs of
                     [] \<Rightarrow> [0xFFFD]
                   | c # ds \<Rightarrow>
                       if cont_byte c then ((a - 0xE0) * 4096 + (b - 0x80) * 64 + (c - 0x80)) # from_utf8_lossy ds
                       else 0xFFFD # from_utf8_lossy cs)
             else 0xFFFD # from_utf8_lossy bs)
      else if 0xF0 \<le> a \<and> a \<le> 0xF4 then
        (case bs of
           [] \<Rightarrow> [0xFFFD]
         | b # cs \<Rightarrow>
             if utf8_second4 a b
             then (case cs of
                     [] \<Rightarrow> [0xFFFD]
                   | c # ds \<Rightarrow>
                       if cont_byte c
                       then (case ds of
                               [] \<Rightarrow> [0xFFFD]
                             | d # es \<Rightarrow>
                                 if cont_byte d
                                 then ((a - 0xF0) * 262144 + (b - 0x80) * 4096 + (c - 0x80) * 64 + (d - 0x80)) # from_utf8_lossy es
                                 else 0xFFFD # from_utf8_lossy ds)
                       else 0xFFFD # from_utf8_lossy cs)
             else 0xFFFD # from_utf8_lossy bs)
      else 0xFFFD # from_utf8_lossy bs)"

text \<open>An integer as \<open>{}\<close> prints it.\<close>

fun dec :: "nat \<Rightarrow> rust_str" where
  "dec n = (if n < 10 then [48 + n] else dec (n div 10) @ [48 + n mod 10])"

declare dec.simps [simp del]

fun str_contains :: "rust_str \<Rightarrow> rust_str \<Rightarrow> bool" where
  "str_contains [] n \<longleftrightarrow> n = []"
| "str_contains (c # s) n \<longleftrightarrow> take (length n) (c # s) = n \<or> str_contains s n"

lemma str_contains_Nil [simp]: "str_contains s []"
  by (cases s) simp_all

lemma str_contains_iff: "str_contains s n \<longleftrightarrow> (\<exists>a b. s = a @ n @ b)"
proof (induction s)
  case (Cons c s)
  have "take (length n) (c # s) = n \<longleftrightarrow> (\<exists>b. c # s = n @ b)"
    by (metis append_eq_conv_conj append_take_drop_id)
  then show ?case using Cons by (auto simp: Cons_eq_append_conv)
qed auto

text \<open>
  An ASCII text is in the decoded console exactly when its bytes are in the raw one: what the
  replacement of ill-formed sequences and the decoding of others yield is never an ASCII character.
\<close>

definition ascii :: "rust_str \<Rightarrow> bool" where
  "ascii n \<longleftrightarrow> (\<forall>c \<in> set n. c < 128)"

lemma contains_skip [simp]:
  "128 \<le> x \<Longrightarrow> ascii n \<Longrightarrow> n \<noteq> [] \<Longrightarrow> str_contains (x # s) n \<longleftrightarrow> str_contains s n"
  by (cases n) (auto simp: ascii_def)

lemma lossy_head: "128 \<le> a \<Longrightarrow> \<exists>ch t. from_utf8_lossy (a # bs) = ch # t \<and> 128 \<le> ch"
  by (auto simp: utf8_second3_def utf8_second4_def split: list.splits)

lemma lossy_prefix:
  "ascii n \<Longrightarrow> take (length n) (from_utf8_lossy bs) = n \<longleftrightarrow> take (length n) bs = n"
proof (induction n arbitrary: bs)
  case (Cons c n)
  show ?case
  proof (cases bs)
    case (Cons a bs')
    show ?thesis
    proof (cases "a < 128")
      case True
      then show ?thesis using Cons.IH [of bs'] Cons.prems Cons by (simp add: ascii_def)
    next
      case False
      then obtain ch t where "from_utf8_lossy (a # bs') = ch # t" "128 \<le> ch" using lossy_head [of a bs'] by auto
      then show ?thesis using False Cons.prems Cons by (auto simp: ascii_def simp del: from_utf8_lossy.simps)
    qed
  qed simp
qed simp

lemma second_high [simp]: "utf8_second3 a b \<Longrightarrow> 128 \<le> b" "utf8_second4 a b \<Longrightarrow> 128 \<le> b" "cont_byte b \<Longrightarrow> 128 \<le> b"
  by (auto simp: utf8_second3_def utf8_second4_def cont_byte_def split: if_splits)

lemma char_high2: "0xC2 \<le> a \<Longrightarrow> 128 \<le> (a - 0xC0) * 64 + (y::nat)"
  by linarith

lemma char_high3: "0xE0 \<le> a \<Longrightarrow> utf8_second3 a b \<Longrightarrow> 128 \<le> (a - 0xE0) * 4096 + (b - 0x80) * 64 + (y::nat)"
  by (cases "a = 0xE0") (simp_all add: utf8_second3_def, linarith+)

lemma char_high4: "0xF0 \<le> a \<Longrightarrow> utf8_second4 a b \<Longrightarrow> 128 \<le> (a - 0xF0) * 262144 + (b - 0x80) * 4096 + y' + (y::nat)"
  by (cases "a = 0xF0") (simp_all add: utf8_second4_def, linarith+)

definition lossy_tail :: "nat list \<Rightarrow> rust_str \<Rightarrow> bool" where
  "lossy_tail bs r \<longleftrightarrow> (\<exists>ch k. r = ch # from_utf8_lossy (drop k bs) \<and> 128 \<le> ch \<and> (\<forall>x \<in> set (take k bs). 128 \<le> x))"

lemma lossy_tailI:
  "128 \<le> ch \<Longrightarrow> lossy_tail bs (ch # from_utf8_lossy bs)"
  "128 \<le> ch \<Longrightarrow> 128 \<le> b \<Longrightarrow> lossy_tail (b # bs) (ch # from_utf8_lossy bs)"
  "128 \<le> ch \<Longrightarrow> 128 \<le> b \<Longrightarrow> 128 \<le> c \<Longrightarrow> lossy_tail (b # c # bs) (ch # from_utf8_lossy bs)"
  "128 \<le> ch \<Longrightarrow> 128 \<le> b \<Longrightarrow> 128 \<le> c \<Longrightarrow> 128 \<le> d \<Longrightarrow> lossy_tail (b # c # d # bs) (ch # from_utf8_lossy bs)"
  unfolding lossy_tail_def
  by (rule exI [of _ ch], rule exI [of _ 0], simp, rule exI [of _ ch], rule exI [of _ 1], simp,
      rule exI [of _ ch], rule exI [of _ 2], simp, rule exI [of _ ch], rule exI [of _ 3], simp add: numeral_3_eq_3)

lemma lossy_tail_end: "\<forall>x \<in> set bs. 128 \<le> x \<Longrightarrow> 128 \<le> ch \<Longrightarrow> lossy_tail bs [ch]"
  unfolding lossy_tail_def by (rule exI [of _ ch], rule exI [of _ "length bs"]) simp

lemmas lossy_step_intros = lossy_tailI lossy_tail_end char_high2 char_high3 char_high4

lemma lossy_step:
  assumes "128 \<le> a"
  shows "lossy_tail bs (from_utf8_lossy (a # bs))"
  unfolding from_utf8_lossy.simps(2) [of a bs] using assms
  by (simp add: lossy_step_intros del: from_utf8_lossy.simps(2) Nat.add_diff_assoc Nat.add_diff_assoc2 split: list.split)

lemma contains_drop:
  assumes "ascii n" "n \<noteq> []"
  shows "\<forall>x \<in> set (take k bs). 128 \<le> x \<Longrightarrow> str_contains (drop k bs) n \<longleftrightarrow> str_contains bs n"
  
proof (induction k arbitrary: bs)
  case (Suc k)
  then show ?case using assms by (cases bs) (simp_all del: str_contains.simps)
qed simp

lemma lossy_contains:
  assumes "ascii n" "n \<noteq> []"
  shows "str_contains (from_utf8_lossy bs) n \<longleftrightarrow> str_contains bs n"
proof (induction bs rule: length_induct)
  case (1 bs)
  show ?case
  proof (cases bs)
    case (Cons a cs)
    show ?thesis
    proof (cases "a < 128")
      case True
      then show ?thesis using 1 Cons lossy_prefix [OF assms(1), of bs] by simp
    next
      case False
      then have "lossy_tail cs (from_utf8_lossy bs)" using lossy_step [of a cs] Cons by simp
      then obtain ch k where k: "from_utf8_lossy bs = ch # from_utf8_lossy (drop k cs)" "128 \<le> ch" "\<forall>x \<in> set (take k cs). 128 \<le> x"
        unfolding lossy_tail_def by blast
      have "str_contains (from_utf8_lossy (drop k cs)) n \<longleftrightarrow> str_contains (drop k cs) n" using 1 Cons by simp
      then show ?thesis using k contains_drop [OF assms k(3)] False Cons assms
        by (simp del: str_contains.simps from_utf8_lossy.simps)
    qed
  qed simp
qed
section \<open>The VM\<close>

record 'w pipe_api =
  CreateNamedPipeW :: "nat list \<Rightarrow> u32 \<Rightarrow> 'w \<Rightarrow> HANDLE \<times> 'w"
  ConnectNamedPipe :: "HANDLE \<Rightarrow> 'w \<Rightarrow> (bool \<times> u32) \<times> 'w"
  ReadFile :: "HANDLE \<Rightarrow> nat \<Rightarrow> 'w \<Rightarrow> (bool \<times> u8 list) \<times> 'w"
  CloseHandle :: "HANDLE \<Rightarrow> 'w \<Rightarrow> unit \<times> 'w"

definition INVALID_HANDLE_VALUE :: HANDLE where
  "INVALID_HANDLE_VALUE = - 1"

definition ERROR_PIPE_CONNECTED :: u32 where
  "ERROR_PIPE_CONNECTED = 535"

record rocky_vm =
  vm_id :: rust_str
  vm_system :: HCS_SYSTEM
  vm_reader :: "HANDLE option"
  vm_pipe :: HANDLE

text \<open>
  \<open>COUNTER\<close>, the reader threads by the pipe each drains with the console it fills, and the platform.
  A console outlives its VM while the thread holds it.
\<close>

record 'w harness =
  hn_counter :: u32
  hn_readers :: "(HANDLE \<times> u8 list) list"
  hn_proc :: "'w process"

definition on_hn :: "('w \<Rightarrow> 'a \<times> 'w) \<Rightarrow> 'w harness \<Rightarrow> 'a \<times> 'w harness" where
  "on_hn f s = (case on_platform f (hn_proc s) of (a, p) \<Rightarrow> (a, s\<lparr>hn_proc := p\<rparr>))"

definition pwstr_to_string :: "'w hcs_api \<Rightarrow> ptr \<Rightarrow> 'w \<Rightarrow> rust_str" where
  "pwstr_to_string hcs p w = (if p = 0 then [] else from_utf16_lossy (doc_at hcs p w))"

definition run_op ::
  "'w hcs_api \<Rightarrow> ptr \<Rightarrow> rust_str \<Rightarrow> u32 \<Rightarrow> 'w harness \<Rightarrow> (rust_str + rust_str) \<times> 'w harness" where
  "run_op hcs op what timeout_ms s =
     (case on_hn (HcsWaitForOperationResult hcs op timeout_ms) s of
        ((code, result), s) \<Rightarrow>
          (let doc = pwstr_to_string hcs result (platform (hn_proc s))
           in (if \<not> failed code then Inr doc else Inl (what @ lit '' failed: '' @ hresult_text code @ lit ''; '' @ doc), s)))"

definition spawn_console ::
  "'w pipe_api \<Rightarrow> rust_str \<Rightarrow> 'w harness \<Rightarrow> (rust_str + HANDLE) \<times> 'w harness" where
  "spawn_console pa pipe_name s =
     (case on_hn (CreateNamedPipeW pa (wide pipe_name) PIPE_ACCESS_DUPLEX) s of
        (handle, s) \<Rightarrow>
          if handle = INVALID_HANDLE_VALUE
          then (Inl (lit ''CreateNamedPipeW('' @ pipe_name @ lit '') failed''), s)
          else (Inr handle, s\<lparr>hn_readers := hn_readers s @ [(handle, [])]\<rparr>))"

definition null_operation :: rust_str where
  "null_operation = lit ''HcsCreateOperation returned null''"

definition RockyVm_create ::
  "'w hcs_api \<Rightarrow> 'w pipe_api \<Rightarrow> (json \<Rightarrow> rust_str) \<Rightarrow> nat \<Rightarrow> rocky_config \<Rightarrow> 'w harness \<Rightarrow>
     (rust_str + rocky_vm) \<times> 'w harness" where
  "RockyVm_create hcs pa to_str pid cfg s =
     (let vid = lit ''hvfs-test-'' @ dec pid @ lit ''-'' @ dec (unat (hn_counter s));
          s = s\<lparr>hn_counter := hn_counter s + 1\<rparr>;
          pipe_name = [92, 92, 46, 92] @ lit ''pipe'' @ [92] @ vid @ lit ''-com1''
      in case spawn_console pa pipe_name s of
           (Inl e, s) \<Rightarrow> (Inl e, s)
         | (Inr pipe, s) \<Rightarrow>
             (let document = to_str (build_document cfg pipe_name)
              in case on_hn (HcsCreateOperation hcs) s of
                   (op, s) \<Rightarrow>
                     if op = 0 then (Inl null_operation, s)
                     else case on_hn (HcsCreateComputeSystem hcs (wide vid) (wide document) op) s of
                       ((code, system), s) \<Rightarrow>
                         if failed code
                         then (case run_op hcs op (lit ''create'') 30000 s of
                                 (_, s) \<Rightarrow> (Inl (lit ''HcsCreateComputeSystem: '' @ hresult_text code),
                                            snd (on_hn (HcsCloseOperation hcs op) s)))
                         else (case run_op hcs op (lit ''create'') 60000 s of
                                 (outcome_of_create, s) \<Rightarrow>
                                   (let s = snd (on_hn (HcsCloseOperation hcs op) s)
                                    in case outcome_of_create of
                                         Inl e \<Rightarrow> (Inl e, s)
                                       | Inr _ \<Rightarrow>
                                           (Inr \<lparr>vm_id = vid, vm_system = system, vm_reader = Some pipe, vm_pipe = pipe\<rparr>, s)))))"

definition RockyVm_start :: "'w hcs_api \<Rightarrow> rocky_vm \<Rightarrow> 'w harness \<Rightarrow> (rust_str + unit) \<times> 'w harness" where
  "RockyVm_start hcs vm s =
     (case on_hn (HcsCreateOperation hcs) s of
        (op, s) \<Rightarrow>
          if op = 0 then (Inl null_operation, s)
          else case on_hn (HcsStartComputeSystem hcs (vm_system vm) op) s of
            (code, s) \<Rightarrow>
              if failed code
              then (Inl (lit ''HcsStartComputeSystem: '' @ hresult_text code), snd (on_hn (HcsCloseOperation hcs op) s))
              else (case run_op hcs op (lit ''start'') 60000 s of
                      (started, s) \<Rightarrow> (map_sum id (\<lambda>_. ()) started, snd (on_hn (HcsCloseOperation hcs op) s))))"

definition RockyVm_modify ::
  "'w hcs_api \<Rightarrow> rust_str \<Rightarrow> rocky_vm \<Rightarrow> 'w harness \<Rightarrow> (rust_str + unit) \<times> 'w harness" where
  "RockyVm_modify hcs configuration vm s =
     (case on_hn (HcsCreateOperation hcs) s of
        (op, s) \<Rightarrow>
          if op = 0 then (Inl null_operation, s)
          else case on_hn (HcsModifyComputeSystem hcs (vm_system vm) op (wide configuration)) s of
            (code, s) \<Rightarrow>
              (case run_op hcs op (lit ''modify'') 30000 s of
                 (finished, s) \<Rightarrow>
                   (let s = snd (on_hn (HcsCloseOperation hcs op) s)
                    in if failed code then (Inl (lit ''HcsModifyComputeSystem: '' @ hresult_text code), s)
                       else (map_sum id (\<lambda>_. ()) finished, s))))"

text \<open>The join waits for the thread of the VM's pipe, which is gone afterwards.\<close>

definition RockyVm_drop :: "'w hcs_api \<Rightarrow> 'w pipe_api \<Rightarrow> rocky_vm \<Rightarrow> 'w harness \<Rightarrow> 'w harness" where
  "RockyVm_drop hcs pa vm s =
     (case on_hn (HcsCreateOperation hcs) s of
        (op, s) \<Rightarrow>
          (let s = (if op \<noteq> 0
                    then (let s = snd (on_hn (HcsTerminateComputeSystem hcs (vm_system vm) op) s);
                              s = snd (run_op hcs op (lit ''terminate'') 30000 s)
                          in snd (on_hn (HcsCloseOperation hcs op) s))
                    else s);
               s = snd (on_hn (HcsCloseComputeSystem hcs (vm_system vm)) s);
               s = (if vm_pipe vm \<noteq> INVALID_HANDLE_VALUE then snd (on_hn (CloseHandle pa (vm_pipe vm)) s) else s)
           in case vm_reader vm of
                None \<Rightarrow> s
              | Some h \<Rightarrow> s\<lparr>hn_readers := filter (\<lambda>(k, _). k \<noteq> h) (hn_readers s)\<rparr>))"

definition RockyVm_boot ::
  "'w hcs_api \<Rightarrow> 'w pipe_api \<Rightarrow> (json \<Rightarrow> rust_str) \<Rightarrow> nat \<Rightarrow> rocky_config \<Rightarrow> 'w harness \<Rightarrow>
     (rust_str + rocky_vm) \<times> 'w harness" where
  "RockyVm_boot hcs pa to_str pid cfg s =
     (case RockyVm_create hcs pa to_str pid cfg s of
        (Inl e, s) \<Rightarrow> (Inl e, s)
      | (Inr vm, s) \<Rightarrow>
          (case RockyVm_start hcs vm s of
             (Inl e, s) \<Rightarrow> (Inl e, RockyVm_drop hcs pa vm s)
           | (Inr _, s) \<Rightarrow> (Inr vm, s)))"

section \<open>What a VM holds\<close>

text \<open>
  What the platform has handed out and not got back: each call is documented to acquire or to release
  at most one of these. A platform that keeps such books satisfies \<open>vm_ledger\<close>.
\<close>

datatype resource = ROperation ptr | RSystem HCS_SYSTEM | RPipe HANDLE

definition vm_ledger :: "'w hcs_api \<Rightarrow> 'w pipe_api \<Rightarrow> ('w \<Rightarrow> resource multiset) \<Rightarrow> bool" where
  "vm_ledger hcs pa out \<longleftrightarrow>
     (\<forall>w. out (snd (HcsCreateOperation hcs w)) =
        (if fst (HcsCreateOperation hcs w) = 0 then out w else add_mset (ROperation (fst (HcsCreateOperation hcs w))) (out w))) \<and>
     (\<forall>op w. out (snd (HcsCloseOperation hcs op w)) = out w - {#ROperation op#}) \<and>
     (\<forall>op t w. out (snd (HcsWaitForOperationResult hcs op t w)) = out w) \<and>
     (\<forall>i d op w. out (snd (HcsCreateComputeSystem hcs i d op w)) =
        (if failed (fst (fst (HcsCreateComputeSystem hcs i d op w))) then out w
         else add_mset (RSystem (snd (fst (HcsCreateComputeSystem hcs i d op w)))) (out w))) \<and>
     (\<forall>sys op w. out (snd (HcsStartComputeSystem hcs sys op w)) = out w) \<and>
     (\<forall>sys op c w. out (snd (HcsModifyComputeSystem hcs sys op c w)) = out w) \<and>
     (\<forall>sys op w. out (snd (HcsTerminateComputeSystem hcs sys op w)) = out w) \<and>
     (\<forall>sys w. out (snd (HcsCloseComputeSystem hcs sys w)) = out w - {#RSystem sys#}) \<and>
     (\<forall>n m w. out (snd (CreateNamedPipeW pa n m w)) =
        (if fst (CreateNamedPipeW pa n m w) = INVALID_HANDLE_VALUE then out w
         else add_mset (RPipe (fst (CreateNamedPipeW pa n m w))) (out w)) \<and>
        (fst (CreateNamedPipeW pa n m w) \<noteq> INVALID_HANDLE_VALUE \<longrightarrow> RPipe (fst (CreateNamedPipeW pa n m w)) \<notin># out w)) \<and>
     (\<forall>h w. out (snd (CloseHandle pa h w)) = out w - {#RPipe h#})"

definition outstanding :: "('w \<Rightarrow> resource multiset) \<Rightarrow> 'w harness \<Rightarrow> resource multiset" where
  "outstanding out s = out (platform (hn_proc s))"

lemma on_hn_eq: "on_hn f s = (fst (f (platform (hn_proc s))), s\<lparr>hn_proc := (hn_proc s)\<lparr>platform := snd (f (platform (hn_proc s)))\<rparr>\<rparr>)"
  by (simp add: on_hn_def on_platform_eq)

lemma on_hn_frame: "on_hn f s = (a, s') \<Longrightarrow> hn_readers s' = hn_readers s"
  by (auto simp: on_hn_eq)

lemma outstanding_frame [simp]:
  "outstanding out (hn_readers_update g s) = outstanding out s" "outstanding out (hn_counter_update k s) = outstanding out s"
  by (simp_all add: outstanding_def)

text \<open>The books after each call, in the form in which a proof meets it.\<close>

lemma ledger_calls:
  assumes "vm_ledger hcs pa out"
  shows "on_hn (HcsCreateOperation hcs) s = (op, s') \<Longrightarrow>
      outstanding out s' = (if op = 0 then outstanding out s else add_mset (ROperation op) (outstanding out s))"
    "on_hn (HcsCloseOperation hcs op) s = (u, s') \<Longrightarrow> outstanding out s' = outstanding out s - {#ROperation op#}"
    "on_hn (HcsWaitForOperationResult hcs op t) s = (r, s') \<Longrightarrow> outstanding out s' = outstanding out s"
    "on_hn (HcsCreateComputeSystem hcs i d op) s = ((code, sys), s') \<Longrightarrow>
      outstanding out s' = (if failed code then outstanding out s else add_mset (RSystem sys) (outstanding out s))"
    "on_hn (HcsStartComputeSystem hcs sys op) s = (c, s') \<Longrightarrow> outstanding out s' = outstanding out s"
    "on_hn (HcsModifyComputeSystem hcs sys op doc) s = (c, s') \<Longrightarrow> outstanding out s' = outstanding out s"
    "on_hn (HcsTerminateComputeSystem hcs sys op) s = (c, s') \<Longrightarrow> outstanding out s' = outstanding out s"
    "on_hn (HcsCloseComputeSystem hcs sys) s = (u, s') \<Longrightarrow> outstanding out s' = outstanding out s - {#RSystem sys#}"
    "on_hn (CreateNamedPipeW pa n m) s = (h, s') \<Longrightarrow>
      outstanding out s' = (if h = INVALID_HANDLE_VALUE then outstanding out s else add_mset (RPipe h) (outstanding out s))"
    "on_hn (CloseHandle pa h) s = (u, s') \<Longrightarrow> outstanding out s' = outstanding out s - {#RPipe h#}"
    "on_hn (CreateNamedPipeW pa n m) s = (h, s') \<Longrightarrow> h \<noteq> INVALID_HANDLE_VALUE \<Longrightarrow> RPipe h \<notin># outstanding out s"
  using assms unfolding vm_ledger_def outstanding_def on_hn_eq by auto

lemma run_op_frame:
  assumes "run_op hcs op what t s = (r, s')"
  shows "hn_readers s' = hn_readers s" "vm_ledger hcs pa out \<Longrightarrow> outstanding out s' = outstanding out s"
proof -
  obtain c d s1 where "on_hn (HcsWaitForOperationResult hcs op t) s = ((c, d), s1)" by (metis surj_pair)
  then show "hn_readers s' = hn_readers s" "vm_ledger hcs pa out \<Longrightarrow> outstanding out s' = outstanding out s"
    using assms on_hn_frame ledger_calls(3) by (fastforce simp: run_op_def Let_def)+
qed

text \<open>An operation that is started, run and closed leaves the books as they were.\<close>

lemma start_keeps:
  assumes "vm_ledger hcs pa out" "RockyVm_start hcs vm s = (r, s')"
  shows "outstanding out s' = outstanding out s \<and> hn_readers s' = hn_readers s"
  using assms(2) unfolding RockyVm_start_def
  by (auto simp: on_hn_frame run_op_frame(1) run_op_frame(2) [OF _ assms(1)] ledger_calls [OF assms(1)] snd_def split: prod.splits if_splits)

lemma modify_keeps:
  assumes "vm_ledger hcs pa out" "RockyVm_modify hcs c vm s = (r, s')"
  shows "outstanding out s' = outstanding out s \<and> hn_readers s' = hn_readers s"
  using assms(2) unfolding RockyVm_modify_def Let_def
  by (auto simp: on_hn_frame run_op_frame(1) run_op_frame(2) [OF _ assms(1)] ledger_calls [OF assms(1)] snd_def split: prod.splits if_splits)


definition abandoned :: "('w \<Rightarrow> resource multiset) \<Rightarrow> 'w harness \<Rightarrow> 'w harness \<Rightarrow> bool" where
  "abandoned out s s' \<longleftrightarrow>
     outstanding out s' = outstanding out s \<and> hn_readers s' = hn_readers s \<or>
     (\<exists>h. hn_readers s' = hn_readers s @ [(h, [])] \<and>
        (outstanding out s' = add_mset (RPipe h) (outstanding out s) \<or>
         (\<exists>sys. outstanding out s' = add_mset (RSystem sys) (add_mset (RPipe h) (outstanding out s)))))"

lemma spawn_books:
  assumes "vm_ledger hcs pa out" "spawn_console pa n s = (r, s')"
  shows "case r of Inl _ \<Rightarrow> outstanding out s' = outstanding out s \<and> hn_readers s' = hn_readers s
    | Inr h \<Rightarrow> h \<noteq> INVALID_HANDLE_VALUE \<and> RPipe h \<notin># outstanding out s \<and>
        outstanding out s' = add_mset (RPipe h) (outstanding out s) \<and> hn_readers s' = hn_readers s @ [(h, [])]"
  using assms(2) ledger_calls(9,11) [OF assms(1), of "wide n" PIPE_ACCESS_DUPLEX s] unfolding spawn_console_def
  by (auto simp: on_hn_frame split: prod.splits if_splits)

lemma create_books:
  assumes L: "vm_ledger hcs pa out" and "RockyVm_create hcs pa to_str pid cfg s = (r, s')"
  shows "case r of Inl _ \<Rightarrow> abandoned out s s'
    | Inr vm \<Rightarrow> vm_reader vm = Some (vm_pipe vm) \<and> vm_pipe vm \<noteq> INVALID_HANDLE_VALUE \<and> RPipe (vm_pipe vm) \<notin># outstanding out s \<and>
        outstanding out s' = add_mset (RSystem (vm_system vm)) (add_mset (RPipe (vm_pipe vm)) (outstanding out s)) \<and>
        hn_readers s' = hn_readers s @ [(vm_pipe vm, [])]"
proof -
  define vid where "vid = lit ''hvfs-test-'' @ dec pid @ lit ''-'' @ dec (unat (hn_counter s))"
  let ?name = "[92, 92, 46, 92] @ lit ''pipe'' @ [92] @ vid @ lit ''-com1''"
  obtain q s1 where c: "spawn_console pa ?name (s\<lparr>hn_counter := hn_counter s + 1\<rparr>) = (q, s1)" by fastforce
  note sp = spawn_books [OF L c]
  show ?thesis
  proof (cases q)
    case (Inl e)
    then show ?thesis using assms(2) c sp by (auto simp: RockyVm_create_def Let_def vid_def abandoned_def)
  next
    case (Inr h)
    then show ?thesis using assms(2) c sp unfolding RockyVm_create_def Let_def vid_def [symmetric]
      by (auto simp: abandoned_def on_hn_frame run_op_frame(1) run_op_frame(2) [OF _ L] ledger_calls [OF L] snd_def
          split: prod.splits if_splits sum.splits)
  qed
qed

lemma drop_books:
  assumes L: "vm_ledger hcs pa out" and "vm_pipe vm \<noteq> INVALID_HANDLE_VALUE" "vm_reader vm = Some (vm_pipe vm)"
  shows "outstanding out (RockyVm_drop hcs pa vm s) = outstanding out s - {#RSystem (vm_system vm)#} - {#RPipe (vm_pipe vm)#} \<and>
    hn_readers (RockyVm_drop hcs pa vm s) = filter (\<lambda>(k, _). k \<noteq> vm_pipe vm) (hn_readers s)"
proof -
  note C = prod.collapse [symmetric]
  note call = on_hn_frame [OF C] run_op_frame(1) [OF C] run_op_frame(2) [OF C L] ledger_calls(2,5-8,10) [OF L C]
  obtain op s1 where c: "on_hn (HcsCreateOperation hcs) s = (op, s1)" by fastforce
  show ?thesis using c assms(2,3) on_hn_frame [OF c] ledger_calls(1) [OF L c] unfolding RockyVm_drop_def Let_def
    by (simp add: call split: if_split)
qed

text \<open>
  The life of a VM between its creation and its drop: starts, modifications, and bytes that its reader
  thread collects.
\<close>

datatype vm_call = Start_call | Modify_call rust_str | Arrived "u8 list"

definition vm_do :: "'w hcs_api \<Rightarrow> rocky_vm \<Rightarrow> vm_call \<Rightarrow> 'w harness \<Rightarrow> 'w harness" where
  "vm_do hcs vm c s =
     (case c of
        Start_call \<Rightarrow> snd (RockyVm_start hcs vm s)
      | Modify_call doc \<Rightarrow> snd (RockyVm_modify hcs doc vm s)
      | Arrived bytes \<Rightarrow> s\<lparr>hn_readers := map (\<lambda>(k, con). (k, if k = vm_pipe vm then con @ bytes else con)) (hn_readers s)\<rparr>)"

lemma session_keeps:
  assumes "vm_ledger hcs pa out"
  shows "outstanding out (fold (vm_do hcs vm) calls s) = outstanding out s \<and>
    map fst (hn_readers (fold (vm_do hcs vm) calls s)) = map fst (hn_readers s)"
proof (induction calls arbitrary: s)
  case (Cons c calls)
  note C = prod.collapse [symmetric]
  have "outstanding out (vm_do hcs vm c s) = outstanding out s \<and> map fst (hn_readers (vm_do hcs vm c s)) = map fst (hn_readers s)"
    using start_keeps [OF assms C] modify_keeps [OF assms C]
    by (cases c) (simp_all add: vm_do_def comp_def case_prod_beta)
  then show ?case using Cons.IH [of "vm_do hcs vm c s"] by simp
qed simp


text \<open>
  A platform whose memory is its books. It fails the start, and on demand the creation that it has
  accepted.
\<close>

definition book_hcs :: "HRESULT \<Rightarrow> resource multiset hcs_api" where
  "book_hcs created_code = not_windows_hcs\<lparr>HcsCreateOperation := (\<lambda>w. (1, add_mset (ROperation 1) w)),
     HcsCloseOperation := (\<lambda>op w. ((), w - {#ROperation op#})),
     HcsWaitForOperationResult := (\<lambda>_ _ w. ((created_code, 0), w)),
     HcsCreateComputeSystem := (\<lambda>_ _ _ w. ((S_OK, 5), add_mset (RSystem 5) w)),
     HcsCloseComputeSystem := (\<lambda>sys w. ((), w - {#RSystem sys#}))\<rparr>"

definition book_pipes :: "resource multiset pipe_api" where
  "book_pipes = \<lparr>CreateNamedPipeW = (\<lambda>_ _ w. if RPipe 7 \<in># w then (INVALID_HANDLE_VALUE, w) else (7, add_mset (RPipe 7) w)),
     ConnectNamedPipe = (\<lambda>_ w. ((True, 0), w)), ReadFile = (\<lambda>_ _ w. ((False, []), w)),
     CloseHandle = (\<lambda>h w. ((), w - {#RPipe h#}))\<rparr>"

definition book_state :: "resource multiset harness" where
  "book_state = \<lparr>hn_counter = 0, hn_readers = [], hn_proc = \<lparr>flags = (\<lambda>_. True), next_flag = 0, platform = {#}\<rparr>\<rparr>"

lemma book_ledger: "vm_ledger (book_hcs c) book_pipes id"
  by (simp add: vm_ledger_def book_hcs_def book_pipes_def not_windows_hcs_def INVALID_HANDLE_VALUE_def S_OK_def failed_def)

lemmas book_eval = RockyVm_create_def spawn_console_def run_op_def book_hcs_def book_pipes_def book_state_def not_windows_hcs_def
  on_hn_eq on_platform_eq INVALID_HANDLE_VALUE_def failed_def S_OK_def E_NOTIMPL_def E_FAIL_def outstanding_def Let_def


section \<open>The console\<close>

text \<open>
  The reader thread, as far as its calls have returned: the result of the connect, then one result
  per read. The flag says that the thread has ended.
\<close>

fun read_loop :: "(bool \<times> u8 list) list \<Rightarrow> u8 list \<Rightarrow> u8 list \<times> bool" where
  "read_loop [] c = (c, False)"
| "read_loop ((ok, bytes) # rs) c = (if \<not> ok \<or> bytes = [] then (c, True) else read_loop rs (c @ bytes))"

definition reader_thread :: "bool \<times> u32 \<Rightarrow> (bool \<times> u8 list) list \<Rightarrow> u8 list \<times> bool" where
  "reader_thread connect reads =
     (case connect of (connected, err) \<Rightarrow>
        if \<not> connected \<and> err \<noteq> ERROR_PIPE_CONNECTED then ([], True) else read_loop reads [])"

definition console_text :: "u8 list \<Rightarrow> rust_str" where
  "console_text c = from_utf8_lossy (map unat c)"

text \<open>
  \<open>con t\<close> is the console at time \<open>t\<close> in milliseconds, \<open>late t\<close> by how much the sleep that begins then
  lasts longer than asked for.
\<close>

function wait_loop :: "(nat \<Rightarrow> u8 list) \<Rightarrow> (nat \<Rightarrow> nat) \<Rightarrow> rust_str \<Rightarrow> nat \<Rightarrow> nat \<Rightarrow> bool" where
  "wait_loop con late needle deadline now =
     (if now < deadline
      then str_contains (console_text (con now)) needle \<or> wait_loop con late needle deadline (now + 200 + late now)
      else False)"
  by pat_completeness auto
termination by (relation "measure (\<lambda>(_, _, _, deadline, now). deadline - now)") auto

declare wait_loop.simps [simp del]

definition wait_for_console :: "(nat \<Rightarrow> u8 list) \<Rightarrow> (nat \<Rightarrow> nat) \<Rightarrow> rust_str \<Rightarrow> nat \<Rightarrow> nat \<Rightarrow> bool" where
  "wait_for_console con late needle timeout now = wait_loop con late needle (now + timeout) now"

lemma read_loop_collects:
  "read_loop rs c = (c @ concat (map snd (takeWhile (\<lambda>(ok, b). ok \<and> b \<noteq> []) rs)), \<exists>(ok, b) \<in> set rs. \<not> ok \<or> b = [])"
  by (induction rs c rule: read_loop.induct) (simp_all, blast+)

fun poll_time :: "(nat \<Rightarrow> nat) \<Rightarrow> nat \<Rightarrow> nat \<Rightarrow> nat" where
  "poll_time late now 0 = now"
| "poll_time late now (Suc k) = poll_time late (now + 200 + late now) k"

lemma poll_time_Suc: "poll_time late now (Suc k) = poll_time late now k + 200 + late (poll_time late now k)"
  by (induction k arbitrary: now) (simp_all only: poll_time.simps)

lemma poll_time_mono: "j \<le> k \<Longrightarrow> poll_time late now j \<le> poll_time late now k"
  by (rule lift_Suc_mono_le [of "poll_time late now"]) (simp_all add: poll_time_Suc del: poll_time.simps)

lemma poll_time_ge: "now + 200 * k \<le> poll_time late now k"
  by (induction k) (simp_all add: poll_time_Suc del: poll_time.simps(2))

lemma wait_loop_iff:
  "wait_loop con late needle deadline now \<longleftrightarrow>
     (\<exists>k. poll_time late now k < deadline \<and> str_contains (console_text (con (poll_time late now k))) needle)"
proof (induction con late needle deadline now rule: wait_loop.induct)
  case (1 con late needle deadline now)
  show ?case
  proof (cases "now < deadline")
    case False
    moreover have "now \<le> poll_time late now k" for k using poll_time_ge [of now k late] by simp
    ultimately show ?thesis by (auto simp: wait_loop.simps [of con] dest: le_less_trans)
  next
    case True
    let ?P = "\<lambda>k. poll_time late now k < deadline \<and> str_contains (console_text (con (poll_time late now k))) needle"
    have "wait_loop con late needle deadline (now + 200 + late now) \<longleftrightarrow> (\<exists>k. ?P (Suc k))" using 1 True by simp
    moreover have "(\<exists>k. ?P k) \<longleftrightarrow> ?P 0 \<or> (\<exists>k. ?P (Suc k))" by (metis not0_implies_Suc)
    ultimately show ?thesis using True by (simp add: wait_loop.simps [of con])
  qed
qed

lemma console_contains:
  "ascii n \<Longrightarrow> n \<noteq> [] \<Longrightarrow> str_contains (console_text c) n \<longleftrightarrow> (\<exists>a b. map unat c = a @ n @ b)"
  unfolding console_text_def by (simp only: lossy_contains not_False_eq_True simp_thms) (rule str_contains_iff)

lemma console_grows:
  assumes "ascii n" "prefix c d" "str_contains (console_text c) n"
  shows "str_contains (console_text d) n"
proof (cases "n = []")
  case False
  obtain e where "d = c @ e" using assms(2) by (rule prefixE)
  moreover obtain a b where "map unat c = a @ n @ b" using assms(1,3) False console_contains by blast
  ultimately have "map unat d = a @ n @ (b @ map unat e)" by simp
  then show ?thesis using assms(1) False console_contains by blast
qed simp

text \<open>
  Waiting for the console. The wait ends for every clock, after at most one poll per 200 ms. It
  succeeds exactly when one of its polls before the deadline finds the text. When the console only
  grows, the text is ASCII and every sleep lasts less than \<open>m\<close> ms longer than asked for, it succeeds
  whenever the bytes of the text have arrived \<open>200 + m\<close> ms before the deadline.
\<close>

lemma console_wait:
  assumes "\<And>t u. t \<le> u \<Longrightarrow> prefix (con t) (con u)" and "ascii needle" and "\<And>t. late t < m"
  shows "(wait_for_console con late needle timeout now \<longleftrightarrow>
      (\<exists>k \<le> timeout div 200. poll_time late now k < now + timeout \<and>
         str_contains (console_text (con (poll_time late now k))) needle)) \<and>
    (\<forall>t. now \<le> t \<longrightarrow> t + 200 + m \<le> now + timeout \<longrightarrow> (\<exists>a b. map unat (con t) = a @ needle @ b) \<longrightarrow>
       wait_for_console con late needle timeout now)"
proof (intro conjI allI impI)
  have k: "k \<le> timeout div 200" if "poll_time late now k < now + timeout" for k
  proof -
    have "200 * k < timeout" using poll_time_ge [of now k late] that by linarith
    then show ?thesis by (simp add: less_eq_div_iff_mult_less_eq)
  qed
  then show "wait_for_console con late needle timeout now \<longleftrightarrow>
      (\<exists>k \<le> timeout div 200. poll_time late now k < now + timeout \<and>
         str_contains (console_text (con (poll_time late now k))) needle)"
    unfolding wait_for_console_def wait_loop_iff by blast
  fix t
  assume t: "now \<le> t" "t + 200 + m \<le> now + timeout" "\<exists>a b. map unat (con t) = a @ needle @ b"
  then have here: "str_contains (console_text (con t)) needle"
    using assms(2) console_contains [of needle "con t"] by (cases "needle = []") simp_all
  define k where "k = (LEAST k. t \<le> poll_time late now k)"
  have ex: "t \<le> poll_time late now t" using poll_time_ge [of now t late] by simp
  then have le: "t \<le> poll_time late now k" unfolding k_def by (rule LeastI)
  have "poll_time late now k < now + timeout"
  proof (cases k)
    case 0
    then show ?thesis using t assms(3) [of 0] by simp
  next
    case (Suc j)
    then have "poll_time late now j < t" using not_less_Least [of j "\<lambda>k. t \<le> poll_time late now k"] by (simp add: k_def)
    then show ?thesis using Suc t(2) assms(3) [of "poll_time late now j"] by (simp add: poll_time_Suc del: poll_time.simps)
  qed
  then show "wait_for_console con late needle timeout now"
    unfolding wait_for_console_def wait_loop_iff using console_grows [OF assms(2) assms(1) [OF le] here] by blast
qed

lemma console_wait_example:
  "wait_for_console (\<lambda>t. if t < 500 then [] else [226, 104, 105]) (\<lambda>_. 3) (lit ''hi'') 1000 40"
proof -
  let ?con = "\<lambda>t::nat. if t < 500 then [] else [226, 104, 105] :: u8 list"
  have "\<exists>a b. map unat (?con 600) = a @ lit ''hi'' @ b"
    by (rule exI [of _ "[226]"], rule exI [of _ "[]"]) (simp add: lit_def)
  moreover have "prefix (?con t) (?con u)" if "t \<le> u" for t u using that by simp
  moreover have "ascii (lit ''hi'')" by (simp add: ascii_def lit_def)
  ultimately show ?thesis using console_wait [of ?con "lit ''hi''" "\<lambda>_. 3" 4 1000 40, THEN conjunct2, THEN spec [of _ 600]] by simp
qed

section \<open>The spike device and its slot\<close>

text \<open>
  The registers the spike device answers with are those from which its details would be read, and it
  has no BARs: whether the platform synthesises its header from \<open>details\<close> or routes the reads, the
  guest sees the same device.
\<close>

lemma spike_header_coherent:
  "details_of (spike_read_config 0x00) (spike_read_config 0x08) (spike_read_config 0x2c)
     (map (\<lambda>i. spike_read_config (0x10 + 4 * of_nat i)) [0..<6]) = spike_details"
proof -
  have "replicate 6 (0 :: u32) = [0, 0, 0, 0, 0, 0]" by (simp add: numeral_eq_Suc)
  then show ?thesis
    by (simp add: details_of_def spike_read_config_def spike_details_def SPIKE_DEVICE_def SPIKE_VENDOR_def upt_rec)
qed

text \<open>
  Every declared slot is in the document under its GUID; of two slots with the same GUID the later one is.
\<close>

lemma slot_map_lookup:
  "map_of (slot_map slots) g = map_option slot_settings (find (\<lambda>slot. instance_guid slot = g) (rev slots))"
proof (induction slots rule: rev_induct)
  case (snoc slot slots)
  then show ?case by (simp add: slot_map_def update_conv)
qed (simp add: slot_map_def)

lemma document_slots:
  "(case json_get (build_document cfg pipe) (lit ''VirtualMachine'') of
      None \<Rightarrow> None
    | Some vm \<Rightarrow> (case json_get vm (lit ''Devices'') of
        None \<Rightarrow> None
      | Some dev \<Rightarrow> (case json_get dev (lit ''FlexibleIov'') of None \<Rightarrow> None | Some iov \<Rightarrow> json_get iov g))) =
   map_option slot_settings (find (\<lambda>slot. instance_guid slot = g) (rev (flexible_iovs cfg)))"
  by (simp add: build_document_def lit_def Let_def slot_map_lookup)

end
