(* ===== verification/Test_Child.thy ===== *)
theory Test_Child
  imports Test_Vm
begin

text \<open>
  The two helper processes of \<open>hcs-testvm/src/bin\<close>: \<open>attach_child.rs\<close> stands up a device host with the
  spike device in a process of its own, \<open>host_child.rs\<close> drives one VM through the C ABI: open a host,
  start, hot-add a share, wait for the guest's mount, close. A run is composed from the harness and
  the entry points, on one process state. Console output over time is an argument. Shown: what a
  ready \<open>attach_child\<close> holds; an attempt of \<open>host_child\<close> uses no dead handle, leaves no host and no
  share behind whatever fails, and reports a mount only when the guest printed it.
\<close>

section \<open>attach\_child\<close>

datatype child_end = Exit nat | Holding HCS_SYSTEM pci_device

definition attach_child_main ::
  "'w hdv_api \<Rightarrow> 'w hcs_api \<Rightarrow> rust_str option \<Rightarrow> ptr \<Rightarrow> ptr \<Rightarrow> unit contexts \<times> 'w process \<Rightarrow>
     child_end \<times> unit contexts \<times> 'w process" where
  "attach_child_main hdv hcs arg ctx vt s =
     (case s of (h, p) \<Rightarrow>
        (case arg of
           None \<Rightarrow> (Exit 2, h, p)
         | Some ident \<Rightarrow>
             (case on_platform (HcsOpenComputeSystem hcs (wide ident) GENERIC_ALL) p of
                ((code, system), p) \<Rightarrow>
                  if failed code then (Exit 3, h, p)
                  else (case DeviceHost_open hdv system p of
                          (Inl e, p) \<Rightarrow> (Exit 4, h, p)
                        | (Inr host, p) \<Rightarrow>
                            (case PciDevice_create hdv host () ctx vt (h, p) of
                               (Inl e, h, p) \<Rightarrow> (Exit 5, h, p)
                             | (Inr d, h, p) \<Rightarrow> (Holding system d, h, p))))))"

section \<open>host\_child\<close>

text \<open>The process: the state of the ABI and that of the harness, which share the platform.\<close>

record ('w, 'v) child =
  ch_abi :: "('w, 'v) abi"
  ch_counter :: u32
  ch_readers :: "(HANDLE \<times> u8 list) list"

definition on_vm :: "('w harness \<Rightarrow> 'a \<times> 'w harness) \<Rightarrow> ('w, 'v) child \<Rightarrow> 'a \<times> ('w, 'v) child" where
  "on_vm f c =
     (case f \<lparr>hn_counter = ch_counter c, hn_readers = ch_readers c, hn_proc = abi_proc (ch_abi c)\<rparr> of
        (a, s) \<Rightarrow> (a, \<lparr>ch_abi = (ch_abi c)\<lparr>abi_proc := hn_proc s\<rparr>, ch_counter = hn_counter s, ch_readers = hn_readers s\<rparr>))"

text \<open>\<open>CString::new(s).unwrap()\<close>.\<close>

definition c_string :: "rust_str \<Rightarrow> nat list outcome" where
  "c_string s = (if 0 \<in> set s then Panic else Return (utf8_encode s))"

text \<open>What the console shows over time, how late the sleeps end, and when the two waits begin.\<close>

record console_run =
  con :: "nat \<Rightarrow> u8 list"
  late :: "nat \<Rightarrow> nat"
  t_ready :: nat
  t_mount :: nat

text \<open>The addresses of the boxes the attempt allocates.\<close>

record addresses =
  at_host :: ptr
  at_support :: ptr
  at_share :: ptr
  at_context :: ptr
  at_vtable :: ptr

definition mount_text :: "rust_str \<Rightarrow> rust_str" where
  "mount_text tag = lit ''HOTPLUG_MOUNT_PASS tag='' @ tag"

definition share_document :: "rust_str \<Rightarrow> rust_str \<Rightarrow> rust_str \<Rightarrow> json" where
  "share_document tag path inst =
     JObj [(lit ''tag'', JStr tag), (lit ''path'', JStr path), (lit ''instance_id'', JStr inst), (lit ''ro'', JBool False)]"

definition host_document :: "u32 \<Rightarrow> rust_str" where
  "host_document mb = [123, 34] @ lit ''memory_mb'' @ [34, 58] @ dec (unat mb) @ [125]"

definition mount_share ::
  "('w, 'v, 'fs) abi_env \<Rightarrow> (json \<Rightarrow> rust_str) \<Rightarrow> addresses \<Rightarrow> console_run \<Rightarrow> rust_str option \<Rightarrow> rust_str \<Rightarrow> rust_str \<Rightarrow>
     rocky_vm \<Rightarrow> ptr \<Rightarrow> ('w, 'v) child \<Rightarrow> (bool outcome \<times> ('w, 'v) child) option" where
  "mount_share E to_str ad run ws tag inst vm host c =
     (case on_vm (RockyVm_start (e_hcs E) vm) c of
        (Inl e, c) \<Rightarrow> Some (Return False, c)
      | (Inr _, c) \<Rightarrow>
          if \<not> wait_for_console (con run) (late run) (lit ''GUEST_READY'') 90000 (t_ready run) then Some (Return False, c)
          else case ws of
            None \<Rightarrow> Some (Panic, c)
          | Some ws_path \<Rightarrow>
              (case c_string (to_str (share_document tag ws_path inst)) of
                 Panic \<Rightarrow> Some (Panic, c)
               | Return share_json \<Rightarrow>
                   (case hvfs_add_share E (at_share ad) (at_context ad) (at_vtable ad) host (Some share_json) True (ch_abi c) of
                      None \<Rightarrow> None
                    | Some ((arc, _), a) \<Rightarrow>
                        (let c = c\<lparr>ch_abi := a\<rparr>
                         in if arc \<noteq> HVFS_OK then Some (Return False, c)
                            else Some (Return (wait_for_console (con run) (late run) (mount_text tag) 45000 (t_mount run)), c)))))"

text \<open>The VM is dropped at the end of the attempt, also when a panic unwinds through it; the host is a raw pointer.\<close>

definition end_attempt ::
  "('w, 'v, 'fs) abi_env \<Rightarrow> 'w pipe_api \<Rightarrow> rocky_vm \<Rightarrow> bool outcome \<Rightarrow> ('w, 'v) child \<Rightarrow> bool outcome \<times> ('w, 'v) child" where
  "end_attempt E pa vm r c = (r, snd (on_vm (\<lambda>s. ((), RockyVm_drop (e_hcs E) pa vm s)) c))"

definition attempt_with_vm ::
  "('w, 'v, 'fs) abi_env \<Rightarrow> 'w pipe_api \<Rightarrow> (json \<Rightarrow> rust_str) \<Rightarrow> addresses \<Rightarrow> console_run \<Rightarrow> rocky_config \<Rightarrow>
     rust_str option \<Rightarrow> rust_str \<Rightarrow> rust_str \<Rightarrow> rocky_vm \<Rightarrow> ('w, 'v) child \<Rightarrow> (bool outcome \<times> ('w, 'v) child) option" where
  "attempt_with_vm E pa to_str ad run cfg ws tag inst vm c =
     (case c_string (vm_id vm) of
        Panic \<Rightarrow> Some (end_attempt E pa vm Panic c)
      | Return id_c \<Rightarrow>
          (case c_string (host_document (memory_mb cfg)) of
             Panic \<Rightarrow> Some (end_attempt E pa vm Panic c)
           | Return host_json \<Rightarrow>
               (case hvfs_host_open E (at_host ad) (at_support ad) (Some id_c) (Some host_json) True (ch_abi c) of
                  None \<Rightarrow> None
                | Some ((rc, host_out), a) \<Rightarrow>
                    (let c = c\<lparr>ch_abi := a\<rparr>; host = (case host_out of None \<Rightarrow> 0 | Some p \<Rightarrow> p)
                     in if rc \<noteq> HVFS_OK \<or> host = 0 then Some (end_attempt E pa vm (Return False) c)
                        else case mount_share E to_str ad run ws tag inst vm host c of
                          None \<Rightarrow> None
                        | Some (Panic, c) \<Rightarrow> Some (end_attempt E pa vm Panic c)
                        | Some (Return mounted, c) \<Rightarrow>
                            (case hvfs_host_close E host (ch_abi c) of
                               None \<Rightarrow> None
                             | Some (_, a) \<Rightarrow> Some (end_attempt E pa vm (Return mounted) (c\<lparr>ch_abi := a\<rparr>)))))))"

definition try_once ::
  "('w, 'v, 'fs) abi_env \<Rightarrow> 'w pipe_api \<Rightarrow> (json \<Rightarrow> rust_str) \<Rightarrow> nat \<Rightarrow> addresses \<Rightarrow> console_run \<Rightarrow>
     rust_str \<Rightarrow> rust_str \<Rightarrow> rust_str option \<Rightarrow> rust_str \<Rightarrow> rust_str \<Rightarrow> ('w, 'v) child \<Rightarrow> (bool outcome \<times> ('w, 'v) child) option" where
  "try_once E pa to_str pid ad run krn ird ws tag inst c =
     (let cfg = (RockyConfig_new krn ird)\<lparr>kernel_cmdline := lit ''console=ttyS0 atelier.hptags='' @ tag\<rparr>
      in case on_vm (RockyVm_create (e_hcs E) pa to_str pid cfg) c of
           (Inl e, c) \<Rightarrow> Some (Return False, c)
         | (Inr vm, c) \<Rightarrow> attempt_with_vm E pa to_str ad run cfg ws tag inst vm c)"

text \<open>
  The attempts of \<open>main\<close>, each with its addresses and console: at most four, the first mount ends them.
  A panic ends the process with code 101.
\<close>

fun attempt_loop ::
  "(addresses \<times> console_run \<Rightarrow> ('w, 'v) child \<Rightarrow> (bool outcome \<times> ('w, 'v) child) option) \<Rightarrow>
     (addresses \<times> console_run) list \<Rightarrow> ('w, 'v) child \<Rightarrow> (nat \<times> ('w, 'v) child) option" where
  "attempt_loop try [] c = Some (1, c)"
| "attempt_loop try (x # xs) c =
     (case try x c of
        None \<Rightarrow> None
      | Some (Panic, c) \<Rightarrow> Some (101, c)
      | Some (Return True, c) \<Rightarrow> Some (0, c)
      | Some (Return False, c) \<Rightarrow> attempt_loop try xs c)"

definition ATTEMPTS :: nat where
  "ATTEMPTS = 4"

text \<open>\<open>prepared\<close> is the outcome of making the workspace directory and writing the sentinel.\<close>

definition host_child_main ::
  "('w, 'v, 'fs) abi_env \<Rightarrow> 'w pipe_api \<Rightarrow> (json \<Rightarrow> rust_str) \<Rightarrow> nat \<Rightarrow> rust_str \<times> rust_str \<Rightarrow> (rust_str \<Rightarrow> bool) \<Rightarrow>
     bool \<Rightarrow> rust_str option \<Rightarrow> (nat \<Rightarrow> addresses \<times> console_run) \<Rightarrow> rust_str list \<Rightarrow> ('w, 'v) child \<Rightarrow>
     (nat \<times> ('w, 'v) child) option" where
  "host_child_main E pa to_str pid artifacts exists_path prepared ws attempts args c =
     (if length args \<noteq> 3 then Some (2, c)
      else let tag = args ! 1; inst = args ! 2
           in case artifacts of (krn, ird) \<Rightarrow>
                if \<not> exists_path krn \<or> \<not> exists_path ird then Some (1, c)
                else if \<not> prepared then Some (101, c)
                else attempt_loop (\<lambda>(ad, run). try_once E pa to_str pid ad run krn ird ws tag inst)
                       (map attempts [0..<ATTEMPTS]) c)"

section \<open>The harness changes only the platform\<close>

definition fixed :: "'w harness \<Rightarrow> (flag \<Rightarrow> bool) \<times> flag" where
  "fixed s = (flags (hn_proc s), next_flag (hn_proc s))"

lemma fixed_simps [simp]: "fixed (hn_readers_update g s) = fixed s" "fixed (hn_counter_update k s) = fixed s"
  by (simp_all add: fixed_def)

lemma on_hn_fixed: "on_hn f s = (a, s') \<Longrightarrow> fixed s' = fixed s"
  by (auto simp: on_hn_eq fixed_def)

lemma run_op_fixed: "run_op hcs op what t s = (r, s') \<Longrightarrow> fixed s' = fixed s"
  unfolding run_op_def Let_def by (auto dest: on_hn_fixed split: prod.splits)

lemma spawn_fixed: "spawn_console pa n s = (r, s') \<Longrightarrow> fixed s' = fixed s"
  unfolding spawn_console_def by (auto dest: on_hn_fixed split: prod.splits if_splits)

lemma start_fixed: "RockyVm_start hcs vm s = (r, s') \<Longrightarrow> fixed s' = fixed s"
  unfolding RockyVm_start_def by (auto simp: on_hn_fixed run_op_fixed snd_def split: prod.splits if_splits)

lemma create_fixed:
  assumes "RockyVm_create hcs pa to_str pid cfg s = (r, s')"
  shows "fixed s' = fixed s"
proof -
  define vid where "vid = lit ''hvfs-test-'' @ dec pid @ lit ''-'' @ dec (unat (hn_counter s))"
  let ?name = "[92, 92, 46, 92] @ lit ''pipe'' @ [92] @ vid @ lit ''-com1''"
  obtain q s1 where c: "spawn_console pa ?name (s\<lparr>hn_counter := hn_counter s + 1\<rparr>) = (q, s1)" by fastforce
  have "fixed s1 = fixed s" using spawn_fixed [OF c] by simp
  then show ?thesis using assms c unfolding RockyVm_create_def Let_def vid_def [symmetric]
    by (cases q) (auto simp: on_hn_fixed run_op_fixed snd_def split: prod.splits if_splits sum.splits)
qed

lemma drop_fixed: "fixed (RockyVm_drop hcs pa vm s) = fixed s"
proof -
  note C = prod.collapse [symmetric]
  obtain op s1 where c: "on_hn (HcsCreateOperation hcs) s = (op, s1)" by fastforce
  show ?thesis using c on_hn_fixed [OF c] unfolding RockyVm_drop_def Let_def
    by (simp add: on_hn_fixed [OF C] run_op_fixed [OF C] split: if_split option.split)
qed

text \<open>So for the ABI a step of the harness is a step of the world.\<close>

definition platform_only :: "('w harness \<Rightarrow> 'a \<times> 'w harness) \<Rightarrow> bool" where
  "platform_only f \<longleftrightarrow> (\<forall>s. fixed (snd (f s)) = fixed s)"

lemma platform_onlys:
  "platform_only (RockyVm_start hcs vm)" "platform_only (RockyVm_create hcs pa to_str pid cfg)"
  "platform_only (\<lambda>s. ((), RockyVm_drop hcs pa vm s))"
  unfolding platform_only_def
  by (simp_all add: start_fixed [OF prod.collapse [symmetric]] create_fixed [OF prod.collapse [symmetric]] drop_fixed)

lemma on_vm_world:
  assumes "platform_only f" "on_vm f c = (a, c')"
  shows "\<exists>w. ch_abi c' = (ch_abi c)\<lparr>devices := devices (ch_abi c), abi_proc := (abi_proc (ch_abi c))\<lparr>platform := w\<rparr>\<rparr>"
proof -
  let ?s = "\<lparr>hn_counter = ch_counter c, hn_readers = ch_readers c, hn_proc = abi_proc (ch_abi c)\<rparr>"
  obtain b t where t: "f ?s = (b, t)" by fastforce
  then have "fixed t = fixed ?s" using assms(1) unfolding platform_only_def by (metis snd_conv)
  then have "hn_proc t = (abi_proc (ch_abi c))\<lparr>platform := platform (hn_proc t)\<rparr>" by (simp add: fixed_def)
  moreover have "ch_abi c' = (ch_abi c)\<lparr>abi_proc := hn_proc t\<rparr>" using assms(2) t by (auto simp: on_vm_def)
  ultimately show ?thesis by (intro exI [of _ "platform (hn_proc t)"]) simp
qed

lemma on_vm_reach:
  assumes "reach abi_init (abi_step Es) (ch_abi c)" "on_vm f c = (a, c')" "platform_only f"
  shows "reach abi_init (abi_step Es) (ch_abi c')" "hosts (ch_abi c') = hosts (ch_abi c)" "shares (ch_abi c') = shares (ch_abi c)"
    "devices (ch_abi c') = devices (ch_abi c)" "supports (ch_abi c') = supports (ch_abi c)"
proof -
  obtain w where w: "ch_abi c' = (ch_abi c)\<lparr>devices := devices (ch_abi c), abi_proc := (abi_proc (ch_abi c))\<lparr>platform := w\<rparr>\<rparr>"
    using on_vm_world [OF assms(3,2)] by blast
  show "reach abi_init (abi_step Es) (ch_abi c')" using assms(1) unfolding w by (rule reach_step) (rule abi_step.World)
  show "hosts (ch_abi c') = hosts (ch_abi c)" "shares (ch_abi c') = shares (ch_abi c)"
    "devices (ch_abi c') = devices (ch_abi c)" "supports (ch_abi c') = supports (ch_abi c)" using w by simp_all
qed

lemmas start_reach = on_vm_reach [OF _ _ platform_onlys(1)]
lemmas create_reach = on_vm_reach [OF _ _ platform_onlys(2)]
lemmas drop_reach = on_vm_reach [OF _ _ platform_onlys(3)]

section \<open>An attempt\<close>

lemma host_open_devices: "hvfs_host_open E bx spt ident js out s = Some (r, t) \<Longrightarrow> devices t = devices s"
proof -
  have C: "cstr p what s = (q, s') \<Longrightarrow> devices s' = devices s" for p what s q s'
    by (auto simp: cstr_def set_last_error_def split: option.splits)
  assume "hvfs_host_open E bx spt ident js out s = Some (r, t)"
  then show ?thesis unfolding hvfs_host_open_def
    by (auto simp: C on_abi_def drop_support_def OwnedSystem_drop_def set_last_error_def Let_def
        split: if_splits prod.splits sum.splits option.splits)
qed

text \<open>When the wait for a text succeeds, a poll has found it.\<close>

definition printed :: "console_run \<Rightarrow> rust_str \<Rightarrow> bool" where
  "printed run text \<longleftrightarrow> (\<exists>t. str_contains (console_text (con run t)) text)"

lemma wait_printed: "wait_for_console (con run) (late run) text timeout now \<Longrightarrow> printed run text"
  unfolding wait_for_console_def wait_loop_iff printed_def by blast

definition fresh_at :: "addresses \<Rightarrow> ('w, 'v) abi \<Rightarrow> bool" where
  "fresh_at ad s \<longleftrightarrow>
     at_host ad \<noteq> 0 \<and> hosts s (at_host ad) = None \<and> supports s (at_support ad) = None \<and> at_share ad \<noteq> 0 \<and>
     shares s (at_share ad) = None \<and> devices s (at_context ad) = None"

text \<open>
  The host with nothing or just the new share on it, all else as before.
\<close>

definition one_share :: "ptr \<Rightarrow> ptr \<Rightarrow> ('w, 'v) abi \<Rightarrow> ('w, 'v) abi \<Rightarrow> bool" where
  "one_share host bx s t \<longleftrightarrow>
     (\<exists>h. hosts t host = Some h \<and>
        (shares t = shares s \<and> hh_shares h = [] \<or> (\<exists>sh. shares t = (shares s)(bx \<mapsto> sh) \<and> hh_shares h = [bx]))) \<and>
     (\<forall>p. p \<noteq> host \<longrightarrow> map_option core (hosts t p) = map_option core (hosts s p))"

lemma one_share_add:
  assumes "reach abi_init (abi_step Es) s" "hosts s host = Some h" "hh_shares h = []" "devices s ctx = None"
  shows "\<exists>c o' t. hvfs_add_share E bx ctx vt host js True s = Some ((c, o'), t) \<and> one_share host bx s t"
proof -
  have inv: "abi_inv s" using assms(1) by (rule abi.reach_inv)
  obtain c o' t where r: "hvfs_add_share E bx ctx vt host js True s = Some ((c, o'), t)"
    "rejected c s t \<or> (\<exists>u. same_handles s u \<and> registered host bx u t)"
    using add_share_outcome [OF inv disjI2 [OF assms(2)] assms(4), of E bx vt js True] by blast
  from r(2) have "one_share host bx s t"
  proof
    assume "rejected c s t"
    then have S: "same_handles s t" by (simp add: rejected_def)
    then obtain k where "hosts t host = Some k" "core h = core k" using same_handles_Some' assms(2) by blast
    then show ?thesis using S assms(3) by (auto simp: one_share_def same_handles_def core_eq)
  next
    assume "\<exists>u. same_handles s u \<and> registered host bx u t"
    then obtain u where S: "same_handles s u" and R: "registered host bx u t" by blast
    obtain k where k: "hosts u host = Some k" "core h = core k" using same_handles_Some' [OF S assms(2)] by blast
    then show ?thesis using S R assms(3) by (auto simp: one_share_def same_handles_def core_eq registered_def)
  qed
  then show ?thesis using r(1) by blast
qed

lemma mount_outcome:
  assumes "reach abi_init (abi_step Es) (ch_abi c)" "E \<in> Es" "hosts (ch_abi c) host = Some h" "hh_shares h = []"
    "devices (ch_abi c) (at_context ad) = None" "shares (ch_abi c) (at_share ad) = None" "at_share ad \<noteq> 0"
  shows "\<exists>r c'. mount_share E to_str ad run ws tag inst vm host c = Some (r, c') \<and> reach abi_init (abi_step Es) (ch_abi c') \<and>
    one_share host (at_share ad) (ch_abi c) (ch_abi c') \<and> (r = Return True \<longrightarrow> printed run (mount_text tag)) \<and>
    (r = Panic \<longrightarrow> ws = None \<or> (\<exists>j. 0 \<in> set (to_str j)))"
proof -
  obtain a c1 where st: "on_vm (RockyVm_start (e_hcs E) vm) c = (a, c1)" by fastforce
  note k1 = start_reach [OF assms(1) st]
  note r1 = k1(1)
  have o1: "one_share host (at_share ad) (ch_abi c) (ch_abi c1)" using k1 assms(3,4) by (simp add: one_share_def)
  have add: "\<exists>q t. hvfs_add_share E (at_share ad) (at_context ad) (at_vtable ad) host js True (ch_abi c1) = Some (q, t) \<and>
      reach abi_init (abi_step Es) t \<and> one_share host (at_share ad) (ch_abi c) t" for js
  proof -
    obtain d o' t where t: "hvfs_add_share E (at_share ad) (at_context ad) (at_vtable ad) host js True (ch_abi c1) = Some ((d, o'), t)"
      "one_share host (at_share ad) (ch_abi c1) t"
      using one_share_add [OF r1, of host h "at_context ad" E "at_share ad" "at_vtable ad" js] assms(3,4,5) k1 by auto
    have "reach abi_init (abi_step Es) t"
      by (rule reach_step [OF r1], rule abi_step.Add [OF assms(2) _ _ _ assms(7) t(1)]) (use assms k1 in simp_all)
    then show ?thesis using t k1 by (auto simp: one_share_def)
  qed
  show ?thesis
  proof (cases "\<exists>e. a = Inl e \<or> \<not> wait_for_console (con run) (late run) (lit ''GUEST_READY'') 90000 (t_ready run)")
    case True
    then show ?thesis using st r1 o1 by (auto simp: mount_share_def split: sum.split)
  next
    case False
    then obtain u where a: "a = Inr u" and rd: "wait_for_console (con run) (late run) (lit ''GUEST_READY'') 90000 (t_ready run)"
      by (cases a) auto
    show ?thesis
    proof (cases "\<exists>path js. ws = Some path \<and> c_string (to_str (share_document tag path inst)) = Return js")
      case True
      then obtain path js where pj: "ws = Some path" "c_string (to_str (share_document tag path inst)) = Return js" by blast
      obtain q t where t: "hvfs_add_share E (at_share ad) (at_context ad) (at_vtable ad) host (Some js) True (ch_abi c1) = Some (q, t)"
        "reach abi_init (abi_step Es) t" "one_share host (at_share ad) (ch_abi c) t" using add by blast
      then show ?thesis using st a rd pj wait_printed by (cases q) (auto simp: mount_share_def Let_def)
    next
      case no: False
      then have "mount_share E to_str ad run ws tag inst vm host c = Some (Panic, c1)"
        using st a rd by (auto simp: mount_share_def split: option.split outcome.split)
      moreover have "ws = None \<or> (\<exists>j. 0 \<in> set (to_str j))"
        using no by (cases ws) (auto simp: c_string_def split: if_splits)
      ultimately show ?thesis using r1 o1 by simp
    qed
  qed
qed

lemma dec_digits: "set (dec n) \<subseteq> {48..57}"
  by (induction n rule: dec.induct) (subst dec.simps, auto)

lemma dec_no_nul [simp]: "0 \<notin> set (dec n)"
  using dec_digits [of n] by auto

lemma create_id:
  assumes "RockyVm_create hcs pa to_str pid cfg s = (Inr vm, s')"
  shows "0 \<notin> set (vm_id vm)"
proof -
  define vid where "vid = lit ''hvfs-test-'' @ dec pid @ lit ''-'' @ dec (unat (hn_counter s))"
  have "vm_id vm = vid" using assms unfolding RockyVm_create_def Let_def vid_def [symmetric]
    by (auto split: prod.splits sum.splits if_splits)
  then show ?thesis by (auto simp: vid_def lit_def)
qed

lemma c_string_documents: "c_string (host_document mb) = Return (utf8_encode (host_document mb))"
  by (simp add: c_string_def host_document_def lit_def)

definition restored :: "('w, 'v) abi \<Rightarrow> ('w, 'v) abi \<Rightarrow> bool" where
  "restored s t \<longleftrightarrow> (\<forall>p. map_option core (hosts t p) = map_option core (hosts s p)) \<and> shares t = shares s"

lemma close_restores:
  assumes "reach abi_init (abi_step Es) t" "E \<in> Es" "one_share host bx u t" "hosts u = (hosts s)(host \<mapsto> k)" "shares u = shares s"
    "hosts s host = None" "shares s bx = None"
  shows "\<exists>t'. hvfs_host_close E host t = Some (HVFS_OK, t') \<and> reach abi_init (abi_step Es) t' \<and> restored s t'"
proof -
  obtain h where h: "hosts t host = Some h"
    "shares t = shares s \<and> hh_shares h = [] \<or> (\<exists>sh. shares t = (shares s)(bx \<mapsto> sh) \<and> hh_shares h = [bx])"
    using assms(3,5) by (auto simp: one_share_def)
  obtain t' where t': "hvfs_host_close E host t = Some (HVFS_OK, t')" "hosts t' = (hosts t)(host := None)"
    "shares t' = shares t |` (- set (hh_shares h))"
    using host_close_effect [OF abi.reach_inv [OF assms(1)] h(1), of E] by blast
  have "reach abi_init (abi_step Es) t'"
    by (rule reach_step [OF assms(1)], rule abi_step.Close [OF assms(2) _ t'(1)]) (simp add: h(1))
  moreover have "shares t' = shares s"
    using t'(3) h(2) assms(7) by (auto simp: restrict_map_def fun_eq_iff)
  moreover have "map_option core (hosts t' p) = map_option core (hosts s p)" for p
    using t'(2) assms(3,4,6) by (auto simp: one_share_def)
  ultimately show ?thesis using t'(1) by (auto simp: restored_def)
qed

lemma end_attempt_reach:
  assumes "reach abi_init (abi_step Es) (ch_abi c)"
  shows "\<exists>c'. end_attempt E pa vm r c = (r, c') \<and> reach abi_init (abi_step Es) (ch_abi c') \<and>
    (restored s (ch_abi c) \<longrightarrow> restored s (ch_abi c'))"
  using drop_reach [OF assms prod.collapse [symmetric], of "e_hcs E" pa vm] by (auto simp: end_attempt_def restored_def)

lemma attempt_outcome:
  assumes r0: "reach abi_init (abi_step Es) (ch_abi c)" and E: "E \<in> Es" and f: "fresh_at ad (ch_abi c)" and nul: "0 \<notin> set (vm_id vm)"
  shows "\<exists>r c'. attempt_with_vm E pa to_str ad run cfg ws tag inst vm c = Some (r, c') \<and> reach abi_init (abi_step Es) (ch_abi c') \<and>
    (r \<noteq> Panic \<longrightarrow> restored (ch_abi c) (ch_abi c')) \<and> (r = Return True \<longrightarrow> printed run (mount_text tag)) \<and>
    (r = Panic \<longrightarrow> ws = None \<or> (\<exists>j. 0 \<in> set (to_str j)))"
proof -
  define s where "s = ch_abi c"
  define idc where "idc = utf8_encode (vm_id vm)"
  define js where "js = utf8_encode (host_document (memory_mb cfg))"
  have cs: "c_string (vm_id vm) = Return idc" using nul by (simp add: c_string_def idc_def)
  have ch: "c_string (host_document (memory_mb cfg)) = Return js" by (simp add: c_string_documents js_def)
  have sp: "supports s (at_support ad) = None" using f by (simp add: fresh_at_def s_def)
  obtain rc ho t where op: "hvfs_host_open E (at_host ad) (at_support ad) (Some idc) (Some js) True s = Some ((rc, ho), t)"
    and outcome: "rejected rc s t \<or> rc = HVFS_OK \<and> ho = Some (at_host ad) \<and>
      (\<exists>host sy mb. hosts t = (hosts s)(at_host ad \<mapsto> new_host host (at_support ad) sy mb) \<and> shares t = shares s)"
    using host_open_outcome [OF sp, of E "at_host ad" "Some idc" "Some js" True] by (elim exE conjE disjE) auto
  have rt: "reach abi_init (abi_step Es) t"
    by (rule reach_step [OF r0], rule abi_step.Open [OF E _ _ _ op [unfolded s_def]]) (use f in \<open>simp_all add: fresh_at_def\<close>)
  show ?thesis
  proof (cases "rc = HVFS_OK")
    case False
    then have "restored s t" using outcome by (auto simp: rejected_def same_handles_def restored_def)
    then show ?thesis using False cs ch op end_attempt_reach [of Es "c\<lparr>ch_abi := t\<rparr>" E pa vm "Return False" s] rt
      by (auto simp: attempt_with_vm_def s_def)
  next
    case ok: True
    then obtain host sy mb where t: "hosts t = (hosts s)(at_host ad \<mapsto> new_host host (at_support ad) sy mb)" "shares t = shares s"
      "ho = Some (at_host ad)" using outcome by (auto simp: rejected_def)
    have k: "hosts t (at_host ad) = Some (new_host host (at_support ad) sy mb)" "hh_shares (new_host host (at_support ad) sy mb) = []"
      "devices t (at_context ad) = None" "shares t (at_share ad) = None" "at_share ad \<noteq> 0" "at_host ad \<noteq> 0"
      using t f host_open_devices [OF op] by (simp_all add: fresh_at_def s_def new_host_def)
    let ?c = "c\<lparr>ch_abi := t\<rparr>"
    obtain r c2 where m: "mount_share E to_str ad run ws tag inst vm (at_host ad) ?c = Some (r, c2)"
      "reach abi_init (abi_step Es) (ch_abi c2)" "one_share (at_host ad) (at_share ad) t (ch_abi c2)"
      "r = Return True \<longrightarrow> printed run (mount_text tag)" "r = Panic \<longrightarrow> ws = None \<or> (\<exists>j. 0 \<in> set (to_str j))"
      using mount_outcome [of Es ?c E "at_host ad" _ ad to_str run ws tag inst vm] rt E k(1-5) by auto
    show ?thesis
    proof (cases r)
      case Panic
      then show ?thesis using cs ch op ok t(3) k(6) m end_attempt_reach [OF m(2), of E pa vm Panic s]
        by (auto simp: attempt_with_vm_def s_def Let_def)
    next
      case (Return b)
      obtain t' where t': "hvfs_host_close E (at_host ad) (ch_abi c2) = Some (HVFS_OK, t')" "reach abi_init (abi_step Es) t'" "restored s t'"
        using close_restores [OF m(2) E m(3) t(1,2)] f by (auto simp: fresh_at_def s_def)
      then show ?thesis using Return cs ch op ok t(3) k(6) m end_attempt_reach [of Es "c2\<lparr>ch_abi := t'\<rparr>" E pa vm "Return b" s]
        by (auto simp: attempt_with_vm_def s_def Let_def)
    qed
  qed
qed

text \<open>
  C30. One attempt of \<open>host_child\<close>, a whole run of the ABI on a live VM. Started on fresh addresses it
  never uses a handle that is not live; unless it panics, every host and share it made is gone
  afterwards and those of others are as they were, wherever it failed; it reports a mount only if the
  guest printed it. It panics only on a workspace path that is not Unicode or on a NUL inside a
  printed document.
\<close>

theorem host_child_attempt:
  assumes "reach abi_init (abi_step Es) (ch_abi c)" and "E \<in> Es" and "fresh_at ad (ch_abi c)"
  shows "\<exists>r c'. try_once E pa to_str pid ad run krn ird ws tag inst c = Some (r, c') \<and>
    reach abi_init (abi_step Es) (ch_abi c') \<and>
    (r \<noteq> Panic \<longrightarrow> restored (ch_abi c) (ch_abi c')) \<and> (r = Return True \<longrightarrow> printed run (mount_text tag)) \<and>
    (r = Panic \<longrightarrow> ws = None \<or> (\<exists>j. 0 \<in> set (to_str j)))"
proof -
  define cfg where "cfg = (RockyConfig_new krn ird)\<lparr>kernel_cmdline := lit ''console=ttyS0 atelier.hptags='' @ tag\<rparr>"
  obtain q c1 where v: "on_vm (RockyVm_create (e_hcs E) pa to_str pid cfg) c = (q, c1)" by fastforce
  note R = create_reach [OF assms(1) v]
  show ?thesis
  proof (cases q)
    case (Inl e)
    then show ?thesis using v R unfolding try_once_def Let_def cfg_def [symmetric] by (simp add: restored_def)
  next
    case (Inr vm)
    then have "0 \<notin> set (vm_id vm)" using v by (auto simp: on_vm_def split: prod.splits dest: create_id)
    moreover have "fresh_at ad (ch_abi c1)" using assms(3) R by (simp add: fresh_at_def)
    ultimately show ?thesis
      using attempt_outcome [OF R(1) assms(2), of ad vm pa to_str run cfg ws tag inst] v R Inr
      unfolding try_once_def Let_def cfg_def [symmetric] by (simp add: restored_def)
  qed
qed

text \<open>A platform that also creates and starts compute systems, and a guest that is ready and mounts at once.\<close>

definition vm_env :: "(nat list, u16 \<Rightarrow> u32, unit) abi_env" where
  "vm_env = demo_env\<lparr>e_hcs := (e_hcs demo_env)\<lparr>HcsCreateComputeSystem := (\<lambda>_ _ _ w. ((0, 11), w)), HcsStartComputeSystem := (\<lambda>_ _ w. (0, w))\<rparr>\<rparr>"

definition vm_pipes :: "nat list pipe_api" where
  "vm_pipes = \<lparr>CreateNamedPipeW = (\<lambda>_ _ w. (7, w)), ConnectNamedPipe = (\<lambda>_ w. ((True, 0), w)),
     ReadFile = (\<lambda>_ _ w. ((False, []), w)), CloseHandle = (\<lambda>_ w. ((), w))\<rparr>"

definition vm_addresses :: addresses where
  "vm_addresses = \<lparr>at_host = 16, at_support = 32, at_share = 48, at_context = 64, at_vtable = 0\<rparr>"

definition vm_run :: console_run where
  "vm_run = \<lparr>con = (\<lambda>_. map of_nat (lit ''GUEST_READY HOTPLUG_MOUNT_PASS tag=a'')), late = (\<lambda>_. 0), t_ready = 0, t_mount = 0\<rparr>"

definition vm_child :: "(nat list, u16 \<Rightarrow> u32) child" where
  "vm_child = \<lparr>ch_abi = demo_init, ch_counter = 0, ch_readers = []\<rparr>"

theorem host_child_attempt_witness:
  "\<exists>b c'. try_once vm_env vm_pipes (\<lambda>_. []) 3 vm_addresses vm_run [] [] (Some []) (lit ''a'') [] vm_child = Some (Return b, c') \<and>
     hosts (ch_abi c') = Map.empty \<and> shares (ch_abi c') = Map.empty"
proof -
  have "reach abi_init (abi_step {vm_env}) (ch_abi vm_child)"
    by (rule reach_init) (simp add: abi_init_def vm_child_def demo_init_def)
  moreover have "fresh_at vm_addresses (ch_abi vm_child)"
    by (simp add: fresh_at_def vm_addresses_def vm_child_def demo_init_def)
  ultimately obtain r c' where r: "try_once vm_env vm_pipes (\<lambda>_. []) 3 vm_addresses vm_run [] [] (Some []) (lit ''a'') [] vm_child = Some (r, c')"
    "r \<noteq> Panic" "restored (ch_abi vm_child) (ch_abi c')"
    using host_child_attempt [of "{vm_env}" vm_child vm_env vm_addresses vm_pipes "\<lambda>_. []" 3 vm_run "[]" "[]" "Some []" "lit ''a''" "[]"] by auto
  moreover obtain b where "r = Return b" using r(2) by (cases r) auto
  ultimately show ?thesis by (auto simp: restored_def vm_child_def demo_init_def fun_eq_iff)
qed

text \<open>
  When the process exits with 0, one of its attempts has reported a mount.
\<close>

lemma attempt_loop_zero:
  "attempt_loop try xs c = Some (0, c') \<Longrightarrow> \<exists>x \<in> set xs. \<exists>d. try x d = Some (Return True, c')"
proof (induction xs arbitrary: c)
  case (Cons x xs)
  then show ?case by (auto split: option.splits prod.splits outcome.splits bool.splits)
qed simp

text \<open>
  A ready \<open>attach_child\<close> holds the spike device: every callback of the platform on its context is
  answered by it, and a process that ends early has left no context behind.
\<close>

lemma attach_child_holds:
  assumes "attach_child_main hdv hcs arg ctx vt (h, p) = (r, h', p')" "h ctx = None"
  shows "case r of Exit n \<Rightarrow> n \<in> {2, 3, 4, 5} \<and> h' = h
    | Holding system d \<Rightarrow> h' = h(ctx \<mapsto> ()) \<and> arg \<noteq> None \<and>
        (\<forall>offset. tramp_read_config spike_ops ctx offset True h' = Some ((S_OK, Some (spike_read_config offset)), h'))"
  using assms unfolding attach_child_main_def
  by (auto simp: PciDevice_create_def PciDevice_create_with_instance_def PciDevice_create_shared_def Let_def
      tramp_read_config_def ops_of_def spike_ops_def fun_upd_idem fun_upd_triv split: option.splits prod.splits sum.splits if_splits)

end
