(* ===== verification/Unit_Tests.thy ===== *)
theory Unit_Tests
  imports Abi_Texts Req_Stats Aperture_Mem
begin

text \<open>
  The unit tests of the repository, run on the definitions that model the code they test: each lemma
  has the name of its test and states its assertions. They guard the model against the same slips the
  tests guard the code against. Left out are the tests of \<open>serde_json\<close> and of the global logger, and
  those of the worker pool and of the shards, which their properties subsume.
\<close>

section \<open>hdv/src/pci.rs\<close>

lemmas guid_eval = guid_to_string_def fmt_hex_def hex_digits.simps hex_char_def lit_def HVFS_DEVICE_CLASS_ID_def
  HVFS_DEVICE_INSTANCE_ID_def HVFS_DEVICE_HOST_ID_def VIRTIO_FS_DEVICE_CLASS_ID_def

lemma to_string_is_canonical_lowercase_no_braces:
  "guid_to_string VIRTIO_FS_DEVICE_CLASS_ID = lit ''872270e1-a899-4af6-b454-7193634435ad''"
  by (simp add: guid_eval)

lemma well_known_constants_round_trip:
  "\<forall>g \<in> {HVFS_DEVICE_CLASS_ID, HVFS_DEVICE_INSTANCE_ID, HVFS_DEVICE_HOST_ID, VIRTIO_FS_DEVICE_CLASS_ID}.
     guid_from_string (guid_to_string g) = Return (Some g)"
proof -
  have "\<forall>g \<in> {HVFS_DEVICE_CLASS_ID, HVFS_DEVICE_INSTANCE_ID, HVFS_DEVICE_HOST_ID, VIRTIO_FS_DEVICE_CLASS_ID}. guid_wf g"
    by (simp add: guid_wf_def guid_eval)
  then show ?thesis using guid_text_parses by blast
qed

lemmas parse_eval = guid_from_string_def guid_body_def str_trim_def is_whitespace_def strip_prefix_def strip_suffix_def
  lit_def utf8_len_def from_str_radix_def to_digit_def

lemma from_string_rejects_malformed:
  "guid_from_string [] = Return None" "guid_from_string (lit ''not-a-guid'') = Return None"
  "guid_from_string (lit ''872270e1-a899-4af6-b454'') = Return None"
  "guid_from_string (lit ''872270e1-a899-4af6-b454-7193634435ad-extra'') = Return None"
  "guid_from_string (lit ''872270e1a899-4af6-b454-7193634435ad'') = Return None"
  "guid_from_string (lit ''872270e1-a899-4af6-b454-7193634435a'') = Return None"
  by (simp_all add: parse_eval)

lemma from_string_rejects_non_hex: "guid_from_string (lit ''gggggggg-a899-4af6-b454-7193634435ad'') = Return None"
proof -
  have "is_ascii (lit ''gggggggg-a899-4af6-b454-7193634435ad'')" by (simp add: lit_def)
  then have "guid_from_string (lit ''gggggggg-a899-4af6-b454-7193634435ad'') \<noteq> Panic" by (rule guid_from_string_ascii_no_panic)
  then show ?thesis by (simp add: parse_eval split: outcome.splits option.splits)
qed

lemma class_id_differs_from_instance_id:
  "guid_to_string HVFS_DEVICE_CLASS_ID \<noteq> guid_to_string HVFS_DEVICE_INSTANCE_ID"
  by (simp add: guid_eval)

section \<open>virtio-hdv/src/reqstats.rs\<close>

lemma stage_stat_mean_and_max:
  "mean_us StageStat_default = 0"
  "let s = record_us 20 (record_us 300 (record_us 100 StageStat_default)) in count_now s = 3 \<and> mean_us s = 140 \<and> stage_max s = 300"
  by (simp_all add: StageStat_default_def record_us_def count_now_def mean_us_def stage_max_def Let_def max_def)

lemma disabled_stats_are_inert:
  "let r = ReqStats_new False t0 in stats_now t r = None \<and>
     (let r = rec_complete t None (rec_pop t None 5 r) in count_now (st_complete r) = 0 \<and> batch_items r = 0)"
  by (simp add: ReqStats_new_def stats_now_def rec_pop_def rec_complete_def stats_rec_def StageStat_default_def count_now_def
      maybe_emit_def Let_def)

lemma batch_accounting:
  "let r = ReqStats_new True t; r = rec_pop t (stats_now t r) 1 r; r = rec_pop t (stats_now t r) 4 r; r = rec_pop t (stats_now t r) 2 r
   in count_now (st_pop r) = 3 \<and> batch_items r = 7 \<and> batch_max r = 4 \<and> lone_batches r = 1"
  by (simp add: ReqStats_new_def stats_now_def rec_pop_def stats_rec_def StageStat_default_def count_now_def record_us_def Let_def max_def)

section \<open>virtio-hdv/src/pool.rs, interrupt.rs, doorbell.rs\<close>

lemma parse_workers_rules:
  "parse_workers None 8 = 0" "parse_workers (Some (lit ''0'')) 8 = 0" "parse_workers (Some (lit ''6'')) 8 = 6"
  "parse_workers (Some (lit ''32'')) 8 = 32" "parse_workers (Some (lit ''auto'')) 8 = 8"
  "parse_workers (Some (lit ''auto'')) 2 = 4" "parse_workers (Some (lit ''auto'')) 64 = 16" "parse_workers (Some []) 8 = 8"
  by (simp_all add: parse_workers_def clamp_def from_str_radix_def str_trim_def is_whitespace_def to_digit_def lit_def Let_def)

lemma log_dedups_and_stamps:
  "let l = record_msi (t + 3) (0xfee00000, 2) (record_msi (t + 2) (0xfee00000, 1) (record_msi t (0xfee00000, 1) (InterruptLog_new t)))
   in snapshot_into l (replicate 8 (0, 0)) = [(0xfee00000, 1), (0xfee00000, 2)] \<and> idle_ms (t + 3) l < 1000"
  by (simp add: record_msi_def add_pair_def InterruptLog_new_def snapshot_into_def idle_ms_def saturating_sub_def Let_def)

lemma bar_translation:
  "bar_and_offset (BAR0_BASE + 0x38) = Some (Bar0, 0x38)" "bar_and_offset BAR2_BASE = Some (Bar2, 0)"
  "bar_and_offset (BAR0_BASE - 1) = None" "bar_and_offset (BAR2_BASE + 0x1000) = None"
  by (simp_all add: bar_and_offset_def BAR0_BASE_def BAR2_BASE_def BAR_SPAN_def)

lemma size_flags:
  "size_flag (Some 2) = HDV_DOORBELL_FLAG_TRIGGER_SIZE_WORD" "size_flag (Some 8) = HDV_DOORBELL_FLAG_TRIGGER_SIZE_QWORD"
  "size_flag None = HDV_DOORBELL_FLAG_TRIGGER_SIZE_ANY" "size_flag (Some 3) = HDV_DOORBELL_FLAG_TRIGGER_SIZE_ANY"
  by (simp_all add: size_flag_def)

section \<open>vmworker-sys/src/lib.rs\<close>

lemma vtable_layouts:
  "length IUnknownVtbl = 3" "length IVmVirtualDeviceAccessVtbl = 5" "length IVmFiovGuestMemoryFastNotificationVtbl = 5"
  "length IVmFiovGuestMmioMappingsVtbl = 5"
  by (simp_all add: IUnknownVtbl_def IVmVirtualDeviceAccessVtbl_def IVmFiovGuestMemoryFastNotificationVtbl_def
      IVmFiovGuestMmioMappingsVtbl_def)

section \<open>hyperv_virtiofs/src/lib.rs\<close>

lemma abi_version_is_two: "hvfs_abi_version = 2"
  by (simp add: hvfs_abi_version_def HVFS_ABI_VERSION_def)

lemmas status_defs = HVFS_OK_def HVFS_ERR_INVALID_ARG_def HVFS_ERR_NOT_IMPLEMENTED_def HVFS_ERR_PANIC_def HVFS_ERR_HDV_def
  HVFS_ERR_UNSUPPORTED_def

lemma status_codes_are_distinct_and_signed:
  "distinct [HVFS_OK, HVFS_ERR_INVALID_ARG, HVFS_ERR_NOT_IMPLEMENTED, HVFS_ERR_PANIC, HVFS_ERR_HDV, HVFS_ERR_UNSUPPORTED]"
  "HVFS_OK = 0"
  "\<forall>c \<in> {HVFS_ERR_INVALID_ARG, HVFS_ERR_NOT_IMPLEMENTED, HVFS_ERR_PANIC, HVFS_ERR_HDV, HVFS_ERR_UNSUPPORTED}. sint c < 0"
  by (simp_all add: status_defs)

lemma guard_passes_through_and_converts:
  "guard (Return HVFS_OK) s = (HVFS_OK, s)" "guard (Return HVFS_ERR_HDV) s = (HVFS_ERR_HDV, s)"
  "fst (guard Panic s) = HVFS_ERR_PANIC" "last_error (snd (guard Panic s)) \<noteq> None"
  by (simp_all add: guard_def)

lemma cstr_tests:
  "fst (cstr None (lit ''x'') s) = Inl HVFS_ERR_INVALID_ARG"
  "cstr (Some (utf8_encode (lit ''hello''))) (lit ''x'') s = (Inr (lit ''hello''), s)"
  "fst (cstr (Some [0xFF, 0xFE]) (lit ''x'') s) = Inl HVFS_ERR_INVALID_ARG"
  by (simp_all add: cstr_def utf8_encode_def utf8_encode_char_def lit_def)

lemma wide_is_nul_terminated_utf16: "wide (lit ''AB'') = [0x41, 0x42, 0]" "wide [] = [0]"
  by (simp_all add: wide_def encode_utf16_def encode_utf16_char_def lit_def)

lemma null_argument_contracts:
  "\<exists>t. hvfs_host_open E bx spt None None False s = Some ((HVFS_ERR_INVALID_ARG, None), t)"
  "\<exists>t. hvfs_host_open E bx spt None None True s = Some ((HVFS_ERR_INVALID_ARG, Some 0), t)"
  "parse_host E js = Inl e \<Longrightarrow> utf8_decode bytes = Some js \<Longrightarrow> utf8_decode ident = Some i \<Longrightarrow>
     \<exists>t. hvfs_host_open E bx spt (Some ident) (Some bytes) True s = Some ((HVFS_ERR_INVALID_ARG, Some 0), t) \<and> abi_proc t = abi_proc s"
  "\<exists>t. hvfs_add_share E bx ctx vt 0 None False s = Some ((HVFS_ERR_INVALID_ARG, None), t)"
  "\<exists>t. hvfs_add_share E bx ctx vt 0 None True s = Some ((HVFS_ERR_INVALID_ARG, Some 0), t)"
  "hvfs_share_instance_id 0 s = Some None" "hvfs_remove_share E 0 s = Some (HVFS_OK, s)" "hvfs_host_close E 0 s = Some (HVFS_OK, s)"
  by (simp_all add: hvfs_host_open_def hvfs_add_share_def hvfs_share_instance_id_def cstr_def)

lemma last_error_tests:
  "abi_fresh s \<Longrightarrow> hvfs_last_error s = None" "hvfs_last_error (set_last_error (lit ''a diagnostic'') s) = Some (lit ''a diagnostic'')"
  by (simp_all add: hvfs_last_error_def abi_fresh_def set_last_error_def lit_def)

end
