(* ===== verification/Spec2Isabelle.thy ===== *)
theory Spec2Isabelle
  imports Aperture_Threads Offload_Pool Rate_Limit Virtio_Hdv Abi_Texts Logging Test_Child Unit_Tests
begin

text \<open>
  A verification development for \<^bold>\<open>hyperv-virtiofs\<close>, a DLL that attaches virtio-fs devices to a Hyper-V
  guest through the Host Device Virtualization (HDV) interface of Windows.

  \<^bold>\<open>The program.\<close> A caller opens a device host on a compute system and hot-adds shares through a C
  ABI (\<open>crates/hyperv_virtiofs\<close>). A share is a PCI device whose behaviour is OpenVMM's virtio
  transport; \<open>crates/virtio-hdv\<close> bridges it to HDV: guest memory through a cache of mapped
  apertures, interrupts, doorbells, and a virtio-fs device that runs FUSE requests on a pool of
  threads. \<open>crates/hdv\<close> wraps the HDV calls (hosts, devices, apertures, the vtable of a PCI device,
  the COM support object, the channel to the VM worker), and \<open>hdv-sys\<close>, \<open>hcs-sys\<close> and \<open>vmworker-sys\<close>
  declare the imports.

  \<^bold>\<open>Conventions.\<close> Machine integers are words of their width, pointers are 64-bit words, strings are
  lists of Unicode scalar values and their UTF-8 bytes. A function that may panic returns an
  \<open>outcome\<close>; a Rust \<open>Result\<close> is a sum with the error on the left; use of a freed box is the value
  \<open>None\<close>. What Windows, OpenVMM, \<open>serde_json\<close> and \<open>tracing\<close> do is a parameter: a record of functions
  on a world of type \<open>'w\<close> that is threaded through the state, so that every call and its order is
  visible. Hypotheses on such a parameter are named definitions (\<open>config_space\<close>, \<open>doorbell_platform\<close>,
  \<open>com_rules\<close>, \<open>hcs_ledger\<close>, \<open>vm_ledger\<close>, \<open>coherent_platform\<close>, \<open>nonnull_platform\<close>), each with a concrete instance in
  the witness of the property that uses it. Environment variables and clocks are arguments.
  Concurrent code is an \<open>inductive\<close> step relation with a program counter per thread, one step per
  atomic access, and the properties hold for all interleavings.

  \<^bold>\<open>Library.\<close>
    \<^item> \<open>Prelude\<close>: types, panics, the process state, reachability with the locale \<open>safe_machine\<close> (an
      invariant that holds initially and under every step holds in all reachable states), lists and
      association lists. \<open>Rust_Str\<close>: the string functions of the standard library the code uses.
    \<^item> Locales: \<open>safe_machine\<close> is interpreted for the pool, the dispatcher, a device on the shared pool,
      the aperture lifetimes, the threads on the aperture cache, the rate limiter, the re-arm net, the
      support object, the device contexts, and the handles and the texts of the C ABI; \<open>lru_cache\<close> (\<open>Aperture_Cache\<close>) by a shard; \<open>doorbell_channel\<close> (\<open>Doorbell\<close>) by both
      registration routes; \<open>fail_stop_device\<close> (\<open>Pci_Device\<close>) by the virtio bridge.

  \<^bold>\<open>Theories and sources.\<close>
    \<^item> \<open>Guid\<close>, \<open>Hdv_Sys\<close>, \<open>Hdv\<close> model \<open>hdv/src/pci.rs\<close> (GUIDs), \<open>hdv-sys/src/lib.rs\<close> and
      \<open>hdv/src/lib.rs\<close>. Printing and parsing of GUIDs round-trip; accepted text is canonical; two
      malformed inputs that are not rejected are exhibited.
    \<^item> \<open>Aperture_Cache\<close>, \<open>Aperture_Mem\<close>, \<open>Guest_Memory\<close> model \<open>virtio-hdv/src/mem.rs\<close>: shards, eviction
      in recency order, the quota loop, \<open>with_mapping\<close> and the two fallbacks. Shown: the invariant of
      the cache (64 mappings per shard, 1024 in all), that a shard is a least-recently-used list,
      the miss path on every branch, that copies stay inside their aperture, and, over a platform
      with coherent apertures, that reads and writes are reads and writes of guest memory.
    \<^item> \<open>Aperture_Lifetime\<close> interleaves the drop of a host with the drops of apertures: no double
      destroy, no destroy after the flag was seen cleared; and the window in which a destroy can
      still follow the teardown.
    \<^item> \<open>Aperture_Threads\<close> puts any number of threads on the one cache of a device: each critical section
      of a shard and each byte of a copy is a step, the clones are read off the threads, and guest and
      platform move in between. Shown: a copy never runs through an unmapped range, its bytes are the
      guest's, and the mappings are exactly those somebody has a clone of. A hit with its restamp is
      one step: the order of two restamps decides only which entry is evicted first.
    \<^item> \<open>Payload\<close> models \<open>payload.rs\<close>: the reader and the reply sender against the byte stream of the
      descriptor chain. \<open>Worker_Pool\<close> models \<open>pool.rs\<close>: no job is lost, dropping the pool drains it
      within a bounded number of steps.
    \<^item> \<open>Offload\<close> models \<open>offload.rs\<close>: config space, queue table, the dispatcher. Shown: every popped
      descriptor is in exactly one place, a seen stop quiesces within a bound, one FUSE round trip;
      and that the inline path can keep a stop from being seen. \<open>Offload_Pool\<close> puts the dispatcher on
      the worker pool itself: each queue of the composed machine refines the dispatcher, and a
      queue that is stopping is never stuck.
    \<^item> \<open>Rate_Limit\<close>, \<open>Req_Stats\<close>, \<open>Interrupt\<close> model \<open>ratelimit.rs\<close>, \<open>reqstats.rs\<close>, and \<open>handle.rs\<close> with
      \<open>interrupt.rs\<close> and the \<open>RearmNet\<close> of \<open>virtio-hdv/src/lib.rs\<close>.
    \<^item> \<open>Vm_Worker\<close>, \<open>Doorbell\<close> model \<open>vmworker-sys\<close>, \<open>hdv/src/vmworker.rs\<close> and \<open>doorbell.rs\<close>: COM references
      are balanced, armed doorbells are those of the live guards.
    \<^item> \<open>Proxy\<close>, \<open>Pci_Device\<close>, \<open>Virtio_Hdv\<close> model \<open>hdv/src/proxy.rs\<close>, the rest of \<open>pci.rs\<close>, and
      \<open>virtio-hdv/src/lib.rs\<close>: reference counting, ownership of contexts, panics contained in every
      callback, fail-stop of a poisoned device, BAR sizing that restores what it touched, attaching.
    \<^item> \<open>Hcs\<close>, \<open>C_Abi\<close>, \<open>Logging\<close> model \<open>hcs-sys\<close>, \<open>hyperv_virtiofs/src/lib.rs\<close> and \<open>logging.rs\<close>: every entry
      point on heaps of hosts and shares, for callers that keep the contract of the header; the
      error contract; the order of a host's teardown; what the logger callback receives. \<open>Abi_Texts\<close>
      shows that the strings and codes handed to C are what the header says.
    \<^item> \<open>Unit_Tests\<close> states the assertions of the repository's unit tests about the definitions here.
    \<^item> \<open>Test_Vm\<close>, \<open>Test_Child\<close> model \<open>hcs-testvm/src/lib.rs\<close> and its two helper processes: the document of a
      throwaway VM, its life and what it gives back, the console, and a whole run of the C ABI on a
      VM, which leaves no host and no share behind. This theory composes the close of a host with
      the caches of its devices.

  \<^bold>\<open>Bounds and fuel.\<close> No definition takes fuel: loops are structural recursions or functions with a
  termination measure, and loops of threads are step relations whose termination is a bound on the
  number of steps (\<open>Worker_Pool\<close>, \<open>Offload\<close>, \<open>Interrupt\<close>). Fairness is not assumed anywhere: the
  bounds count the steps of the threads concerned.

  \<^bold>\<open>Abstractions.\<close> Atomic accesses are sequentially consistent. In \<open>C_Abi\<close> the calls are sequential and
  one thread's last error is kept; the guest and other threads may change devices and platform
  between calls. Log events and trace lines are not part of any state except in \<open>Logging\<close>. Mutexes
  whose poison the code ignores are not given a poison flag; the device lock, whose poison matters,
  has one.

  \<^bold>\<open>Not modelled.\<close> The end-to-end tests, spikes and benches (they call what is modelled, with
  assertions on a live machine), build files and documents; of the helper processes the lines they
  print and the making of their scratch directory, which is a boolean. OpenVMM's crates, the FUSE
  file system, the Windows components and the registry crates are not part of the repository.
\<close>

section \<open>Closing a host and the caches of its devices\<close>

text \<open>
  C11. Closing a host disarms the aperture caches of all its devices. A device outlives the close, in
  the context the platform owns, and with it its cache of mapped guest memory. Whatever happens to
  the platform after the close, and whichever copies still hold a mapping, finalising such a cache
  makes no platform call: its apertures carry the liveness flag of the host, and the close has
  cleared it before it tore the device host down. The teardown and the closing of the compute system
  are the only calls the close itself makes, in this order.
\<close>

theorem close_then_finalise:
  assumes "reach abi_init (abi_step Es) s" and "hosts s hp = Some h"
    and "mem_inv g" and "mem_alive g = host_alive (hh_host h)"
  shows "\<exists>t. hvfs_host_close E hp s = Some (HVFS_OK, t) \<and>
    (\<forall>w. cache_drop (e_hdv E) still g ((abi_proc t)\<lparr>platform := w\<rparr>) = (abi_proc t)\<lparr>platform := w\<rparr>) \<and>
    (host_handle (hh_host h) \<noteq> 0 \<longrightarrow> hh_owned h \<noteq> 0 \<longrightarrow>
      platform (abi_proc t) = snd (HcsCloseComputeSystem (e_hcs E) (hh_owned h)
        (snd (HdvTeardownDeviceHost (e_hdv E) (host_handle (hh_host h)) (platform (abi_proc s))))))"
proof -
  obtain t where t: "hvfs_host_close E hp s = Some (HVFS_OK, t)"
    "abi_proc t = (let p = DeviceHost_drop (e_hdv E) (hh_host h) (abi_proc s)
      in if hh_owned h = 0 then p else snd (on_platform (HcsCloseComputeSystem (e_hcs E) (hh_owned h)) p))"
    using host_close_effect [OF abi.reach_inv [OF assms(1)] assms(2), of E] by blast
  have "\<not> flags ((abi_proc t)\<lparr>platform := w\<rparr>) (mem_alive g)" for w
    using DeviceHost_drop_flag [of "e_hdv E" "hh_host h" "abi_proc s"] t(2) assms(4) by (simp add: Let_def on_platform_eq)
  then have "cache_drop (e_hdv E) still g ((abi_proc t)\<lparr>platform := w\<rparr>) = (abi_proc t)\<lparr>platform := w\<rparr>" for w
    by (rule cache_drop_dead [OF assms(3)])
  then show ?thesis using t by (auto simp: Let_def on_platform_eq DeviceHost_drop_def)
qed

theorem close_then_finalise_witness:
  "\<exists>t. hvfs_host_close demo_env 16 demo_open = Some (HVFS_OK, t) \<and> platform (abi_proc t) = [1, 2] \<and>
     cache_drop (e_hdv demo_env) (\<lambda>_. True) sim_mem (abi_proc t) = abi_proc t"
proof -
  let ?h = "new_host \<lparr>host_handle = 5, host_alive = 0\<rparr> 32 7 512"
  have h: "hosts demo_open 16 = Some ?h" by (simp add: demo_open_fields)
  have "mem_alive sim_mem = host_alive (hh_host ?h)" by (simp add: sim_mem_def into_guest_memory_def new_host_def)
  then obtain t where t: "hvfs_host_close demo_env 16 demo_open = Some (HVFS_OK, t)"
    "\<And>w. cache_drop (e_hdv demo_env) (\<lambda>_. True) sim_mem ((abi_proc t)\<lparr>platform := w\<rparr>) = (abi_proc t)\<lparr>platform := w\<rparr>"
    "platform (abi_proc t) = [1, 2]"
    using close_then_finalise [OF demo_open_reach h sim_mem_ok(1), of demo_env "\<lambda>_. True"]
    by (auto simp: demo_open_fields new_host_def demo_env_def)
  have same: "(abi_proc t)\<lparr>platform := platform (abi_proc t)\<rparr> = abi_proc t" by simp
  show ?thesis using t(1,3) t(2) [of "platform (abi_proc t)", unfolded same] by blast
qed

end
